(* ===== verification/Prelude.thy ===== *)
theory Prelude
  imports Main "HOL-Library.Word" "HOL-Library.Char_ord"
begin

text \<open>
  What every component of the development shares: the JavaScript values the sources use
  (safe integers, strings, insertion-ordered maps), the outcome of a call to a remote
  service, and generic lemmas on lists, options and words.  The collections below are the
  simplification sets of the component theories: \<open>js_map\<close> for insertion-ordered maps,
  \<open>redis_law\<close> and \<open>pg_law\<close> for the two services, \<open>key_simps\<close> for the Redis key layout.
\<close>

unbundle bit_operations_syntax

named_theorems js_map "equations of insertion-ordered maps"
named_theorems key_simps "the Redis key layout"
named_theorems redis_law "documented behaviour of the Redis commands"
named_theorems pg_law "documented behaviour of the PostgreSQL statements"

section \<open>Numbers\<close>

type_synonym u32 = "32 word"
type_synonym byte = "8 word"

text \<open>\<open>Number.MAX_SAFE_INTEGER\<close> and \<open>Number.isSafeInteger\<close> on a value that is an integer.\<close>

definition MAX_SAFE_INTEGER :: int where
  "MAX_SAFE_INTEGER = 2 ^ 53 - 1"

definition isSafeInteger :: "int \<Rightarrow> bool" where
  "isSafeInteger n \<longleftrightarrow> - MAX_SAFE_INTEGER \<le> n \<and> n \<le> MAX_SAFE_INTEGER"

text \<open>
  A JavaScript \<open>number\<close> handed to a constructor: \<open>NotInt\<close> stands for every value that is not
  an integer (\<open>NaN\<close>, the infinities, fractions), which is all the sources test for.
\<close>

datatype js_number = IntNum int | NotInt

fun positiveSafeInteger :: "js_number \<Rightarrow> bool" where
  "positiveSafeInteger (IntNum n) \<longleftrightarrow> isSafeInteger n \<and> 1 \<le> n"
| "positiveSafeInteger NotInt \<longleftrightarrow> False"

text \<open>Decimal numerals: \<open>String(n)\<close> of a non-negative integer, and reading one back.\<close>

definition digit_char :: "nat \<Rightarrow> char" where
  "digit_char d = ''0123456789'' ! d"

fun js_String :: "nat \<Rightarrow> string" where
  "js_String n = (if n < 10 then [digit_char n] else js_String (n div 10) @ [digit_char (n mod 10)])"

declare js_String.simps [simp del]

definition digit_value :: "char \<Rightarrow> nat option" where
  "digit_value c = (if CHR ''0'' \<le> c \<and> c \<le> CHR ''9'' then Some (of_char c - 48) else None)"

fun digits_value :: "nat \<Rightarrow> string \<Rightarrow> nat option" where
  "digits_value acc [] = Some acc"
| "digits_value acc (c # cs) =
     (case digit_value c of None \<Rightarrow> None | Some d \<Rightarrow> digits_value (acc * 10 + d) cs)"

text \<open>A decimal integer as PostgreSQL's \<open>::text\<close> prints it: an optional minus sign and digits.\<close>

definition decimal_value :: "string \<Rightarrow> int option" where
  "decimal_value s =
     (case s of
        [] \<Rightarrow> None
      | c # cs \<Rightarrow>
          if c = CHR ''-'' then (if cs = [] then None else map_option (\<lambda>n. - int n) (digits_value 0 cs))
          else map_option int (digits_value 0 s))"

lemma digit_value_char [simp]: "d < 10 \<Longrightarrow> digit_value (digit_char d) = Some d"
  by (auto simp: less_Suc_eq numeral_eq_Suc digit_char_def digit_value_def)

lemma digit_char_inj: "d < 10 \<Longrightarrow> e < 10 \<Longrightarrow> digit_char d = digit_char e \<Longrightarrow> d = e"
  using digit_value_char by fastforce

lemma digits_value_append:
  "digits_value acc (xs @ ys) = Option.bind (digits_value acc xs) (\<lambda>a. digits_value a ys)"
  by (induction acc xs rule: digits_value.induct) (auto split: option.splits)

lemma digits_value_String [simp]: "digits_value 0 (js_String n) = Some n"
proof (induction n rule: js_String.induct)
  case (1 n)
  then show ?case
    by (subst js_String.simps) (auto simp: digits_value_append)
qed

lemma set_js_String: "set (js_String n) \<subseteq> set ''0123456789''"
proof (induction n rule: js_String.induct)
  case (1 n)
  have "digit_char d \<in> set ''0123456789''" if "d < 10" for d
    using that unfolding digit_char_def by (intro nth_mem) simp
  with 1 show ?case by (subst js_String.simps) auto
qed

lemma js_String_neq_Nil [simp]: "js_String n \<noteq> []"
  by (subst js_String.simps) simp

lemma js_String_inj: "js_String m = js_String n \<longleftrightarrow> m = n"
  by (metis digits_value_String option.inject)

text \<open>\<open>String(i)\<close> of an integer.\<close>

definition int_text :: "int \<Rightarrow> string" where
  "int_text i = (if i < 0 then CHR ''-'' # js_String (nat (- i)) else js_String (nat i))"

lemma js_String_hd: "hd (js_String n) \<noteq> CHR ''-''"
proof -
  have "hd (js_String n) \<in> set (js_String n)" by simp
  with set_js_String [of n] have "hd (js_String n) \<in> set ''0123456789''" by blast
  then show ?thesis by auto
qed

lemma decimal_int_text [simp]: "decimal_value (int_text n) = Some n"
proof (cases "n < 0")
  case True
  then show ?thesis by (simp add: int_text_def decimal_value_def)
next
  case False
  obtain c cs where "js_String (nat n) = c # cs" by (cases "js_String (nat n)") auto
  with js_String_hd [of "nat n"] False digits_value_String [of "nat n"] show ?thesis
    by (auto simp: int_text_def decimal_value_def)
qed

section \<open>The outcome of a remote call\<close>

text \<open>
  A call to Redis or PostgreSQL either succeeds, or fails before the server executed it,
  or fails after the server executed it (the reply was lost).  The environment chooses; the
  model takes the choice as an argument of the operation.
\<close>

datatype net = NetOk | LostRequest | LostReply

definition remote :: "net \<Rightarrow> ('s \<Rightarrow> 's \<times> 'a) \<Rightarrow> 's \<Rightarrow> 's \<times> 'a option" where
  "remote n f s =
     (case n of
        NetOk \<Rightarrow> (let (s', r) = f s in (s', Some r))
      | LostRequest \<Rightarrow> (s, None)
      | LostReply \<Rightarrow> (fst (f s), None))"

lemma remote_simps [simp]:
  "remote NetOk f s = (fst (f s), Some (snd (f s)))"
  "remote LostRequest f s = (s, None)"
  "remote LostReply f s = (fst (f s), None)"
  by (simp_all add: remote_def split: prod.split)

lemma remote_Some:
  "remote n f s = (s', Some r) \<longleftrightarrow> n = NetOk \<and> s' = fst (f s) \<and> r = snd (f s)"
  by (cases n) auto

lemma remote_state: "fst (remote n f s) = s \<or> fst (remote n f s) = fst (f s)"
  by (cases n) auto

section \<open>Insertion-ordered maps\<close>

text \<open>
  A JavaScript \<open>Map\<close> iterates in insertion order: \<open>set\<close> on a present key overwrites in place,
  on an absent key appends.  It is an association list with distinct keys.
\<close>

type_synonym ('k, 'v) js_map = "('k \<times> 'v) list"

fun js_get :: "('k, 'v) js_map \<Rightarrow> 'k \<Rightarrow> 'v option" where
  "js_get [] k = None"
| "js_get ((k', v) # m) k = (if k' = k then Some v else js_get m k)"

fun js_set :: "('k, 'v) js_map \<Rightarrow> 'k \<Rightarrow> 'v \<Rightarrow> ('k, 'v) js_map" where
  "js_set [] k v = [(k, v)]"
| "js_set ((k', v') # m) k v = (if k' = k then (k, v) # m else (k', v') # js_set m k v)"

fun js_delete :: "('k, 'v) js_map \<Rightarrow> 'k \<Rightarrow> ('k, 'v) js_map" where
  "js_delete [] k = []"
| "js_delete ((k', v') # m) k = (if k' = k then m else (k', v') # js_delete m k)"

definition js_has :: "('k, 'v) js_map \<Rightarrow> 'k \<Rightarrow> bool" where
  "js_has m k \<longleftrightarrow> js_get m k \<noteq> None"

abbreviation js_keys :: "('k, 'v) js_map \<Rightarrow> 'k list" where
  "js_keys m \<equiv> map fst m"

abbreviation js_wf :: "('k, 'v) js_map \<Rightarrow> bool" where
  "js_wf m \<equiv> distinct (js_keys m)"

lemma js_get_set [simp]: "js_get (js_set m k v) k' = (if k = k' then Some v else js_get m k')"
  by (induction m k v rule: js_set.induct) auto

lemma js_get_None_iff [js_map]: "js_get m k = None \<longleftrightarrow> k \<notin> fst ` set m"
  by (induction m k rule: js_get.induct) auto

lemma js_keys_set [js_map]:
  "js_keys (js_set m k v) = (if k \<in> fst ` set m then js_keys m else js_keys m @ [k])"
  by (induction m k v rule: js_set.induct) auto

lemma set_keys_js_set [simp]: "fst ` set (js_set m k v) = insert k (fst ` set m)"
  by (induction m k v rule: js_set.induct) auto

lemma js_wf_set [simp, intro]: "js_wf m \<Longrightarrow> js_wf (js_set m k v)"
  by (simp add: js_keys_set)

lemma js_keys_delete_subset: "fst ` set (js_delete m k) \<subseteq> fst ` set m"
  by (induction m k rule: js_delete.induct) auto

lemma js_wf_delete [simp, intro]: "js_wf m \<Longrightarrow> js_wf (js_delete m k)"
proof (induction m k rule: js_delete.induct)
  case (2 k' v' m k)
  then show ?case using js_keys_delete_subset [of m k] by auto
qed simp

lemma js_get_delete:
  "js_wf m \<Longrightarrow> js_get (js_delete m k) k' = (if k = k' then None else js_get m k')"
proof (induction m k rule: js_delete.induct)
  case (2 k1 v1 m k)
  have "k1 \<notin> fst ` set m \<Longrightarrow> js_get m k1 = None" by (simp add: js_get_None_iff)
  with 2 show ?case by auto
qed simp

lemma js_get_in_set: "js_get m k = Some v \<Longrightarrow> (k, v) \<in> set m"
  by (induction m k rule: js_get.induct) (auto split: if_splits)

lemma js_get_iff: "js_wf m \<Longrightarrow> js_get m k = Some v \<longleftrightarrow> (k, v) \<in> set m"
proof (induction m k rule: js_get.induct)
  case (2 k' v' m k)
  then show ?case by (auto simp: image_iff dest: js_get_in_set)
qed simp

lemma length_js_set:
  "length (js_set m k v) = (if k \<in> fst ` set m then length m else Suc (length m))"
  by (induction m k v rule: js_set.induct) auto

lemma length_js_delete:
  "length (js_delete m k) = (if k \<in> fst ` set m then length m - 1 else length m)"
proof (induction m k rule: js_delete.induct)
  case (2 k' v' m k)
  then show ?case by (cases m) auto
qed simp

lemma js_set_neq_Nil [simp]: "js_set m k v \<noteq> []"
  by (induction m k v rule: js_set.induct) auto

section \<open>Lists\<close>

lemma distinct_set_singleton: "distinct xs \<Longrightarrow> set xs = {x} \<Longrightarrow> xs = [x]"
proof (cases xs)
  case (Cons y ys)
  assume "distinct xs" "set xs = {x}"
  with Cons have "y = x" "x \<notin> set ys" "set ys \<subseteq> {x}" by auto
  then have "set ys = {}" using subset_singletonD by fastforce
  with Cons \<open>y = x\<close> show ?thesis by simp
qed simp

lemma find_filter_unique:
  "(\<And>x y. x \<in> set xs \<Longrightarrow> y \<in> set xs \<Longrightarrow> P x \<Longrightarrow> P y \<Longrightarrow> x = y) \<Longrightarrow>
     List.find P xs = Some x \<longleftrightarrow> x \<in> set xs \<and> P x"
  by (induction xs) auto

end
