(* ===== verification/Short_Code.thy ===== *)
theory Short_Code
  imports Prelude
begin

text \<open>
  \<open>src/src/domain/code.ts\<close>: random Base62 codes for the synchronous creation path.  The bytes
  of \<open>randomBytes\<close> are an input: the list of blocks the loop draws, one block per iteration.
\<close>

definition ALPHABET :: string where
  "ALPHABET = ''0123456789ABCDEFGHIJKLMNOPQRSTUVWXYZabcdefghijklmnopqrstuvwxyz''"

lemma length_ALPHABET [simp]: "length ALPHABET = 62"
  by (simp add: ALPHABET_def)

lemma distinct_ALPHABET: "distinct ALPHABET"
  by (simp add: ALPHABET_def)

lemma ALPHABET_nth_mem [simp]: "n < 62 \<Longrightarrow> ALPHABET ! n \<in> set ALPHABET"
  by simp

lemma ALPHABET_nth_eq: "i < 62 \<Longrightarrow> j < 62 \<Longrightarrow> ALPHABET ! i = ALPHABET ! j \<longleftrightarrow> i = j"
  using distinct_ALPHABET by (simp add: nth_eq_iff_index_eq)

text \<open>The inner \<open>for\<close> loop over one block: a byte of 248 or more is skipped, a full result stops.\<close>

fun take_block :: "nat \<Rightarrow> string \<Rightarrow> byte list \<Rightarrow> string" where
  "take_block len result [] = result"
| "take_block len result (b # bs) =
     (if 248 \<le> b then take_block len result bs
      else let result' = result @ [ALPHABET ! (unat b mod 62)]
           in if length result' = len then result' else take_block len result' bs)"

text \<open>The outer \<open>while\<close> loop; \<open>None\<close> when the supplied blocks run out before the code is full.\<close>

fun generate_loop :: "nat \<Rightarrow> string \<Rightarrow> byte list list \<Rightarrow> string option" where
  "generate_loop len result blocks =
     (if len \<le> length result then Some result
      else case blocks of
             [] \<Rightarrow> None
           | b # bs \<Rightarrow> generate_loop len (take_block len result b) bs)"

declare generate_loop.simps [simp del]

definition generateCode :: "nat \<Rightarrow> byte list list \<Rightarrow> string option" where
  "generateCode len blocks = generate_loop len [] blocks"

definition accepted :: "byte list \<Rightarrow> nat" where
  "accepted bs = length (filter (\<lambda>b. b < 248) bs)"

lemma accepted_simps [simp]:
  "accepted [] = 0"
  "accepted (b # bs) = (if 248 \<le> b then accepted bs else Suc (accepted bs))"
  by (auto simp: accepted_def)

lemma take_block_length:
  "length r < len \<Longrightarrow> length (take_block len r bs) = min len (length r + accepted bs)"
proof (induction len r bs rule: take_block.induct)
  case (2 len result b bs)
  then show ?case by (cases "248 \<le> b") (auto simp: Let_def)
qed simp

lemma take_block_alphabet:
  "set r \<subseteq> set ALPHABET \<Longrightarrow> set (take_block len r bs) \<subseteq> set ALPHABET"
  by (induction len r bs rule: take_block.induct) (auto simp: Let_def)

lemma generate_loop_ok:
  "generate_loop len r blocks = Some c \<Longrightarrow> length r \<le> len \<Longrightarrow> set r \<subseteq> set ALPHABET \<Longrightarrow>
     length c = len \<and> set c \<subseteq> set ALPHABET"
proof (induction blocks arbitrary: r)
  case Nil
  then show ?case by (auto simp: generate_loop.simps [of len r "[]"] split: if_splits)
next
  case (Cons b bs)
  show ?case
  proof (cases "len \<le> length r")
    case True
    with Cons.prems show ?thesis by (simp add: generate_loop.simps [of len r])
  next
    case False
    with Cons.prems have "generate_loop len (take_block len r b) bs = Some c"
      by (simp add: generate_loop.simps [of len r])
    moreover have "length (take_block len r b) \<le> len"
      using False by (simp add: take_block_length)
    moreover have "set (take_block len r b) \<subseteq> set ALPHABET"
      using Cons.prems(3) by (rule take_block_alphabet)
    ultimately show ?thesis by (rule Cons.IH)
  qed
qed

lemma generate_loop_total:
  "len \<le> length r + sum_list (map accepted blocks) \<Longrightarrow> \<exists>c. generate_loop len r blocks = Some c"
proof (induction blocks arbitrary: r)
  case Nil
  then show ?case by (simp add: generate_loop.simps [of len r])
next
  case (Cons b bs)
  show ?case
  proof (cases "len \<le> length r")
    case True
    then show ?thesis by (simp add: generate_loop.simps [of len r])
  next
    case False
    with Cons.prems have "len \<le> length (take_block len r b) + sum_list (map accepted bs)"
      by (auto simp: take_block_length min_def)
    from Cons.IH [OF this] False show ?thesis by (simp add: generate_loop.simps [of len r])
  qed
qed

lemmas generateCode_ok =
  generate_loop_ok [where r = "[]", folded generateCode_def, simplified]

text \<open>C37: Generating a code ends with a code of the requested length over the alphabet as soon as
  the random blocks drawn hold that many bytes below 248.\<close>

theorem generateCode_returns:
  assumes "len \<le> sum_list (map accepted blocks)"
  shows "\<exists>c. generateCode len blocks = Some c \<and> length c = len \<and> set c \<subseteq> set ALPHABET"
  using generate_loop_total [of len "[]" blocks] generateCode_ok assms
  by (auto simp: generateCode_def)

theorem generateCode_returns_witness:
  "2 \<le> sum_list (map accepted [[250, 5], [61, 9 :: byte]]) \<and>
   (\<exists>c. generateCode 2 [[250, 5], [61, 9]] = Some c \<and> length c = 2 \<and> set c \<subseteq> set ALPHABET)"
proof -
  have h: "2 \<le> sum_list (map accepted [[250, 5], [61, 9 :: byte]])" by simp
  from h generateCode_returns [OF h] show ?thesis by blast
qed



end
