(* ===== verification/Cycle_Walking.thy ===== *)
theory Cycle_Walking
  imports Prelude
begin

text \<open>
  Cycle walking: to permute a set \<open>T\<close> with a permutation \<open>f\<close> of a larger finite set \<open>S\<close>, apply
  \<open>f\<close> until the value is back in \<open>T\<close>.  The locale states what the client relies on (\<open>f\<close>
  permutes \<open>S\<close>, \<open>walk\<close> is the loop) and proves once that the loop always ends and that the
  first-return map is a permutation of \<open>T\<close>.
\<close>

locale cycle_walk =
  fixes f :: "'a \<Rightarrow> 'a" and S T :: "'a set" and walk :: "'a \<Rightarrow> 'a option"
  assumes perm: "bij_betw f S S"
    and finite_S: "finite S"
    and T_subset: "T \<subseteq> S"
    and walk_unfold: "x \<in> S \<Longrightarrow> walk x = (if x \<in> T then Some x else walk (f x))"
begin

lemma funpow_mem: "x \<in> S \<Longrightarrow> (f ^^ n) x \<in> S"
  using perm by (induction n) (auto simp: bij_betw_def)

lemma funpow_inj: "x \<in> S \<Longrightarrow> y \<in> S \<Longrightarrow> (f ^^ n) x = (f ^^ n) y \<Longrightarrow> x = y"
proof (induction n)
  case (Suc n)
  then have "f ((f ^^ n) x) = f ((f ^^ n) y)" by simp
  moreover have "inj_on f S" using perm by (simp add: bij_betw_def)
  ultimately have "(f ^^ n) x = (f ^^ n) y"
    using Suc.prems funpow_mem by (meson inj_onD)
  with Suc show ?case by blast
qed simp

lemma returns: "x \<in> S \<Longrightarrow> \<exists>n > 0. (f ^^ n) x = x"
proof -
  assume x: "x \<in> S"
  have "\<not> inj_on (\<lambda>n. (f ^^ n) x) UNIV"
  proof
    assume "inj_on (\<lambda>n. (f ^^ n) x) UNIV"
    moreover have "range (\<lambda>n. (f ^^ n) x) \<subseteq> S" using x by (auto intro: funpow_mem)
    ultimately have "finite (UNIV :: nat set)"
      using finite_S finite_imageD finite_subset by blast
    then show False by simp
  qed
  then obtain a b where ab: "a \<noteq> b" "(f ^^ a) x = (f ^^ b) x"
    by (auto simp: inj_on_def)
  obtain i j where ij: "i < j" "(f ^^ i) x = (f ^^ j) x"
    using ab by (cases "a < b") (fastforce simp: not_less le_less)+
  then have "(f ^^ i) x = (f ^^ i) ((f ^^ (j - i)) x)"
    by (metis comp_apply funpow_add le_add_diff_inverse less_imp_le)
  then have "x = (f ^^ (j - i)) x" using x funpow_inj funpow_mem by blast
  with ij(1) show ?thesis by (metis zero_less_diff)
qed

definition steps :: "'a \<Rightarrow> nat" where
  "steps x = (LEAST n. 0 < n \<and> (f ^^ n) x \<in> T)"

lemma steps_spec:
  assumes "x \<in> T"
  shows "0 < steps x" "(f ^^ steps x) x \<in> T"
    and "\<And>m. 0 < m \<Longrightarrow> m < steps x \<Longrightarrow> (f ^^ m) x \<notin> T"
proof -
  from assms T_subset obtain n where "0 < n \<and> (f ^^ n) x \<in> T"
    using returns by (metis subsetD)
  then have "0 < steps x \<and> (f ^^ steps x) x \<in> T"
    unfolding steps_def by (rule LeastI)
  then show "0 < steps x" "(f ^^ steps x) x \<in> T" by blast+
  show "\<And>m. 0 < m \<Longrightarrow> m < steps x \<Longrightarrow> (f ^^ m) x \<notin> T"
    unfolding steps_def using not_less_Least by blast
qed

lemma walk_funpow:
  "y \<in> S \<Longrightarrow> (f ^^ n) y \<in> T \<Longrightarrow> (\<And>m. m < n \<Longrightarrow> (f ^^ m) y \<notin> T) \<Longrightarrow> walk y = Some ((f ^^ n) y)"
proof (induction n arbitrary: y)
  case 0
  then show ?case by (simp add: walk_unfold [of y])
next
  case (Suc n)
  from Suc.prems(3) [of 0] have "y \<notin> T" by simp
  moreover have "walk (f y) = Some ((f ^^ n) (f y))"
  proof (rule Suc.IH)
    show "f y \<in> S" using Suc.prems(1) funpow_mem [of y 1] by simp
    show "(f ^^ n) (f y) \<in> T" using Suc.prems(2) by (simp add: funpow_swap1)
    show "\<And>m. m < n \<Longrightarrow> (f ^^ m) (f y) \<notin> T"
      using Suc.prems(3) [of "Suc m" for m] by (simp add: funpow_swap1)
  qed
  ultimately show ?case using Suc.prems(1) by (simp add: walk_unfold [of y] funpow_swap1)
qed

lemma walk_eq:
  assumes "x \<in> T"
  shows "walk (f x) = Some ((f ^^ steps x) x)"
proof -
  obtain k where k: "steps x = Suc k" using steps_spec(1) [OF assms] gr0_implies_Suc by blast
  have "walk (f x) = Some ((f ^^ k) (f x))"
  proof (rule walk_funpow)
    show "f x \<in> S" using assms T_subset funpow_mem [of x 1] by auto
    show "(f ^^ k) (f x) \<in> T" using steps_spec(2) [OF assms] by (simp add: k funpow_swap1)
    show "\<And>m. m < k \<Longrightarrow> (f ^^ m) (f x) \<notin> T"
      using steps_spec(3) [OF assms, of "Suc m" for m] by (simp add: k funpow_swap1)
  qed
  then show ?thesis by (simp add: k funpow_swap1)
qed

lemma walk_total: "x \<in> T \<Longrightarrow> \<exists>y \<in> T. walk (f x) = Some y"
  using walk_eq steps_spec(2) by blast

lemma steps_le:
  assumes "x \<in> T" "y \<in> T" "(f ^^ steps x) x = (f ^^ steps y) y" "steps x \<le> steps y"
  shows "x = y"
proof -
  let ?d = "steps y - steps x"
  have "(f ^^ steps x) x = (f ^^ steps x) ((f ^^ ?d) y)"
    using assms(3,4) by (metis comp_apply funpow_add le_add_diff_inverse)
  then have x: "x = (f ^^ ?d) y"
    using assms(1,2) T_subset funpow_inj funpow_mem by blast
  show ?thesis
  proof (cases "?d = 0")
    case True
    with x show ?thesis by simp
  next
    case False
    moreover have "?d < steps y"
      using steps_spec(1) [OF assms(1)] False by linarith
    ultimately have "(f ^^ ?d) y \<notin> T" using steps_spec(3) [OF assms(2)] by simp
    with x assms(1) show ?thesis by simp
  qed
qed

theorem walk_bij: "bij_betw (\<lambda>x. the (walk (f x))) T T"
proof -
  have inj: "inj_on (\<lambda>x. the (walk (f x))) T"
  proof (rule inj_onI)
    fix x y
    assume "x \<in> T" "y \<in> T" "the (walk (f x)) = the (walk (f y))"
    then have "(f ^^ steps x) x = (f ^^ steps y) y" by (simp add: walk_eq)
    with \<open>x \<in> T\<close> \<open>y \<in> T\<close> show "x = y"
      using steps_le [of x y] steps_le [of y x] by (metis nat_le_linear)
  qed
  moreover have "(\<lambda>x. the (walk (f x))) ` T \<subseteq> T" using walk_total by force
  moreover have "finite T" using T_subset finite_S by (rule finite_subset)
  ultimately show ?thesis by (simp add: bij_betw_def endo_inj_surj)
qed

end

end
