(* ===== verification/Code_Allocator.thy ===== *)
theory Code_Allocator
  imports Short_Code Cycle_Walking
begin

text \<open>
  \<open>src/src/domain/code-allocator.ts\<close>, collision-free short codes: the reference Base62 encoder,
  the keyed Feistel permutation with cycle walking (\<open>CodeScrambler\<close>), and the block allocator
  (\<open>BlockCodeAllocator\<close>).  A JavaScript \<open>number\<close> that holds a half is an \<open>int\<close>; the bitwise
  operators work on its 32-bit value.  A loop that might not end has an \<open>option\<close> result, and
  the theorems show that it ends.
\<close>

section \<open>Errors and constants\<close>

datatype alloc_error =
    NegativeValue | DoesNotFit | EmptySecret | OutsideCodeSpace | BufferRange
  | InvalidIdBlock | CodeSpaceExhausted | SequenceMissing | BigIntSyntax

definition ALLOCATED_CODE_LENGTH :: nat where "ALLOCATED_CODE_LENGTH = 9"
definition ALLOCATED_CODE_SPACE :: int where "ALLOCATED_CODE_SPACE = 62 ^ ALLOCATED_CODE_LENGTH"
definition HALF_BITS :: nat where "HALF_BITS = 27"
definition HALF_SIZE :: int where "HALF_SIZE = 2 ^ HALF_BITS"
definition HALF_MASK :: int where "HALF_MASK = HALF_SIZE - 1"
definition FEISTEL_ROUNDS :: nat where "FEISTEL_ROUNDS = 8"
definition SPACE_HIGH :: int where "SPACE_HIGH = ALLOCATED_CODE_SPACE div HALF_SIZE"
definition SPACE_LOW :: int where "SPACE_LOW = ALLOCATED_CODE_SPACE mod HALF_SIZE"

lemmas allocator_consts =
  ALLOCATED_CODE_LENGTH_def ALLOCATED_CODE_SPACE_def HALF_BITS_def HALF_SIZE_def HALF_MASK_def
  FEISTEL_ROUNDS_def SPACE_HIGH_def SPACE_LOW_def

lemma allocator_values:
  "ALLOCATED_CODE_SPACE = 13537086546263552" "HALF_SIZE = 134217728" "HALF_MASK = 134217727"
  "SPACE_HIGH = 100859154" "SPACE_LOW = 48381440"
  by (simp_all add: allocator_consts)

section \<open>The reference Base62 encoder\<close>

fun base62_loop :: "nat \<Rightarrow> int \<Rightarrow> string \<Rightarrow> int \<times> string" where
  "base62_loop 0 remaining characters = (remaining, characters)"
| "base62_loop (Suc index) remaining characters =
     base62_loop index (remaining div 62) (ALPHABET ! nat (remaining mod 62) # characters)"

definition encodeBase62Fixed :: "int \<Rightarrow> nat \<Rightarrow> alloc_error + string" where
  "encodeBase62Fixed value len =
     (if value < 0 then Inl NegativeValue
      else case base62_loop len value [] of (remaining, characters) \<Rightarrow>
             if remaining \<noteq> 0 then Inl DoesNotFit else Inr characters)"

section \<open>The code scrambler\<close>

type_synonym halves = "int \<times> int"

definition insideCodeSpace :: "int \<Rightarrow> int \<Rightarrow> bool" where
  "insideCodeSpace high low \<longleftrightarrow> high < SPACE_HIGH \<or> (high = SPACE_HIGH \<and> low < SPACE_LOW)"

text \<open>\<open>Buffer.readUInt32BE\<close>: four bytes, most significant first; reading past the end throws.\<close>

definition readUInt32BE :: "byte list \<Rightarrow> nat \<Rightarrow> alloc_error + u32" where
  "readUInt32BE buf offset =
     (if offset + 4 \<le> length buf
      then Inr (of_nat (foldl (\<lambda>acc b. acc * 256 + unat b) 0 (take 4 (drop offset buf))))
      else Inl BufferRange)"

fun read_words :: "byte list \<Rightarrow> nat list \<Rightarrow> alloc_error + u32 list" where
  "read_words buf [] = Inr []"
| "read_words buf (index # is) =
     (case readUInt32BE buf (index * 4) of
        Inl e \<Rightarrow> Inl e
      | Inr w \<Rightarrow> (case read_words buf is of Inl e \<Rightarrow> Inl e | Inr ws \<Rightarrow> Inr (w # ws)))"

text \<open>
  The constructor.  \<open>hmac secret text\<close> is Node's \<open>createHmac("sha256", secret).update(text).digest()\<close>;
  the result is the array \<open>roundKeys\<close>.
\<close>

definition CodeScrambler :: "(string \<Rightarrow> string \<Rightarrow> byte list) \<Rightarrow> string \<Rightarrow> alloc_error + u32 list" where
  "CodeScrambler hmac secret =
     (if length secret = 0 then Inl EmptySecret
      else let material = hmac secret ''wraplink-feistel-keys-0'' @
                          hmac secret ''wraplink-feistel-keys-1''
           in read_words material [0 ..< FEISTEL_ROUNDS * 2])"

text \<open>Reading past the end of \<open>roundKeys\<close> gives \<open>undefined\<close>, which a bitwise operator takes as 0.\<close>

definition key_at :: "u32 list \<Rightarrow> nat \<Rightarrow> u32" where
  "key_at roundKeys i = (if i < length roundKeys then roundKeys ! i else 0)"

definition round_mix :: "int \<Rightarrow> u32 \<Rightarrow> u32 \<Rightarrow> int" where
  "round_mix half keyA keyB =
     (let hash = word_of_int half XOR keyA;
          hash = (hash XOR drop_bit 16 hash) * 0x85ebca6b;
          hash = (hash XOR drop_bit 13 hash) * 0xc2b2ae35;
          hash = hash XOR drop_bit 16 hash;
          hash = (hash XOR keyB) * 0x9e3779b1
      in uint ((hash XOR drop_bit 15 hash) AND word_of_int HALF_MASK))"

definition feistel_step :: "u32 list \<Rightarrow> nat \<Rightarrow> halves \<Rightarrow> halves" where
  "feistel_step roundKeys r = (\<lambda>(left, right).
     let mixed = uint ((word_of_int left XOR
                        word_of_int (round_mix right (key_at roundKeys (r * 2))
                                                (key_at roundKeys (r * 2 + 1))))
                       AND (word_of_int HALF_MASK :: u32))
     in (right, mixed))"

definition feistel :: "u32 list \<Rightarrow> halves \<Rightarrow> halves" where
  "feistel roundKeys hl = fold (feistel_step roundKeys) [0 ..< FEISTEL_ROUNDS] hl"

text \<open>The \<open>while\<close> loop of \<open>permuteHalves\<close>; \<open>None\<close> would be a walk that never comes back.\<close>

partial_function (option) walk_halves :: "u32 list \<Rightarrow> halves \<Rightarrow> halves option" where
  "walk_halves roundKeys hl =
     (if insideCodeSpace (fst hl) (snd hl) then Some hl
      else walk_halves roundKeys (feistel roundKeys hl))"

declare walk_halves.simps [code]

definition permuteHalves :: "u32 list \<Rightarrow> int \<Rightarrow> int \<Rightarrow> halves option" where
  "permuteHalves roundKeys high low = walk_halves roundKeys (feistel roundKeys (high, low))"

text \<open>\<open>permute\<close> and \<open>encode\<close>: \<open>None\<close> if the walk does not end, \<open>Some (Inl e)\<close> if the call throws.\<close>

definition permute :: "u32 list \<Rightarrow> int \<Rightarrow> (alloc_error + int) option" where
  "permute roundKeys i =
     (if i < 0 \<or> ALLOCATED_CODE_SPACE \<le> i then Some (Inl OutsideCodeSpace)
      else map_option (\<lambda>(high, low). Inr (high * HALF_SIZE + low))
             (permuteHalves roundKeys (i div HALF_SIZE) (i mod HALF_SIZE)))"

fun encode_loop :: "nat \<Rightarrow> int \<Rightarrow> int \<Rightarrow> string \<Rightarrow> string" where
  "encode_loop 0 high low characters = characters"
| "encode_loop (Suc index) high low characters =
     (let highRemainder = high mod 62;
          combined = highRemainder * HALF_SIZE + low
      in encode_loop index (high div 62) (combined div 62) (ALPHABET ! nat (combined mod 62) # characters))"

definition encode :: "u32 list \<Rightarrow> int \<Rightarrow> (alloc_error + string) option" where
  "encode roundKeys i =
     (if i < 0 \<or> ALLOCATED_CODE_SPACE \<le> i then Some (Inl OutsideCodeSpace)
      else map_option (\<lambda>(high, low). Inr (encode_loop ALLOCATED_CODE_LENGTH high low []))
             (permuteHalves roundKeys (i div HALF_SIZE) (i mod HALF_SIZE)))"

section \<open>The Feistel network permutes the pairs of halves\<close>

definition half_pairs :: "halves set" where
  "half_pairs = {0 ..< HALF_SIZE} \<times> {0 ..< HALF_SIZE}"

definition inside_pairs :: "halves set" where
  "inside_pairs = {hl \<in> half_pairs. insideCodeSpace (fst hl) (snd hl)}"

lemma finite_half_pairs [simp]: "finite half_pairs"
  by (simp add: half_pairs_def)

lemma HALF_MASK_word: "(word_of_int HALF_MASK :: u32) = mask HALF_BITS"
  by (simp add: allocator_consts mask_eq_exp_minus_1)

lemma uint_masked: "uint ((w :: u32) AND word_of_int HALF_MASK) = take_bit HALF_BITS (uint w)"
  by (simp add: HALF_MASK_word flip: take_bit_eq_mask unsigned_take_bit_eq)

lemma masked_half [simp]: "uint ((w :: u32) AND word_of_int HALF_MASK) \<in> {0 ..< HALF_SIZE}"
  by (simp add: uint_masked HALF_SIZE_def)

text \<open>Masking and xoring the same value twice gives back a half: a round can be undone.\<close>

lemma mask_xor_cancel:
  assumes "l \<in> {0 ..< HALF_SIZE}"
  shows "uint ((word_of_int (uint ((word_of_int l XOR F) AND word_of_int HALF_MASK)) XOR F)
               AND (word_of_int HALF_MASK :: u32)) = l"
proof -
  let ?w = "word_of_int l :: u32"
  have "((?w XOR F) AND mask HALF_BITS XOR F) AND mask HALF_BITS = ?w AND mask HALF_BITS"
    by (rule bit_word_eqI) (auto simp: bit_simps)
  then have "uint (((?w XOR F) AND mask HALF_BITS XOR F) AND mask HALF_BITS) =
             take_bit HALF_BITS (uint ?w)"
    by (simp add: unsigned_take_bit_eq flip: take_bit_eq_mask)
  also have "uint ?w = l"
    using assms by (simp add: unsigned_of_int allocator_values take_bit_int_eq_self)
  also have "take_bit HALF_BITS l = l"
    using assms by (simp add: HALF_SIZE_def take_bit_int_eq_self)
  finally show ?thesis by (simp add: HALF_MASK_word)
qed

lemma feistel_step_mem: "hl \<in> half_pairs \<Longrightarrow> feistel_step keys r hl \<in> half_pairs"
  by (auto simp: feistel_step_def half_pairs_def uint_masked HALF_SIZE_def)

lemma feistel_step_inj: "inj_on (feistel_step keys r) half_pairs"
proof (rule inj_onI)
  fix x y :: halves
  obtain l1 r1 l2 r2 where xy: "x = (l1, r1)" "y = (l2, r2)" by (cases x, cases y)
  assume mem: "x \<in> half_pairs" "y \<in> half_pairs"
    and eq: "feistel_step keys r x = feistel_step keys r y"
  define F :: u32 where
    "F = word_of_int (round_mix r1 (key_at keys (r * 2)) (key_at keys (r * 2 + 1)))"
  from eq have r: "r1 = r2"
    and m: "uint ((word_of_int l1 XOR F) AND word_of_int HALF_MASK) =
            uint ((word_of_int l2 XOR F) AND word_of_int HALF_MASK)"
    by (auto simp: xy feistel_step_def F_def Let_def)
  from mem have "l1 \<in> {0 ..< HALF_SIZE}" "l2 \<in> {0 ..< HALF_SIZE}"
    by (auto simp: xy half_pairs_def)
  then have "l1 = l2" using mask_xor_cancel [of l1 F] mask_xor_cancel [of l2 F] m by simp
  with r show "x = y" by (simp add: xy)
qed

lemma feistel_step_bij: "bij_betw (feistel_step keys r) half_pairs half_pairs"
  unfolding bij_betw_def
proof (intro conjI)
  show "inj_on (feistel_step keys r) half_pairs" by (rule feistel_step_inj)
  then show "feistel_step keys r ` half_pairs = half_pairs"
    by (intro endo_inj_surj finite_half_pairs) (auto intro: feistel_step_mem)
qed

lemma fold_bij:
  "(\<And>r. r \<in> set rs \<Longrightarrow> bij_betw (g r) S S) \<Longrightarrow> bij_betw (fold g rs) S S"
proof (induction rs)
  case Nil
  then show ?case by (simp add: bij_betw_def)
next
  case (Cons r rs)
  then have "bij_betw (fold g rs \<circ> g r) S S" by (auto intro: bij_betw_trans)
  then show ?case by (simp add: comp_def)
qed

lemma feistel_bij: "bij_betw (feistel keys) half_pairs half_pairs"
proof -
  have "feistel keys = fold (feistel_step keys) [0 ..< FEISTEL_ROUNDS]"
    by (rule ext) (simp add: feistel_def)
  then show ?thesis by (auto intro: fold_bij feistel_step_bij)
qed

text \<open>The scrambler's loop is cycle walking with the Feistel network, for every array of round keys.\<close>

interpretation scramble: cycle_walk "feistel keys" half_pairs inside_pairs "walk_halves keys"
  for keys
proof unfold_locales
  show "bij_betw (feistel keys) half_pairs half_pairs" by (rule feistel_bij)
  show "finite half_pairs" by simp
  show "inside_pairs \<subseteq> half_pairs" by (auto simp: inside_pairs_def)
  show "walk_halves keys x =
          (if x \<in> inside_pairs then Some x else walk_halves keys (feistel keys x))"
    if "x \<in> half_pairs" for x
    using that by (subst walk_halves.simps) (simp add: inside_pairs_def)
qed

section \<open>Halves and code numbers\<close>

definition split_id :: "int \<Rightarrow> halves" where
  "split_id i = (i div HALF_SIZE, i mod HALF_SIZE)"

definition join_id :: "halves \<Rightarrow> int" where
  "join_id hl = fst hl * HALF_SIZE + snd hl"

lemma join_split [simp]: "join_id (split_id i) = i"
  by (simp add: join_id_def split_id_def)

lemma split_join: "hl \<in> half_pairs \<Longrightarrow> split_id (join_id hl) = hl"
  by (auto simp: join_id_def split_id_def half_pairs_def allocator_values)

lemma insideCodeSpace_iff:
  "hl \<in> half_pairs \<Longrightarrow> insideCodeSpace (fst hl) (snd hl) \<longleftrightarrow> join_id hl < ALLOCATED_CODE_SPACE"
  by (auto simp: insideCodeSpace_def join_id_def half_pairs_def allocator_values)

lemma split_id_mem:
  "0 \<le> i \<Longrightarrow> i < ALLOCATED_CODE_SPACE \<Longrightarrow> split_id i \<in> inside_pairs"
proof -
  assume i: "0 \<le> i" "i < ALLOCATED_CODE_SPACE"
  then have "split_id i \<in> half_pairs" by (auto simp: half_pairs_def split_id_def allocator_values)
  with i(2) show ?thesis by (simp add: inside_pairs_def insideCodeSpace_iff)
qed

lemma join_id_mem: "hl \<in> inside_pairs \<Longrightarrow> join_id hl \<in> {0 ..< ALLOCATED_CODE_SPACE}"
proof -
  assume "hl \<in> inside_pairs"
  then have "hl \<in> half_pairs" "join_id hl < ALLOCATED_CODE_SPACE"
    by (auto simp: inside_pairs_def insideCodeSpace_iff)
  then show ?thesis by (auto simp: half_pairs_def join_id_def HALF_SIZE_def)
qed

lemma join_id_bij: "bij_betw join_id inside_pairs {0 ..< ALLOCATED_CODE_SPACE}"
proof (rule bij_betw_byWitness [where f' = split_id])
  show "\<forall>a \<in> inside_pairs. split_id (join_id a) = a"
    by (simp add: inside_pairs_def split_join)
  show "\<forall>a' \<in> {0 ..< ALLOCATED_CODE_SPACE}. join_id (split_id a') = a'" by simp
  show "join_id ` inside_pairs \<subseteq> {0 ..< ALLOCATED_CODE_SPACE}"
    using join_id_mem by blast
  show "split_id ` {0 ..< ALLOCATED_CODE_SPACE} \<subseteq> inside_pairs"
    by (auto intro: split_id_mem)
qed


section \<open>The scrambler is a permutation of the code space\<close>

definition permuted :: "u32 list \<Rightarrow> int \<Rightarrow> int" where
  "permuted keys i = join_id (the (walk_halves keys (feistel keys (split_id i))))"

lemma permuteHalves_total:
  assumes "0 \<le> i" "i < ALLOCATED_CODE_SPACE"
  obtains hl where "permuteHalves keys (i div HALF_SIZE) (i mod HALF_SIZE) = Some hl"
    and "hl \<in> inside_pairs" and "join_id hl = permuted keys i"
proof -
  from scramble.walk_total [OF split_id_mem [OF assms], of keys]
  obtain hl where "hl \<in> inside_pairs" "walk_halves keys (feistel keys (split_id i)) = Some hl"
    by blast
  then show ?thesis using that [of hl] by (simp add: permuteHalves_def permuted_def split_id_def)
qed

lemma permute_eq:
  assumes "0 \<le> i" "i < ALLOCATED_CODE_SPACE"
  shows "permute keys i = Some (Inr (permuted keys i))"
proof -
  from assms obtain hl where
    "permuteHalves keys (i div HALF_SIZE) (i mod HALF_SIZE) = Some hl" "join_id hl = permuted keys i"
    by (rule permuteHalves_total)
  with assms show ?thesis by (simp add: permute_def join_id_def case_prod_beta)
qed

lemma permuted_bij: "bij_betw (permuted keys) {0 ..< ALLOCATED_CODE_SPACE} {0 ..< ALLOCATED_CODE_SPACE}"
proof -
  have split_bij: "bij_betw split_id {0 ..< ALLOCATED_CODE_SPACE} inside_pairs"
  proof (rule bij_betw_byWitness [where f' = join_id])
    show "\<forall>a' \<in> inside_pairs. split_id (join_id a') = a'"
      by (simp add: inside_pairs_def split_join)
    show "join_id ` inside_pairs \<subseteq> {0 ..< ALLOCATED_CODE_SPACE}" using join_id_mem by blast
  qed (auto intro: split_id_mem)
  have "bij_betw (join_id \<circ> ((\<lambda>x. the (walk_halves keys (feistel keys x))) \<circ> split_id))
          {0 ..< ALLOCATED_CODE_SPACE} {0 ..< ALLOCATED_CODE_SPACE}"
    using split_bij scramble.walk_bij join_id_bij by (blast intro: bij_betw_trans)
  then show ?thesis by (simp add: permuted_def comp_def cong: bij_betw_cong)
qed

lemma permuted_mem:
  "0 \<le> i \<Longrightarrow> i < ALLOCATED_CODE_SPACE \<Longrightarrow> 0 \<le> permuted keys i \<and> permuted keys i < ALLOCATED_CODE_SPACE"
  using bij_betw_apply [OF permuted_bij, of i keys] by simp

section \<open>The two encoders agree\<close>

fun digits62 :: "nat \<Rightarrow> int \<Rightarrow> string" where
  "digits62 0 v = []"
| "digits62 (Suc n) v = digits62 n (v div 62) @ [ALPHABET ! nat (v mod 62)]"

lemma length_digits62 [simp]: "length (digits62 n v) = n"
  by (induction n v rule: digits62.induct) auto

lemma digits62_alphabet: "set (digits62 n v) \<subseteq> set ALPHABET"
  by (induction n v rule: digits62.induct) auto

lemma base62_loop_eq: "base62_loop n v cs = (v div 62 ^ n, digits62 n v @ cs)"
  by (induction n v cs rule: base62_loop.induct) (simp_all add: zdiv_zmult2_eq)

lemma two_part_digit:
  fixes high low :: int
  shows "((high mod 62) * HALF_SIZE + low) mod 62 = (high * HALF_SIZE + low) mod 62"
    and "(high div 62) * HALF_SIZE + ((high mod 62) * HALF_SIZE + low) div 62 =
         (high * HALF_SIZE + low) div 62"
proof -
  have eq: "high * HALF_SIZE + low = ((high mod 62) * HALF_SIZE + low) + 62 * ((high div 62) * HALF_SIZE)"
    by (subst (1) div_mult_mod_eq [of high 62, symmetric]) (simp only: algebra_simps)
  show "((high mod 62) * HALF_SIZE + low) mod 62 = (high * HALF_SIZE + low) mod 62"
    by (subst eq) simp
  show "(high div 62) * HALF_SIZE + ((high mod 62) * HALF_SIZE + low) div 62 =
        (high * HALF_SIZE + low) div 62"
    by (subst eq) simp
qed

lemma encode_loop_eq: "encode_loop n high low cs = digits62 n (high * HALF_SIZE + low) @ cs"
  by (induction n high low cs rule: encode_loop.induct) (simp_all add: Let_def two_part_digit)

lemma digits62_inj:
  "0 \<le> v \<Longrightarrow> v < 62 ^ n \<Longrightarrow> 0 \<le> w \<Longrightarrow> w < 62 ^ n \<Longrightarrow> digits62 n v = digits62 n w \<Longrightarrow> v = w"
proof (induction n arbitrary: v w)
  case (Suc n)
  then have "ALPHABET ! nat (v mod 62) = ALPHABET ! nat (w mod 62)"
    and d: "digits62 n (v div 62) = digits62 n (w div 62)" by auto
  then have "nat (v mod 62) = nat (w mod 62)" by (subst (asm) ALPHABET_nth_eq) auto
  then have m: "v mod 62 = w mod 62" by simp
  have "v div 62 = w div 62"
    by (rule Suc.IH) (use Suc.prems d in \<open>auto simp: div_less_iff_less_mult\<close>)
  with m show ?case by (metis div_mult_mod_eq)
qed simp


lemma encodeBase62Fixed_eq:
  "encodeBase62Fixed v n =
     (if v < 0 then Inl NegativeValue else if v < 62 ^ n then Inr (digits62 n v) else Inl DoesNotFit)"
proof -
  have "v div 62 ^ n = 0 \<longleftrightarrow> v < 62 ^ n" if "0 \<le> v"
    using that by (auto simp: zdiv_eq_0_iff)
  then show ?thesis by (simp add: encodeBase62Fixed_def base62_loop_eq)
qed

lemma encode_eq:
  "0 \<le> i \<Longrightarrow> i < ALLOCATED_CODE_SPACE \<Longrightarrow>
     encode keys i = Some (Inr (digits62 ALLOCATED_CODE_LENGTH (permuted keys i)))"
  by (rule permuteHalves_total [of i keys])
     (simp_all add: encode_def encode_loop_eq join_id_def case_prod_beta)

lemma encode_Inr:
  "encode keys i = Some (Inr c) \<longleftrightarrow>
     0 \<le> i \<and> i < ALLOCATED_CODE_SPACE \<and> c = digits62 ALLOCATED_CODE_LENGTH (permuted keys i)"
  using encode_eq [of i keys] by (auto simp: encode_def)

lemma encode_inj:
  assumes "encode keys i = Some (Inr c)" "encode keys j = Some (Inr c)"
  shows "i = j"
proof -
  from assms have ij: "0 \<le> i" "i < ALLOCATED_CODE_SPACE" "0 \<le> j" "j < ALLOCATED_CODE_SPACE"
    and d: "digits62 ALLOCATED_CODE_LENGTH (permuted keys i) =
            digits62 ALLOCATED_CODE_LENGTH (permuted keys j)" by (auto simp: encode_Inr)
  then have "permuted keys i = permuted keys j"
    using permuted_mem by (intro digits62_inj [OF _ _ _ _ d]) (auto simp flip: ALLOCATED_CODE_SPACE_def)
  then show ?thesis
    using ij permuted_bij [of keys] by (auto simp: bij_betw_def dest: inj_onD)
qed

text \<open>The intermediate numbers of \<open>encode\<close> are safe integers, so binary64 computes them exactly.\<close>

lemma encode_loop_safe_integers:
  assumes "high \<in> {0 ..< HALF_SIZE}" "low \<in> {0 ..< HALF_SIZE}"
  shows "isSafeInteger ((high mod 62) * HALF_SIZE + low)"
    and "high div 62 \<in> {0 ..< HALF_SIZE}"
    and "((high mod 62) * HALF_SIZE + low) div 62 \<in> {0 ..< HALF_SIZE}"
proof -
  have m: "0 \<le> high mod 62" "high mod 62 \<le> 61" by auto
  with assms have c: "0 \<le> (high mod 62) * HALF_SIZE + low"
      "(high mod 62) * HALF_SIZE + low < 62 * HALF_SIZE" by (auto simp: allocator_values)
  then show "isSafeInteger ((high mod 62) * HALF_SIZE + low)"
    by (simp add: isSafeInteger_def MAX_SAFE_INTEGER_def allocator_values)
  show "high div 62 \<in> {0 ..< HALF_SIZE}" using assms by (auto simp: allocator_values)
  show "((high mod 62) * HALF_SIZE + low) div 62 \<in> {0 ..< HALF_SIZE}"
    using c by (auto simp: div_less_iff_less_mult)
qed

section \<open>Properties of the scrambler\<close>

text \<open>C7: The scrambler is total and, for every array of round keys, a permutation of the code space
  \<open>[0, 62^9)\<close>; it throws exactly on the identifiers outside it.\<close>

theorem permute_is_permutation:
  "\<exists>\<pi>. bij_betw \<pi> {0 ..< ALLOCATED_CODE_SPACE} {0 ..< ALLOCATED_CODE_SPACE} \<and>
       (\<forall>i. permute keys i =
            Some (if 0 \<le> i \<and> i < ALLOCATED_CODE_SPACE then Inr (\<pi> i) else Inl OutsideCodeSpace))"
  using permuted_bij [of keys] permute_eq [of _ keys]
  by (intro exI [of _ "permuted keys"]) (auto simp: permute_def)

text \<open>C8: The hot-path encoder, which divides the two halves by 62 without big integers, computes what
  the reference encoder computes on the permuted identifier, errors included.\<close>

theorem encode_refines_reference:
  "encode keys i =
     map_option (\<lambda>r. case r of Inl e \<Rightarrow> Inl e | Inr v \<Rightarrow> encodeBase62Fixed v ALLOCATED_CODE_LENGTH)
       (permute keys i)"
proof (cases "0 \<le> i \<and> i < ALLOCATED_CODE_SPACE")
  case True
  with permuted_mem [of i keys] show ?thesis
    by (simp add: encode_eq permute_eq encodeBase62Fixed_eq flip: ALLOCATED_CODE_SPACE_def)
next
  case False
  then show ?thesis by (auto simp: encode_def permute_def)
qed

text \<open>C27: Distinct identifiers never get the same code, and an allocated code never equals a random code
  of the synchronous path: one has nine characters, the other eight.\<close>

theorem allocated_codes_never_collide:
  assumes "encode keys i = Some (Inr c)" "encode keys j = Some (Inr d)" "i \<noteq> j"
    and "generateCode 8 blocks = Some r"
  shows "c \<noteq> d \<and> c \<noteq> r \<and> length c = ALLOCATED_CODE_LENGTH \<and> set c \<subseteq> set ALPHABET"
proof -
  from assms(1,2,3) have "c \<noteq> d" using encode_inj by blast
  moreover have "length c = ALLOCATED_CODE_LENGTH" and "set c \<subseteq> set ALPHABET"
    using assms(1) digits62_alphabet by (auto simp: encode_Inr)
  moreover have "length r = 8" using generateCode_ok [OF assms(4)] by simp
  ultimately show ?thesis by (auto simp: ALLOCATED_CODE_LENGTH_def)
qed

theorem allocated_codes_never_collide_witness:
  "encode (replicate 16 0) 5 = Some (Inr ''LSWMi1TDr'') \<and>
   encode (replicate 16 0) 6 = Some (Inr ''c8MDnLrl6'') \<and>
   generateCode 8 [[1, 2, 3, 4, 5, 6, 7, 8]] = Some ''12345678'' \<and>
   ''LSWMi1TDr'' \<noteq> ''c8MDnLrl6'' \<and> ''LSWMi1TDr'' \<noteq> ''12345678''"
proof -
  have a: "encode (replicate 16 0) 5 = Some (Inr ''LSWMi1TDr'')" by code_simp
  have b: "encode (replicate 16 0) 6 = Some (Inr ''c8MDnLrl6'')" by code_simp
  have c: "generateCode 8 [[1, 2, 3, 4, 5, 6, 7, 8]] = Some ''12345678''" by code_simp
  have "(5 :: int) \<noteq> 6" by simp
  from allocated_codes_never_collide [OF a b this c] a b c show ?thesis by blast
qed

end
