(* ===== verification/Block_Allocator.thy ===== *)
theory Block_Allocator
  imports Code_Allocator
begin

text \<open>
  \<open>BlockCodeAllocator\<close> of \<open>src/src/domain/code-allocator.ts\<close> and its source
  \<open>src/src/store/postgres-id-block-source.ts\<close>.  One process hands out codes from a block of
  identifiers it reserved; callers that find the block used up wait for one shared reservation.
  The step relation \<open>fleet_step\<close> interleaves the allocators of any number of processes, with
  crashes, over one sequence; what the sequence promises (a block it grants has never been
  granted before) is the guard of the rule that grants one.
\<close>

section \<open>Blocks\<close>

record id_block =
  start :: int
  size :: js_number

text \<open>
  \<open>reserveBlock\<close> reads the first row of the reply: the text of \<open>nextval\<close> and the text of
  \<open>increment_by\<close>, the latter \<open>null\<close> when the sequence does not exist.  A text that is no integer
  makes \<open>BigInt\<close> throw, and \<open>Number\<close> gives \<open>NaN\<close>.
\<close>

definition reserveBlock :: "(string \<times> string option) option \<Rightarrow> alloc_error + id_block" where
  "reserveBlock row =
     (case row of
        None \<Rightarrow> Inl SequenceMissing
      | Some (st, None) \<Rightarrow> Inl SequenceMissing
      | Some (st, Some sz) \<Rightarrow>
          (case decimal_value st of
             None \<Rightarrow> Inl BigIntSyntax
           | Some n \<Rightarrow> Inr \<lparr>start = n,
               size = (case decimal_value sz of None \<Rightarrow> NotInt | Some m \<Rightarrow> IntNum m)\<rparr>))"

fun block_ids :: "id_block \<Rightarrow> int set" where
  "block_ids b = (case size b of IntNum n \<Rightarrow> {start b ..< start b + n} | NotInt \<Rightarrow> {})"

section \<open>One allocator\<close>

text \<open>
  \<open>reservation\<close> says that a reservation is in flight; \<open>waiters\<close> are the callers suspended at
  \<open>await this.reservation\<close>, in the order in which they will be resumed.
\<close>

record allocator =
  nxt :: int
  end_of_block :: int
  reservation :: bool
  waiters :: "nat list"

definition init_allocator :: allocator where
  "init_allocator = \<lparr>nxt = 0, end_of_block = 0, reservation = False, waiters = []\<rparr>"

type_synonym code_result = "(alloc_error + string) option"

text \<open>
  One pass of the loop of \<open>nextCode\<close> for caller \<open>c\<close>: wait if the block is used up (starting a
  reservation when none is in flight), otherwise take the next identifier.
\<close>

definition nextCode :: "u32 list \<Rightarrow> nat \<Rightarrow> allocator \<Rightarrow> allocator \<times> (nat \<times> code_result) list" where
  "nextCode keys c a =
     (if end_of_block a \<le> nxt a
      then (a\<lparr>reservation := True, waiters := waiters a @ [c]\<rparr>, [])
      else (a\<lparr>nxt := nxt a + 1\<rparr>, [(c, encode keys (nxt a))]))"

definition remainingInBlock :: "allocator \<Rightarrow> int" where
  "remainingInBlock a = end_of_block a - nxt a"

definition reserve :: "id_block \<Rightarrow> allocator \<Rightarrow> alloc_error + allocator" where
  "reserve b a =
     (if start b < 0 \<or> \<not> positiveSafeInteger (size b) then Inl InvalidIdBlock
      else let e = (case size b of IntNum n \<Rightarrow> start b + n | NotInt \<Rightarrow> start b)
           in if ALLOCATED_CODE_SPACE < e then Inl CodeSpaceExhausted
              else Inr (a\<lparr>nxt := start b, end_of_block := e\<rparr>))"

text \<open>Resumed callers run one after the other and test the loop condition again.\<close>

fun resume :: "u32 list \<Rightarrow> nat list \<Rightarrow> allocator \<Rightarrow> allocator \<times> (nat \<times> code_result) list" where
  "resume keys [] a = (a, [])"
| "resume keys (c # cs) a =
     (let (a', rs) = nextCode keys c a; (a'', rs') = resume keys cs a' in (a'', rs @ rs'))"

text \<open>
  The reservation settles: \<open>finally\<close> clears it, a rejection reaches every waiting caller, a block
  resumes them.
\<close>

definition settle ::
  "u32 list \<Rightarrow> alloc_error + id_block \<Rightarrow> allocator \<Rightarrow> allocator \<times> (nat \<times> code_result) list" where
  "settle keys outcome a =
     (let idle = a\<lparr>reservation := False, waiters := []\<rparr>
      in case (case outcome of Inl e \<Rightarrow> Inl e | Inr b \<Rightarrow> reserve b idle) of
           Inl e \<Rightarrow> (idle, map (\<lambda>c. (c, Some (Inl e))) (waiters a))
         | Inr a' \<Rightarrow> resume keys (waiters a) a')"

section \<open>The codes one allocator hands out\<close>

definition codes_of :: "(nat \<times> code_result) list \<Rightarrow> string list" where
  "codes_of rs = List.map_filter (\<lambda>(c, r). case r of Some (Inr code) \<Rightarrow> Some code | _ \<Rightarrow> None) rs"

lemma codes_of_simps [simp]:
  "codes_of [] = []"
  "codes_of (rs @ rs') = codes_of rs @ codes_of rs'"
  "codes_of ((c, Some (Inr code)) # rs) = code # codes_of rs"
  "codes_of ((c, Some (Inl e)) # rs) = codes_of rs"
  by (simp_all add: codes_of_def List.map_filter_def)

lemma codes_of_failed [simp]: "codes_of (map (\<lambda>c. (c, Some (Inl e))) cs) = []"
  by (induction cs) simp_all

abbreviation code_of :: "u32 list \<Rightarrow> int \<Rightarrow> string" where
  "code_of keys i \<equiv> digits62 ALLOCATED_CODE_LENGTH (permuted keys i)"

definition available :: "allocator \<Rightarrow> int set" where
  "available a = {nxt a ..< end_of_block a}"

definition allocator_inv :: "allocator \<Rightarrow> bool" where
  "allocator_inv a \<longleftrightarrow> 0 \<le> nxt a \<and> end_of_block a \<le> ALLOCATED_CODE_SPACE"

text \<open>Every operation consumes some identifiers from the front of what is available.\<close>

definition consumed :: "allocator \<Rightarrow> allocator \<Rightarrow> int list" where
  "consumed a a' = [nxt a .. nxt a' - 1]"

lemma consumed_append:
  "nxt a \<le> nxt b \<Longrightarrow> nxt b \<le> nxt c \<Longrightarrow> consumed a c = consumed a b @ consumed b c"
  by (cases "nxt b = nxt c") (simp_all add: consumed_def upto_split1)

lemma set_consumed [simp]: "set (consumed a b) = {nxt a ..< nxt b}"
  by (auto simp: consumed_def)

lemma nextCode_consumes:
  assumes "nextCode keys c a = (a', rs)" "allocator_inv a"
  shows "allocator_inv a'" "codes_of rs = map (code_of keys) (consumed a a')"
    and "nxt a \<le> nxt a'" "nxt a' \<le> max (nxt a) (end_of_block a)" "end_of_block a' = end_of_block a"
  using assms
  by (auto simp: nextCode_def allocator_inv_def consumed_def encode_eq split: if_splits)

lemma resume_consumes:
  assumes "resume keys cs a = (a', rs)" "allocator_inv a"
  shows "allocator_inv a' \<and> codes_of rs = map (code_of keys) (consumed a a') \<and>
         nxt a \<le> nxt a' \<and> nxt a' \<le> max (nxt a) (end_of_block a) \<and> end_of_block a' = end_of_block a"
  using assms
proof (induction keys cs a arbitrary: a' rs rule: resume.induct)
  case (1 keys a)
  then show ?case by (auto simp: consumed_def)
next
  case (2 keys c cs a)
  obtain a1 rs1 where 1: "nextCode keys c a = (a1, rs1)" by (cases "nextCode keys c a")
  obtain a2 rs2 where 2: "resume keys cs a1 = (a2, rs2)" by (cases "resume keys cs a1")
  note n = nextCode_consumes [OF 1 "2.prems"(2)]
  have IH: "allocator_inv a2 \<and> codes_of rs2 = map (code_of keys) (consumed a1 a2) \<and>
         nxt a1 \<le> nxt a2 \<and> nxt a2 \<le> max (nxt a1) (end_of_block a1) \<and>
         end_of_block a2 = end_of_block a1"
    by (rule "2.IH" [OF 1 [symmetric] refl 2 n(1)])
  have "(a', rs) = (a2, rs1 @ rs2)" using "2.prems"(1) by (simp add: 1 2)
  then have "a' = a2" "rs = rs1 @ rs2" by simp_all
  moreover have "consumed a a2 = consumed a a1 @ consumed a1 a2"
    by (rule consumed_append) (use n(3) IH in blast)+
  moreover have "nxt a1 \<le> nxt a2" "nxt a2 \<le> max (nxt a1) (end_of_block a1)"
    using IH by blast+
  then have "nxt a2 \<le> max (nxt a) (end_of_block a)" "nxt a \<le> nxt a2" using n(3-5) by simp_all
  ultimately show ?case using n(2,5) IH by simp
qed


lemma reserve_Inr:
  assumes "reserve b a = Inr a'"
  shows "allocator_inv a'" "available a' = block_ids b" "nxt a' \<le> end_of_block a'"
  using assms
  by (cases "size b"; auto simp: reserve_def allocator_inv_def available_def Let_def split: if_splits)+

section \<open>The fleet: many processes, one sequence\<close>

text \<open>\<open>granted\<close> are the identifiers of all blocks granted so far, \<open>codes\<close> the codes handed out.\<close>

record fleet =
  procs :: "nat \<Rightarrow> allocator"
  granted :: "int set"
  codes :: "string list"

definition init_fleet :: fleet where
  "init_fleet = \<lparr>procs = (\<lambda>_. init_allocator), granted = {}, codes = []\<rparr>"

definition run_proc ::
  "nat \<Rightarrow> (allocator \<Rightarrow> allocator \<times> (nat \<times> code_result) list) \<Rightarrow> fleet \<Rightarrow> fleet" where
  "run_proc p f s =
     (let (a, rs) = f (procs s p)
      in s\<lparr>procs := (procs s)(p := a), codes := codes s @ codes_of rs\<rparr>)"

inductive fleet_step :: "u32 list \<Rightarrow> fleet \<Rightarrow> fleet \<Rightarrow> bool" for keys :: "u32 list" where
  call: "fleet_step keys s (run_proc p (nextCode keys c) s)"
| grant: "reservation (procs s p) \<Longrightarrow> block_ids b \<inter> granted s = {} \<Longrightarrow>
     fleet_step keys s (run_proc p (settle keys (Inr b)) (s\<lparr>granted := granted s \<union> block_ids b\<rparr>))"
| reject: "reservation (procs s p) \<Longrightarrow> fleet_step keys s (run_proc p (settle keys (Inl e)) s)"
| restart: "fleet_step keys s (s\<lparr>procs := (procs s)(p := init_allocator)\<rparr>)"

inductive fleet_reachable :: "u32 list \<Rightarrow> fleet \<Rightarrow> bool" for keys :: "u32 list" where
  init: "fleet_reachable keys init_fleet"
| step: "fleet_reachable keys s \<Longrightarrow> fleet_step keys s t \<Longrightarrow> fleet_reachable keys t"

text \<open>
  The invariant: the codes handed out are those of distinct identifiers of granted blocks, and what
  is still available to the processes is granted, disjoint, and not yet handed out.
\<close>

definition fleet_inv :: "u32 list \<Rightarrow> int list \<Rightarrow> fleet \<Rightarrow> bool" where
  "fleet_inv keys ids s \<longleftrightarrow>
     codes s = map (code_of keys) ids \<and> distinct ids \<and>
     set ids \<subseteq> granted s \<inter> {0 ..< ALLOCATED_CODE_SPACE} \<and>
     (\<forall>p. allocator_inv (procs s p) \<and> available (procs s p) \<subseteq> granted s - set ids) \<and>
     (\<forall>p q. p \<noteq> q \<longrightarrow> available (procs s p) \<inter> available (procs s q) = {})"

lemma available_init [simp]: "available init_allocator = {}" "allocator_inv init_allocator"
  by (simp_all add: available_def init_allocator_def allocator_inv_def ALLOCATED_CODE_SPACE_def)

lemma fleet_inv_init: "fleet_inv keys [] init_fleet"
  by (simp add: fleet_inv_def init_fleet_def)

text \<open>A process that consumes identifiers from the front of what is available keeps the invariant.\<close>

lemma fleet_inv_consume:
  assumes inv: "fleet_inv keys ids s" and f: "f (procs s p) = (a', rs)"
    and c: "codes_of rs = map (code_of keys) (consumed a a')"
    and a: "nxt a \<le> nxt a'" "nxt a' \<le> max (nxt a) (end_of_block a)" "end_of_block a' = end_of_block a"
    and a_inv: "allocator_inv a" "allocator_inv a'"
    and av: "available a \<subseteq> granted s - set ids"
    and disj: "\<And>q. q \<noteq> p \<Longrightarrow> available a \<inter> available (procs s q) = {}"
  shows "\<exists>ids'. fleet_inv keys ids' (run_proc p f s)"
proof (intro exI)
  have sub: "set (consumed a a') \<subseteq> available a" using a by (auto simp: available_def max_def split: if_splits)
  have sub': "available a' \<subseteq> available a" using a by (auto simp: available_def)
  have disj': "available a' \<inter> set (consumed a a') = {}" by (auto simp: available_def)
  have space: "available a \<subseteq> {0 ..< ALLOCATED_CODE_SPACE}"
    using a_inv by (auto simp: available_def allocator_inv_def)
  have d: "distinct (consumed a a')" by (simp add: consumed_def)
  let ?s = "run_proc p f s" and ?ids = "ids @ consumed a a'"
  have st: "procs ?s = (procs s)(p := a')" "granted ?s = granted s" "codes ?s = codes s @ codes_of rs"
    using f by (simp_all add: run_proc_def)
  show "fleet_inv keys ?ids ?s"
    unfolding fleet_inv_def
  proof (intro conjI allI impI)
    show "codes ?s = map (code_of keys) ?ids" using inv c st by (simp add: fleet_inv_def)
    show "distinct ?ids" using inv d sub av by (auto simp: fleet_inv_def simp del: set_consumed)
    show "set ?ids \<subseteq> granted ?s \<inter> {0 ..< ALLOCATED_CODE_SPACE}"
      using inv sub av space st by (auto simp: fleet_inv_def simp del: set_consumed)
    show "allocator_inv (procs ?s q)" for q
      using inv a_inv(2) st by (simp add: fleet_inv_def)
    show "available (procs ?s q) \<subseteq> granted ?s - set ?ids" for q
    proof (cases "q = p")
      case True
      then show ?thesis using sub' av disj' st by (auto simp del: set_consumed)
    next
      case False
      then have "available (procs s q) \<subseteq> granted s - set ids" using inv by (simp add: fleet_inv_def)
      with False disj [of q] sub st show ?thesis by (auto simp del: set_consumed)
    qed
    show "available (procs ?s q) \<inter> available (procs ?s r) = {}" if "q \<noteq> r" for q r
      using that inv disj [of q] disj [of r] sub' st
      by (cases "q = p"; cases "r = p") (auto simp: fleet_inv_def)
  qed
qed

lemma fleet_inv_idle:
  assumes "fleet_inv keys ids s" "f (procs s p) = (a, rs)" "codes_of rs = []"
    and "nxt a = nxt (procs s p)" "end_of_block a = end_of_block (procs s p)"
  shows "fleet_inv keys ids (run_proc p f s)"
proof -
  have "available a = available (procs s p)" "allocator_inv a = allocator_inv (procs s p)"
    using assms(4,5) by (simp_all add: available_def allocator_inv_def)
  with assms(1-3) show ?thesis by (simp add: fleet_inv_def run_proc_def)
qed

lemma fleet_step_inv:
  assumes "fleet_step keys s t" "fleet_inv keys ids s"
  shows "\<exists>ids'. fleet_inv keys ids' t"
  using assms
proof (cases rule: fleet_step.cases)
  case (call p c)
  obtain a' rs where f: "nextCode keys c (procs s p) = (a', rs)" by (cases "nextCode keys c (procs s p)")
  have ai: "allocator_inv (procs s p)" using assms(2) by (simp add: fleet_inv_def)
  note n = nextCode_consumes [OF f ai]
  from call show ?thesis
    using fleet_inv_consume [where f = "nextCode keys c", OF assms(2) f n(2-5) ai n(1)] assms(2)
    by (auto simp: fleet_inv_def)
next
  case (grant p b)
  let ?s = "s\<lparr>granted := granted s \<union> block_ids b\<rparr>"
  let ?idle = "(procs s p)\<lparr>reservation := False, waiters := []\<rparr>"
  have inv: "fleet_inv keys ids ?s"
    using assms(2) by (auto simp: fleet_inv_def)
  show ?thesis
  proof (cases "reserve b ?idle")
    case (Inl e)
    then have "settle keys (Inr b) (procs ?s p) = (?idle, map (\<lambda>c. (c, Some (Inl e))) (waiters (procs s p)))"
      by (simp add: settle_def Let_def)
    from fleet_inv_idle [where f = "settle keys (Inr b)", OF inv this] grant(1) show ?thesis by auto
  next
    case (Inr a)
    obtain a' rs where r: "resume keys (waiters (procs s p)) a = (a', rs)"
      by (cases "resume keys (waiters (procs s p)) a")
    with Inr have f: "settle keys (Inr b) (procs ?s p) = (a', rs)"
      by (simp add: settle_def Let_def)
    note ra = reserve_Inr [OF Inr]
    note m = resume_consumes [OF r ra(1)]
    have fresh: "block_ids b \<inter> granted s = {}" by (rule grant(3))
    have av: "available (procs s q) \<subseteq> granted s" "set ids \<subseteq> granted s" for q
      using assms(2) by (auto simp: fleet_inv_def)
    have "available a \<subseteq> granted ?s - set ids" using fresh av(2) ra(2) by auto
    moreover have "available a \<inter> available (procs ?s q) = {}" for q
      using fresh av(1) [of q] ra(2) by auto
    ultimately show ?thesis
      using fleet_inv_consume [where f = "settle keys (Inr b)", OF inv f, of a] m ra(1) grant(1) by simp
  qed
next
  case (reject p e)
  have "settle keys (Inl e) (procs s p) =
      ((procs s p)\<lparr>reservation := False, waiters := []\<rparr>,
       map (\<lambda>c. (c, Some (Inl e))) (waiters (procs s p)))" by (simp add: settle_def Let_def)
  from fleet_inv_idle [where f = "settle keys (Inl e)", OF assms(2) this] reject show ?thesis by auto
next
  case (restart p)
  then show ?thesis using assms(2) by (intro exI [of _ ids]) (auto simp: fleet_inv_def)
qed

lemma fleet_reachable_inv: "fleet_reachable keys s \<Longrightarrow> \<exists>ids. fleet_inv keys ids s"
proof (induction rule: fleet_reachable.induct)
  case init
  show ?case using fleet_inv_init by blast
next
  case (step s t)
  then show ?case using fleet_step_inv by blast
qed

lemma fleet_inv_distinct:
  assumes "fleet_inv keys ids s"
  shows "distinct (codes s)"
proof -
  have "inj_on (code_of keys) (set ids)"
  proof (rule inj_onI)
    fix i j
    assume "i \<in> set ids" "j \<in> set ids" and eq: "code_of keys i = code_of keys j"
    then have "encode keys i = Some (Inr (code_of keys i))" "encode keys j = Some (Inr (code_of keys i))"
      using assms by (auto simp: fleet_inv_def encode_eq eq)
    then show "i = j" by (rule encode_inj)
  qed
  with assms show ?thesis by (simp add: fleet_inv_def distinct_map)
qed


text \<open>C2: Across any number of processes, with crashes, failed reservations and any interleaving of
  callers, no two codes handed out are ever equal.\<close>

theorem fleet_codes_distinct:
  assumes "fleet_reachable keys s"
  shows "distinct (codes s)"
  using fleet_reachable_inv [OF assms] fleet_inv_distinct by blast

text \<open>A run for the witness: two processes each wait, get a block of one identifier, and one crashes.\<close>

definition demo_keys :: "u32 list" where "demo_keys = replicate 16 0"

definition demo_fleet :: fleet where
  "demo_fleet =
     (let s1 = run_proc 0 (nextCode demo_keys 7) init_fleet;
          s2 = run_proc 1 (nextCode demo_keys 8) s1;
          b0 = \<lparr>start = 5, size = IntNum 1\<rparr>; b1 = \<lparr>start = 6, size = IntNum 1\<rparr>;
          s3 = run_proc 0 (settle demo_keys (Inr b0)) (s2\<lparr>granted := granted s2 \<union> block_ids b0\<rparr>);
          s4 = s3\<lparr>procs := (procs s3)(0 := init_allocator)\<rparr>
      in run_proc 1 (settle demo_keys (Inr b1)) (s4\<lparr>granted := granted s4 \<union> block_ids b1\<rparr>))"

lemmas demo_simps =
  run_proc_def nextCode_def settle_def reserve_def init_fleet_def init_allocator_def
  isSafeInteger_def MAX_SAFE_INTEGER_def allocator_values

lemma demo_codes: "encode demo_keys 5 = Some (Inr ''LSWMi1TDr'')" "encode demo_keys 6 = Some (Inr ''c8MDnLrl6'')"
  unfolding demo_keys_def by code_simp+

lemma demo_reachable: "fleet_reachable demo_keys demo_fleet"
proof -
  let ?s1 = "run_proc 0 (nextCode demo_keys 7) init_fleet"
  let ?s2 = "run_proc 1 (nextCode demo_keys 8) ?s1"
  let ?b0 = "\<lparr>start = 5, size = IntNum 1\<rparr>" and ?b1 = "\<lparr>start = 6, size = IntNum 1\<rparr>"
  let ?s3 = "run_proc 0 (settle demo_keys (Inr ?b0)) (?s2\<lparr>granted := granted ?s2 \<union> block_ids ?b0\<rparr>)"
  let ?s4 = "?s3\<lparr>procs := (procs ?s3)(0 := init_allocator)\<rparr>"
  let ?s5 = "run_proc 1 (settle demo_keys (Inr ?b1)) (?s4\<lparr>granted := granted ?s4 \<union> block_ids ?b1\<rparr>)"
  have 2: "fleet_reachable demo_keys ?s2"
    by (intro fleet_reachable.step [OF _ fleet_step.call] fleet_reachable.init)
  have 3: "fleet_reachable demo_keys ?s3"
    by (rule fleet_reachable.step [OF 2 fleet_step.grant]) (simp_all add: demo_simps)
  have 4: "fleet_reachable demo_keys ?s4" by (rule fleet_reachable.step [OF 3 fleet_step.restart])
  have "fleet_reachable demo_keys ?s5"
    by (rule fleet_reachable.step [OF 4 fleet_step.grant]) (simp_all add: demo_simps)
  then show ?thesis by (simp only: demo_fleet_def Let_def)
qed

theorem fleet_codes_distinct_witness:
  "fleet_reachable demo_keys demo_fleet \<and> codes demo_fleet = [''LSWMi1TDr'', ''c8MDnLrl6''] \<and>
   distinct (codes demo_fleet)"
proof -
  have "codes demo_fleet = [''LSWMi1TDr'', ''c8MDnLrl6'']"
    by (simp add: demo_fleet_def demo_simps demo_codes)
  with demo_reachable fleet_codes_distinct [OF demo_reachable] show ?thesis by blast
qed

section \<open>Waiting callers are served\<close>

lemma resume_waits:
  "end_of_block a \<le> nxt a \<Longrightarrow>
     resume keys cs a = (if cs = [] then a else a\<lparr>reservation := True, waiters := waiters a @ cs\<rparr>, [])"
  by (induction cs arbitrary: a) (auto simp: nextCode_def)

lemma resume_serves:
  assumes "allocator_inv a" "nxt a \<le> end_of_block a" "waiters a = []"
  shows "\<exists>a'. resume keys cs a =
           (a', map (\<lambda>(c, i). (c, Some (Inr (code_of keys i)))) (zip cs [nxt a .. end_of_block a - 1])) \<and>
         waiters a' = drop (nat (end_of_block a - nxt a)) cs \<and>
         (reservation a' \<longleftrightarrow> reservation a \<or> waiters a' \<noteq> [])"
  using assms
proof (induction cs arbitrary: a)
  case (Cons c cs)
  show ?case
  proof (cases "nxt a < end_of_block a")
    case True
    let ?a = "a\<lparr>nxt := nxt a + 1\<rparr>"
    have n: "nextCode keys c a = (?a, [(c, Some (Inr (code_of keys (nxt a))))])"
      using True Cons.prems by (simp add: nextCode_def encode_eq allocator_inv_def)
    have "allocator_inv ?a" "nxt ?a \<le> end_of_block ?a" "waiters ?a = []"
      using True Cons.prems by (simp_all add: allocator_inv_def)
    from Cons.IH [OF this] obtain a' where
      "resume keys cs ?a =
         (a', map (\<lambda>(c, i). (c, Some (Inr (code_of keys i)))) (zip cs [nxt a + 1 .. end_of_block a - 1]))"
      "waiters a' = drop (nat (end_of_block a - (nxt a + 1))) cs"
      "reservation a' \<longleftrightarrow> reservation a \<or> waiters a' \<noteq> []" by auto
    moreover have "nat (end_of_block a - nxt a) = Suc (nat (end_of_block a - (nxt a + 1)))"
      using True by simp
    ultimately show ?thesis using True by (simp add: n upto_rec1 [of "nxt a"])
  next
    case False
    with Cons.prems show ?thesis by (simp add: resume_waits del: resume.simps)
  qed
qed simp

text \<open>When a reservation settles with a valid block inside the code space, the waiting callers get the
  codes of consecutive identifiers of the block in the order they called; those the block cannot
  serve wait for the next reservation, which is in flight.\<close>

theorem settle_serves_waiters:
  assumes "0 \<le> start b" "size b = IntNum n" "isSafeInteger n" "1 \<le> n"
    and "start b + n \<le> ALLOCATED_CODE_SPACE"
  shows "\<exists>a'. settle keys (Inr b) a =
           (a', map (\<lambda>(c, i). (c, Some (Inr (code_of keys i))))
                  (zip (waiters a) [start b .. start b + n - 1])) \<and>
         waiters a' = drop (nat n) (waiters a) \<and> (reservation a' \<longleftrightarrow> waiters a' \<noteq> [])"
proof -
  let ?a = "a\<lparr>reservation := False, waiters := [], nxt := start b, end_of_block := start b + n\<rparr>"
  have r: "reserve b (a\<lparr>reservation := False, waiters := []\<rparr>) = Inr ?a"
    using assms by (simp add: reserve_def)
  have "allocator_inv ?a" using assms by (simp add: allocator_inv_def)
  then show ?thesis
    using resume_serves [of ?a keys "waiters a"] assms(4) by (simp add: settle_def r)
qed

theorem settle_serves_waiters_witness:
  "\<exists>a'. settle demo_keys (Inr \<lparr>start = 5, size = IntNum 1\<rparr>)
           (init_allocator\<lparr>reservation := True, waiters := [3, 4]\<rparr>) =
         (a', [(3, Some (Inr (code_of demo_keys 5)))]) \<and> waiters a' = [4] \<and> reservation a'"
  using settle_serves_waiters [of "\<lparr>start = 5, size = IntNum 1\<rparr>" 1 demo_keys
      "init_allocator\<lparr>reservation := True, waiters := [3, 4]\<rparr>"]
  by (auto simp: isSafeInteger_def MAX_SAFE_INTEGER_def allocator_values)

end
