(* ===== verification/Keys.thy ===== *)
theory Keys
  imports Prelude
begin

text \<open>
  \<open>src/src/cache/keys.ts\<close>: the Redis key layout.  A code is hashed to one of 1,024 shards, every
  key of a shard carries the shard's hash tag, and the shards are split across the workers.
\<close>

datatype key_error = InvalidShard | InvalidWorkerIndex

definition LINK_KEY_SHARDS :: int where "LINK_KEY_SHARDS = 1024"
definition FNV_OFFSET_BASIS :: u32 where "FNV_OFFSET_BASIS = 0x811c9dc5"
definition FNV_PRIME :: u32 where "FNV_PRIME = 0x01000193"

text \<open>\<open>Buffer.from(value, "utf8")\<close>: a character below 128 is one byte, one up to 255 two bytes.\<close>

definition utf8_char :: "char \<Rightarrow> byte list" where
  "utf8_char c =
     (let n = of_char c :: int
      in if n < 128 then [word_of_int n]
         else [word_of_int (192 + n div 64), word_of_int (128 + n mod 64)])"

definition utf8_bytes :: "string \<Rightarrow> byte list" where
  "utf8_bytes s = concat (map utf8_char s)"

definition fnv_step :: "u32 \<Rightarrow> byte \<Rightarrow> u32" where
  "fnv_step hash b = (hash XOR ucast b) * FNV_PRIME"

definition fnv1a32 :: "string \<Rightarrow> u32" where
  "fnv1a32 value = foldl fnv_step FNV_OFFSET_BASIS (utf8_bytes value)"

definition shardOf :: "string \<Rightarrow> int" where
  "shardOf code = uint (fnv1a32 code) mod LINK_KEY_SHARDS"

definition padStart :: "nat \<Rightarrow> char \<Rightarrow> string \<Rightarrow> string" where
  "padStart n c s = replicate (n - length s) c @ s"

definition shardTag :: "int \<Rightarrow> key_error + string" where
  "shardTag shard =
     (if \<not> isSafeInteger shard \<or> shard < 0 \<or> LINK_KEY_SHARDS \<le> shard then Inl InvalidShard
      else Inr (''{'' @ padStart 4 (CHR ''0'') (js_String (nat shard)) @ ''}''))"

definition linkKey :: "string \<Rightarrow> key_error + string" where
  "linkKey code = map_sum id (\<lambda>tag. ''wraplink:link:'' @ tag @ '':'' @ code) (shardTag (shardOf code))"

definition syncQueueKey :: "int \<Rightarrow> key_error + string" where
  "syncQueueKey shard = map_sum id (\<lambda>tag. ''wraplink:sync:queue:'' @ tag) (shardTag shard)"

definition syncLockKey :: "int \<Rightarrow> key_error + string" where
  "syncLockKey shard = map_sum id (\<lambda>tag. ''wraplink:sync:lock:'' @ tag) (shardTag shard)"

definition syncDeadLetterKey :: "int \<Rightarrow> key_error + string" where
  "syncDeadLetterKey shard = map_sum id (\<lambda>tag. ''wraplink:sync:dead:'' @ tag) (shardTag shard)"

text \<open>The \<open>for\<close> loop of \<open>shardsForWorker\<close>, entered with \<open>1 \<le> step\<close>.\<close>

function shards_from :: "int \<Rightarrow> int \<Rightarrow> int list" where
  "shards_from shard step =
     (if 1 \<le> step \<and> shard < LINK_KEY_SHARDS then shard # shards_from (shard + step) step else [])"
  by pat_completeness auto
termination
  by (relation "measure (\<lambda>(shard, step). nat (LINK_KEY_SHARDS - shard))") auto

declare shards_from.simps [simp del]

definition shardsForWorker :: "int \<Rightarrow> int \<Rightarrow> key_error + int list" where
  "shardsForWorker workerIndex workerCount =
     (if \<not> isSafeInteger workerCount \<or> workerCount < 1 \<or>
         \<not> isSafeInteger workerIndex \<or> workerIndex < 0 \<or> workerCount \<le> workerIndex
      then Inl InvalidWorkerIndex
      else Inr (shards_from workerIndex workerCount))"

definition allShards :: "key_error + int list" where
  "allShards = shardsForWorker 0 1"

section \<open>Shards\<close>

definition valid_shard :: "int \<Rightarrow> bool" where
  "valid_shard shard \<longleftrightarrow> 0 \<le> shard \<and> shard < LINK_KEY_SHARDS"

lemma valid_shardOf [simp]: "valid_shard (shardOf code)"
  by (simp add: valid_shard_def shardOf_def LINK_KEY_SHARDS_def)

lemma valid_shard_safe: "valid_shard shard \<Longrightarrow> isSafeInteger shard"
  by (simp add: valid_shard_def isSafeInteger_def MAX_SAFE_INTEGER_def LINK_KEY_SHARDS_def)

definition tag_text :: "int \<Rightarrow> string" where
  "tag_text shard = padStart 4 (CHR ''0'') (js_String (nat shard))"

lemma shardTag_valid: "valid_shard shard \<Longrightarrow> shardTag shard = Inr (''{'' @ tag_text shard @ ''}'')"
  using valid_shard_safe by (simp add: shardTag_def tag_text_def valid_shard_def)

text \<open>The keys as plain strings: on a valid shard the key functions do not throw.\<close>

definition link_key :: "string \<Rightarrow> string" where
  "link_key code = ''wraplink:link:'' @ (''{'' @ tag_text (shardOf code) @ ''}'') @ '':'' @ code"

definition queue_key :: "int \<Rightarrow> string" where
  "queue_key shard = ''wraplink:sync:queue:'' @ (''{'' @ tag_text shard @ ''}'')"

definition lock_key :: "int \<Rightarrow> string" where
  "lock_key shard = ''wraplink:sync:lock:'' @ (''{'' @ tag_text shard @ ''}'')"

definition dead_key :: "int \<Rightarrow> string" where
  "dead_key shard = ''wraplink:sync:dead:'' @ (''{'' @ tag_text shard @ ''}'')"

lemma linkKey_eq [key_simps]: "linkKey code = Inr (link_key code)"
  by (simp add: linkKey_def link_key_def shardTag_valid)

lemma sync_keys_eq [key_simps]:
  assumes "valid_shard shard"
  shows "syncQueueKey shard = Inr (queue_key shard)" "syncLockKey shard = Inr (lock_key shard)"
    and "syncDeadLetterKey shard = Inr (dead_key shard)"
  using assms
  by (simp_all add: syncQueueKey_def syncLockKey_def syncDeadLetterKey_def
      queue_key_def lock_key_def dead_key_def shardTag_valid)

section \<open>The shards of a worker\<close>

lemma mem_shards_from:
  "1 \<le> step \<Longrightarrow> s \<in> set (shards_from a step) \<longleftrightarrow>
     a \<le> s \<and> s < LINK_KEY_SHARDS \<and> (s - a) mod step = 0"
proof (induction a step rule: shards_from.induct)
  case (1 a step)
  show ?case
  proof (cases "a < LINK_KEY_SHARDS")
    case True
    have "(s - (a + step)) mod step = (s - a) mod step"
      by (metis diff_diff_add minus_mod_self2)
    moreover have "a \<le> s \<Longrightarrow> s \<noteq> a \<Longrightarrow> (s - a) mod step = 0 \<Longrightarrow> a + step \<le> s"
      using "1.prems" by (smt (verit) mod_pos_pos_trivial)
    ultimately show ?thesis
      using 1 True by (subst shards_from.simps) auto
  next
    case False
    then show ?thesis by (subst shards_from.simps) auto
  qed
qed

lemma distinct_shards_from: "1 \<le> step \<Longrightarrow> distinct (shards_from a step)"
proof (induction a step rule: shards_from.induct)
  case (1 a step)
  then show ?case by (subst shards_from.simps) (auto simp: mem_shards_from)
qed

lemma mem_shardsForWorker:
  assumes "shardsForWorker i n = Inr shards"
  shows "s \<in> set shards \<longleftrightarrow> valid_shard s \<and> s mod n = i"
proof -
  from assms have n: "1 \<le> n" "0 \<le> i" "i < n" and sh: "shards = shards_from i n"
    by (auto simp: shardsForWorker_def split: if_splits)
  have "i \<le> s \<and> (s - i) mod n = 0 \<longleftrightarrow> 0 \<le> s \<and> s mod n = i"
  proof
    assume h: "i \<le> s \<and> (s - i) mod n = 0"
    then have "s mod n = i mod n" by (simp add: mod_eq_dvd_iff dvd_eq_mod_eq_0)
    with h n show "0 \<le> s \<and> s mod n = i" by simp
  next
    assume h: "0 \<le> s \<and> s mod n = i"
    then show "i \<le> s \<and> (s - i) mod n = 0"
      using n by (metis diff_self mod_0 mod_diff_left_eq zmod_le_nonneg_dividend mod_diff_right_eq)
  qed
  with sh n(1) show ?thesis by (auto simp: mem_shards_from valid_shard_def)
qed


text \<open>C32: The workers partition the shards: with a valid worker count, every shard belongs to exactly one
  worker index, no worker gets an invalid shard, and none gets a shard twice.\<close>

theorem shards_partition:
  assumes "1 \<le> workerCount" "isSafeInteger workerCount" "valid_shard shard"
  shows "\<exists>!i. \<exists>shards. shardsForWorker i workerCount = Inr shards \<and> shard \<in> set shards \<and>
           distinct shards \<and> list_all valid_shard shards"
proof (rule ex1I [of _ "shard mod workerCount"])
  let ?i = "shard mod workerCount"
  have "isSafeInteger ?i" "0 \<le> ?i" "?i < workerCount"
    using assms pos_mod_bound [of workerCount shard] pos_mod_sign [of workerCount shard]
    unfolding isSafeInteger_def MAX_SAFE_INTEGER_def by linarith+
  then have ok: "shardsForWorker ?i workerCount = Inr (shards_from ?i workerCount)"
    using assms(1,2) unfolding shardsForWorker_def by (metis linorder_not_less)
  from ok assms show "\<exists>shards. shardsForWorker ?i workerCount = Inr shards \<and> shard \<in> set shards \<and>
           distinct shards \<and> list_all valid_shard shards"
    by (auto simp: mem_shardsForWorker [OF ok] distinct_shards_from list_all_iff)
next
  fix i
  assume "\<exists>shards. shardsForWorker i workerCount = Inr shards \<and> shard \<in> set shards \<and>
           distinct shards \<and> list_all valid_shard shards"
  then show "i = shard mod workerCount" by (auto dest: mem_shardsForWorker)
qed

theorem shards_partition_witness:
  "valid_shard 210 \<and> (\<exists>!i. \<exists>shards. shardsForWorker i 4 = Inr shards \<and> 210 \<in> set shards \<and>
           distinct shards \<and> list_all valid_shard shards)"
proof -
  have h: "valid_shard 210" "(1 :: int) \<le> 4" "isSafeInteger 4"
    by (simp_all add: valid_shard_def LINK_KEY_SHARDS_def isSafeInteger_def MAX_SAFE_INTEGER_def)
  from h(1) shards_partition [OF h(2,3,1)] show ?thesis by blast
qed

section \<open>Hash tags and the cluster\<close>

text \<open>
  The part of a key that Redis Cluster hashes: the text between the first opening brace and the
  first closing brace after it.
\<close>

definition hash_tag :: "string \<Rightarrow> string option" where
  "hash_tag key =
     (let rest = dropWhile (\<lambda>c. c \<noteq> CHR ''{'') key
      in if rest = [] then None
         else let inner = takeWhile (\<lambda>c. c \<noteq> CHR ''}'') (tl rest)
              in if length inner = length (tl rest) \<or> inner = [] then None else Some inner)"

lemma tag_text_digits: "set (tag_text shard) \<subseteq> set ''0123456789''" "tag_text shard \<noteq> []"
  using set_js_String [of "nat shard"] by (auto simp: tag_text_def padStart_def)

lemma hash_tag_tagged:
  assumes "CHR ''{'' \<notin> set pre" "CHR ''}'' \<notin> set t" "t \<noteq> []"
  shows "hash_tag (pre @ (''{'' @ t @ ''}'') @ post) = Some t"
proof -
  have "dropWhile (\<lambda>c. c \<noteq> CHR ''{'') (pre @ (''{'' @ t @ ''}'') @ post) = ''{'' @ t @ ''}'' @ post"
    using assms(1) by (subst dropWhile_append2) auto
  moreover have "takeWhile (\<lambda>c. c \<noteq> CHR ''}'') (t @ ''}'' @ post) = t"
    using assms(2) by (subst takeWhile_append2) auto
  ultimately show ?thesis using assms(3) by (simp add: hash_tag_def)
qed

lemma tag_no_brace: "CHR ''}'' \<notin> set (tag_text shard)"
  using tag_text_digits(1) [of shard] by auto

lemma hash_tag_keys [key_simps]:
  "hash_tag (link_key code) = Some (tag_text (shardOf code))"
  "hash_tag (queue_key shard) = Some (tag_text shard)"
  "hash_tag (lock_key shard) = Some (tag_text shard)"
  "hash_tag (dead_key shard) = Some (tag_text shard)"
  unfolding link_key_def queue_key_def lock_key_def dead_key_def
  using hash_tag_tagged [OF _ tag_no_brace tag_text_digits(2), of "''wraplink:sync:queue:''" _ "[]"]
    hash_tag_tagged [OF _ tag_no_brace tag_text_digits(2), of "''wraplink:sync:lock:''" _ "[]"]
    hash_tag_tagged [OF _ tag_no_brace tag_text_digits(2), of "''wraplink:sync:dead:''" _ "[]"]
    hash_tag_tagged [OF _ tag_no_brace tag_text_digits(2), of "''wraplink:link:''"]
  by simp_all

text \<open>C33: In Redis Cluster, a link's key and the queue, lock and dead-letter keys of its shard are in one
  slot, so the scripts that touch them together are allowed.  The server's slot function is a
  parameter; that it hashes only the tag is its documented behaviour.\<close>

theorem cluster_colocation:
  assumes slot_hashes_tag: "\<And>k k' t. hash_tag k = Some t \<Longrightarrow> hash_tag k' = Some t \<Longrightarrow> slot k = slot k'"
  shows "\<exists>lk qk kk dk. linkKey code = Inr lk \<and> syncQueueKey (shardOf code) = Inr qk \<and>
           syncLockKey (shardOf code) = Inr kk \<and> syncDeadLetterKey (shardOf code) = Inr dk \<and>
           slot qk = slot lk \<and> slot kk = slot lk \<and> slot dk = slot lk"
proof -
  have "slot k = slot (link_key code)" if "hash_tag k = Some (tag_text (shardOf code))" for k
    using that by (rule slot_hashes_tag) (simp add: key_simps)
  from this [of "queue_key (shardOf code)"] this [of "lock_key (shardOf code)"]
    this [of "dead_key (shardOf code)"]
  show ?thesis by (simp add: key_simps)
qed

definition tag_slot :: "string \<Rightarrow> int" where
  "tag_slot k = (case hash_tag k of None \<Rightarrow> uint (fnv1a32 k) | Some t \<Rightarrow> uint (fnv1a32 t)) mod 16384"

theorem cluster_colocation_witness:
  "\<exists>lk qk kk dk. linkKey ''docs'' = Inr lk \<and> syncQueueKey (shardOf ''docs'') = Inr qk \<and>
           syncLockKey (shardOf ''docs'') = Inr kk \<and> syncDeadLetterKey (shardOf ''docs'') = Inr dk \<and>
           tag_slot qk = tag_slot lk \<and> tag_slot kk = tag_slot lk \<and> tag_slot dk = tag_slot lk"
  by (rule cluster_colocation) (simp add: tag_slot_def)

section \<open>Keys are unambiguous\<close>

lemma tag_text_inj:
  assumes "valid_shard s" "valid_shard t" "tag_text s = tag_text t"
  shows "s = t"
proof -
  have numval: "digits_value 0 (replicate k (CHR ''0'') @ js_String n) = Some n" for k n
    by (induction k) (simp_all add: digit_value_def)
  from assms(3) have "digits_value 0 (tag_text s) = digits_value 0 (tag_text t)" by simp
  then have "nat s = nat t" by (simp add: tag_text_def padStart_def numval)
  with assms(1,2) show ?thesis by (auto simp: valid_shard_def)
qed

lemma takeWhile_tag: "takeWhile (\<lambda>x. x \<noteq> CHR ''}'') (tag_text s @ CHR ''}'' # xs) = tag_text s"
  using tag_no_brace [of s] by (subst takeWhile_append2) auto

lemma link_key_inj [key_simps]: "link_key c = link_key d \<longleftrightarrow> c = d"
proof
  assume "link_key c = link_key d"
  then have eq: "tag_text (shardOf c) @ ''}:'' @ c = tag_text (shardOf d) @ ''}:'' @ d"
    by (simp add: link_key_def)
  then have "takeWhile (\<lambda>x. x \<noteq> CHR ''}'') (tag_text (shardOf c) @ ''}:'' @ c) =
             takeWhile (\<lambda>x. x \<noteq> CHR ''}'') (tag_text (shardOf d) @ ''}:'' @ d)" by simp
  then have "tag_text (shardOf c) = tag_text (shardOf d)"
    by (simp add: takeWhile_tag)
  with eq show "c = d" by simp
qed simp

lemma sync_key_inj [key_simps]:
  assumes "valid_shard s" "valid_shard t"
  shows "queue_key s = queue_key t \<longleftrightarrow> s = t" "lock_key s = lock_key t \<longleftrightarrow> s = t"
    "dead_key s = dead_key t \<longleftrightarrow> s = t"
  using tag_text_inj [OF assms] by (auto simp: queue_key_def lock_key_def dead_key_def)

lemma key_kinds_distinct [key_simps]:
  "link_key c \<noteq> queue_key s" "link_key c \<noteq> lock_key s" "link_key c \<noteq> dead_key s"
  "queue_key s \<noteq> link_key c" "lock_key s \<noteq> link_key c" "dead_key s \<noteq> link_key c"
  "queue_key s \<noteq> lock_key t" "queue_key s \<noteq> dead_key t" "lock_key s \<noteq> dead_key t"
  "lock_key t \<noteq> queue_key s" "dead_key t \<noteq> queue_key s" "dead_key t \<noteq> lock_key s"
  by (simp_all add: link_key_def queue_key_def lock_key_def dead_key_def)

text \<open>Distinct codes have distinct link keys, no link key is the queue, lock or dead-letter key of
  a shard, and the test vectors the two services share hold: the hash, the shard and the key of a
  code are what the fixture file says.\<close>

theorem link_keys_distinct:
  "(linkKey c = linkKey d \<longleftrightarrow> c = d) \<and>
   linkKey c \<noteq> syncQueueKey s \<and> linkKey c \<noteq> syncLockKey s \<and> linkKey c \<noteq> syncDeadLetterKey s \<and>
   fnv1a32 ''docs'' = 686503122 \<and> shardOf ''docs'' = 210 \<and>
   linkKey ''docs'' = Inr ''wraplink:link:{0210}:docs'' \<and>
   linkKey ''container-demo'' = Inr ''wraplink:link:{0900}:container-demo''"
proof (intro conjI)
  show "linkKey c = linkKey d \<longleftrightarrow> c = d" by (simp add: key_simps)
  show "linkKey c \<noteq> syncQueueKey s" "linkKey c \<noteq> syncLockKey s" "linkKey c \<noteq> syncDeadLetterKey s"
    by (simp_all add: key_simps link_key_def syncQueueKey_def syncLockKey_def syncDeadLetterKey_def
        shardTag_def)
qed code_simp+

end
