(* ===== verification/Click_Buffer.thy ===== *)
theory Click_Buffer
  imports Prelude
begin

text \<open>
  \<open>src/src/store/click-buffer.ts\<close>: clicks are counted in memory and written to the sink in
  batches.  A flush has two halves, because \<open>performFlush\<close> suspends while the sink works: the
  first takes the batch, the second handles the sink's answer, and clicks may be recorded in
  between.  \<open>inflight\<close> is the batch of the flush that \<open>flushPromise\<close> stands for.
\<close>

datatype buffer_error =
    BadFlushInterval | BadMaxPendingClicks | BadMaxUnmatchedAttempts | BufferClosed | EmptyCode

type_synonym click_map = "(string, nat) js_map"

record click_buffer =
  pending :: click_map
  pendingTotal :: nat
  timer :: bool
  inflight :: "click_map option"
  closed :: bool
  unmatchedAttempts :: click_map
  dropped :: nat
  maxPendingClicks :: nat
  maxUnmatchedAttempts :: nat

definition ClickBuffer :: "js_number \<Rightarrow> js_number \<Rightarrow> js_number \<Rightarrow> buffer_error + click_buffer" where
  "ClickBuffer flushIntervalMs maxPending maxAttempts =
     (if \<not> positiveSafeInteger flushIntervalMs then Inl BadFlushInterval
      else if \<not> positiveSafeInteger maxPending then Inl BadMaxPendingClicks
      else if \<not> positiveSafeInteger maxAttempts then Inl BadMaxUnmatchedAttempts
      else case (maxPending, maxAttempts) of
             (IntNum p, IntNum a) \<Rightarrow>
               Inr \<lparr>pending = [], pendingTotal = 0, timer = False, inflight = None, closed = False,
                    unmatchedAttempts = [], dropped = 0, maxPendingClicks = nat p,
                    maxUnmatchedAttempts = nat a\<rparr>
           | _ \<Rightarrow> Inl BadMaxPendingClicks)"

definition start_timer :: "click_buffer \<Rightarrow> buffer_error + click_buffer" where
  "start_timer s = (if closed s then Inl BufferClosed else Inr (s\<lparr>timer := True\<rparr>))"

definition count_of :: "click_map \<Rightarrow> string \<Rightarrow> nat" where
  "count_of m code = (case js_get m code of None \<Rightarrow> 0 | Some n \<Rightarrow> n)"

definition bump :: "click_map \<Rightarrow> string \<Rightarrow> nat \<Rightarrow> click_map" where
  "bump m code n = js_set m code (count_of m code + n)"

text \<open>
  The first half of \<open>flush\<close>: join the flush in flight, or take the pending clicks as the batch.  With
  nothing pending, \<open>performFlush\<close> returns at once and its promise settles without a sink call.
\<close>

definition flush_begin :: "click_buffer \<Rightarrow> click_buffer" where
  "flush_begin s =
     (if inflight s \<noteq> None then s
      else if pending s = [] then s\<lparr>inflight := Some []\<rparr>
      else s\<lparr>inflight := Some (pending s), pending := [], pendingTotal := 0\<rparr>)"

definition record_click :: "string \<Rightarrow> click_buffer \<Rightarrow> buffer_error + click_buffer" where
  "record_click code s =
     (if closed s then Inl BufferClosed
      else if code = [] then Inl EmptyCode
      else let s' = s\<lparr>pending := bump (pending s) code 1, pendingTotal := pendingTotal s + 1\<rparr>
           in Inr (if maxPendingClicks s' \<le> pendingTotal s' then flush_begin s' else s'))"

text \<open>The sink rejects, or resolves with the codes that matched no stored link (in iteration order).\<close>

datatype sink_outcome = SinkRejected | SinkResolved "string list"

fun put_back :: "click_map \<Rightarrow> click_buffer \<Rightarrow> click_buffer" where
  "put_back [] s = s"
| "put_back ((code, count) # batch) s =
     put_back batch (s\<lparr>pending := bump (pending s) code count,
                       pendingTotal := pendingTotal s + count\<rparr>)"

fun forget_matched :: "string list \<Rightarrow> string list \<Rightarrow> click_buffer \<Rightarrow> click_buffer" where
  "forget_matched [] unmatched s = s"
| "forget_matched (code # cs) unmatched s =
     forget_matched cs unmatched
       (if code \<in> set unmatched then s
        else s\<lparr>unmatchedAttempts := js_delete (unmatchedAttempts s) code\<rparr>)"

fun retry_unmatched :: "click_map \<Rightarrow> string list \<Rightarrow> click_buffer \<Rightarrow> click_buffer" where
  "retry_unmatched batch [] s = s"
| "retry_unmatched batch (code # us) s =
     (case js_get batch code of
        None \<Rightarrow> retry_unmatched batch us s
      | Some count \<Rightarrow>
          let attempts = count_of (unmatchedAttempts s) code + 1
          in retry_unmatched batch us
               (if maxUnmatchedAttempts s \<le> attempts
                then s\<lparr>unmatchedAttempts := js_delete (unmatchedAttempts s) code,
                       dropped := dropped s + count\<rparr>
                else s\<lparr>unmatchedAttempts := js_set (unmatchedAttempts s) code attempts,
                       pending := bump (pending s) code count,
                       pendingTotal := pendingTotal s + count\<rparr>))"

text \<open>The second half: the sink has answered (an empty batch never reached it).\<close>

definition flush_settle :: "sink_outcome \<Rightarrow> click_buffer \<Rightarrow> click_buffer" where
  "flush_settle outcome s =
     (case inflight s of
        None \<Rightarrow> s
      | Some batch \<Rightarrow>
          let s' = s\<lparr>inflight := None\<rparr>
          in if batch = [] then s'
             else case outcome of
                    SinkRejected \<Rightarrow> put_back batch s'
                  | SinkResolved unmatched \<Rightarrow>
                      retry_unmatched batch unmatched
                        (forget_matched (js_keys batch) unmatched s'))"

datatype close_result = CloseDone | CloseRejected

text \<open>The loop of \<open>close\<close>, one sink answer per flush; \<open>None\<close> when the answers given run out first.\<close>

fun close_loop :: "sink_outcome list \<Rightarrow> click_buffer \<Rightarrow> (close_result \<times> click_buffer) option" where
  "close_loop outs s =
     (if pending s = [] then Some (CloseDone, s)
      else case outs of
             [] \<Rightarrow> None
           | SinkRejected # _ \<Rightarrow> Some (CloseRejected, flush_settle SinkRejected (flush_begin s))
           | SinkResolved us # outs' \<Rightarrow> close_loop outs' (flush_settle (SinkResolved us) (flush_begin s)))"

declare close_loop.simps [simp del]

definition close_buffer ::
  "sink_outcome list \<Rightarrow> click_buffer \<Rightarrow> (close_result \<times> click_buffer) option" where
  "close_buffer outs s =
     (if closed s then Some (CloseDone, s)
      else let s' = s\<lparr>closed := True, timer := False\<rparr>
           in case inflight s' of
                None \<Rightarrow> close_loop outs s'
              | Some batch \<Rightarrow>
                  if batch = [] then close_loop outs (flush_settle SinkRejected s')
                  else (case outs of
                          [] \<Rightarrow> None
                        | SinkRejected # _ \<Rightarrow> Some (CloseRejected, flush_settle SinkRejected s')
                        | SinkResolved us # outs' \<Rightarrow> close_loop outs' (flush_settle (SinkResolved us) s')))"

definition pendingClicks :: "click_buffer \<Rightarrow> nat" where "pendingClicks s = pendingTotal s"
definition droppedClicks :: "click_buffer \<Rightarrow> nat" where "droppedClicks s = dropped s"

section \<open>Counting\<close>

definition total :: "click_map \<Rightarrow> nat" where "total m = sum_list (map snd m)"

lemma total_simps [simp]: "total [] = 0" "total ((c, n) # m) = n + total m"
  by (simp_all add: total_def)

lemma count_of_simps [simp]:
  "count_of [] c = 0" "count_of ((d, n) # m) c = (if d = c then n else count_of m c)"
  by (simp_all add: count_of_def)

lemma total_js_set: "total (js_set m c v) + count_of m c = total m + v"
  by (induction m c v rule: js_set.induct) auto

lemma total_bump [simp]: "total (bump m c n) = total m + n"
  using total_js_set [of m c "count_of m c + n"] by (simp add: bump_def)

lemma count_of_bump [simp]: "count_of (bump m c n) d = count_of m d + (if c = d then n else 0)"
  by (simp add: bump_def count_of_def)

lemma bump_wf [simp, intro]: "js_wf m \<Longrightarrow> js_wf (bump m c n)"
  by (simp add: bump_def js_wf_set)

lemma keys_bump [simp]: "fst ` set (bump m c n) = insert c (fst ` set m)"
  by (simp add: bump_def)

lemma bump_neq_Nil [simp]: "bump m c n \<noteq> []"
  by (simp add: bump_def)

section \<open>The invariant\<close>

text \<open>
  \<open>pendingTotal\<close> is the number of pending clicks; the attempt counters stay below the limit; every
  map has distinct keys and positive counts.
\<close>

definition attempts_ok :: "nat \<Rightarrow> click_map \<Rightarrow> bool" where
  "attempts_ok limit m \<longleftrightarrow> js_wf m \<and> (\<forall>c n. js_get m c = Some n \<longrightarrow> 1 \<le> n \<and> n < limit)"

definition positive :: "click_map \<Rightarrow> bool" where
  "positive m \<longleftrightarrow> (\<forall>c n. js_get m c = Some n \<longrightarrow> 1 \<le> n)"

definition buffer_inv :: "click_buffer \<Rightarrow> bool" where
  "buffer_inv s \<longleftrightarrow>
     js_wf (pending s) \<and> positive (pending s) \<and> pendingTotal s = total (pending s) \<and>
     attempts_ok (maxUnmatchedAttempts s) (unmatchedAttempts s) \<and> 1 \<le> maxUnmatchedAttempts s \<and>
     (case inflight s of None \<Rightarrow> True | Some b \<Rightarrow> js_wf b \<and> positive b)"

lemma positive_bump [simp]: "positive m \<Longrightarrow> 1 \<le> n \<Longrightarrow> positive (bump m c n)"
  by (auto simp: positive_def bump_def)

lemma positive_Nil [simp]: "positive []"
  by (simp add: positive_def)

lemma attempts_ok_set: "attempts_ok l m \<Longrightarrow> 1 \<le> n \<Longrightarrow> n < l \<Longrightarrow> attempts_ok l (js_set m c n)"
  by (auto simp: attempts_ok_def)

lemma attempts_ok_delete: "attempts_ok l m \<Longrightarrow> attempts_ok l (js_delete m c)"
  by (auto simp: attempts_ok_def js_get_delete split: if_splits)

lemma ClickBuffer_inv: "ClickBuffer f p a = Inr s \<Longrightarrow> buffer_inv s"
  by (cases p; cases a)
     (auto simp: ClickBuffer_def buffer_inv_def attempts_ok_def isSafeInteger_def split: if_splits)

lemma flush_begin_inv: "buffer_inv s \<Longrightarrow> buffer_inv (flush_begin s)"
  by (auto simp: buffer_inv_def flush_begin_def)

lemma record_click_inv: "buffer_inv s \<Longrightarrow> record_click c s = Inr t \<Longrightarrow> buffer_inv t"
  by (auto simp: record_click_def Let_def split: if_splits intro!: flush_begin_inv)
     (auto simp: buffer_inv_def)


lemma put_back_frame [simp]:
  "inflight (put_back batch s) = inflight s" "closed (put_back batch s) = closed s"
  "unmatchedAttempts (put_back batch s) = unmatchedAttempts s" "dropped (put_back batch s) = dropped s"
  "maxUnmatchedAttempts (put_back batch s) = maxUnmatchedAttempts s"
  by (induction batch s rule: put_back.induct) simp_all

lemma count_of_absent: "c \<notin> fst ` set m \<Longrightarrow> count_of m c = 0"
  by (simp add: count_of_def js_get_None_iff [symmetric])

lemma put_back_count:
  "js_wf batch \<Longrightarrow> count_of (pending (put_back batch s)) c = count_of (pending s) c + count_of batch c"
  by (induction batch s rule: put_back.induct) (auto simp: count_of_absent)

lemma put_back_total:
  "pendingTotal (put_back batch s) = pendingTotal s + total batch"
  "total (pending (put_back batch s)) = total (pending s) + total batch"
  by (induction batch s rule: put_back.induct) simp_all

lemma put_back_wf: "js_wf (pending s) \<Longrightarrow> js_wf (pending (put_back batch s))"
  by (induction batch s rule: put_back.induct) simp_all

lemma put_back_nonempty: "pending s \<noteq> [] \<or> batch \<noteq> [] \<Longrightarrow> pending (put_back batch s) \<noteq> []"
  by (induction batch s rule: put_back.induct) simp_all

lemma positive_Cons: "js_wf ((c, n) # m) \<Longrightarrow> positive ((c, n) # m) \<longleftrightarrow> 1 \<le> n \<and> positive m"
  by (auto simp: positive_def js_get_None_iff [symmetric] split: if_splits)

lemma put_back_positive:
  "js_wf batch \<Longrightarrow> positive batch \<Longrightarrow> positive (pending s) \<Longrightarrow> positive (pending (put_back batch s))"
proof (induction batch s rule: put_back.induct)
  case (2 code n batch s)
  then have "1 \<le> n" "positive batch" using positive_Cons by blast+
  with 2 show ?case by simp
qed simp

lemma put_back_inv:
  assumes "buffer_inv s" "inflight s = None" "js_wf batch" "positive batch"
  shows "buffer_inv (put_back batch s)"
  using assms by (simp add: buffer_inv_def put_back_wf put_back_total put_back_positive)

lemma forget_matched_frame [simp]:
  "inflight (forget_matched cs us s) = inflight s" "closed (forget_matched cs us s) = closed s"
  "pending (forget_matched cs us s) = pending s" "dropped (forget_matched cs us s) = dropped s"
  "pendingTotal (forget_matched cs us s) = pendingTotal s"
  "maxUnmatchedAttempts (forget_matched cs us s) = maxUnmatchedAttempts s"
  by (induction cs us s rule: forget_matched.induct) simp_all

lemma forget_matched_attempts:
  "attempts_ok l (unmatchedAttempts s) \<Longrightarrow> attempts_ok l (unmatchedAttempts (forget_matched cs us s))"
  by (induction cs us s rule: forget_matched.induct) (simp_all add: attempts_ok_delete)

lemma forget_matched_count:
  "js_wf (unmatchedAttempts s) \<Longrightarrow>
   count_of (unmatchedAttempts (forget_matched cs us s)) c =
     (if c \<in> set cs \<and> c \<notin> set us then 0 else count_of (unmatchedAttempts s) c)"
  by (induction cs us s rule: forget_matched.induct) (auto simp: count_of_def js_get_delete)

lemma retry_unmatched_frame [simp]:
  "inflight (retry_unmatched batch us s) = inflight s" "closed (retry_unmatched batch us s) = closed s"
  "maxUnmatchedAttempts (retry_unmatched batch us s) = maxUnmatchedAttempts s"
  by (induction batch us s rule: retry_unmatched.induct) (simp_all add: Let_def split: option.split)

text \<open>The clicks of one code that a resolved flush gives up on.\<close>

definition given_up :: "click_map \<Rightarrow> string list \<Rightarrow> click_buffer \<Rightarrow> string \<Rightarrow> nat" where
  "given_up batch us s c =
     (if c \<in> set us \<and> maxUnmatchedAttempts s \<le> count_of (unmatchedAttempts s) c + 1
      then count_of batch c else 0)"

lemma retry_unmatched_inv:
  "buffer_inv s \<Longrightarrow> inflight s = None \<Longrightarrow> positive batch \<Longrightarrow> buffer_inv (retry_unmatched batch us s)"
proof (induction batch us s rule: retry_unmatched.induct)
  case (2 batch code us s)
  show ?case
  proof (cases "js_get batch code")
    case None
    with 2 show ?thesis by simp
  next
    case (Some n)
    then have n: "1 \<le> n" using "2.prems"(3) by (simp add: positive_def)
    show ?thesis
      using "2.IH"(2) [OF Some refl] "2.prems" Some n
      by (auto simp: Let_def buffer_inv_def attempts_ok_delete attempts_ok_set)
  qed
qed simp

lemma count_of_delete: "js_wf m \<Longrightarrow> count_of (js_delete m c) d = (if c = d then 0 else count_of m d)"
  by (simp add: count_of_def js_get_delete)

lemma count_of_set [simp]: "count_of (js_set m c v) d = (if c = d then v else count_of m d)"
  by (simp add: count_of_def)

lemma retry_unmatched_count:
  "distinct us \<Longrightarrow> js_wf (unmatchedAttempts s) \<Longrightarrow>
   count_of (pending (retry_unmatched batch us s)) c + given_up batch us s c =
     count_of (pending s) c + (if c \<in> set us then count_of batch c else 0)"
proof (induction batch us s rule: retry_unmatched.induct)
  case (2 batch code us s)
  show ?case
  proof (cases "js_get batch code")
    case None
    then have "count_of batch code = 0" by (simp add: count_of_def)
    with 2 None show ?thesis by (auto simp: given_up_def split: if_splits)
  next
    case (Some n)
    then have n: "count_of batch code = n" by (simp add: count_of_def)
    show ?thesis
      using "2.IH"(2) [OF Some refl] "2.prems" Some n
      by (auto simp: Let_def given_up_def count_of_delete split: if_splits)
  qed
qed (simp add: given_up_def)


lemma buffer_inv_landed: "buffer_inv s \<Longrightarrow> buffer_inv (s\<lparr>inflight := None\<rparr>)"
  by (simp add: buffer_inv_def)

lemma forget_matched_inv: "buffer_inv s \<Longrightarrow> buffer_inv (forget_matched cs us s)"
  by (simp add: buffer_inv_def forget_matched_attempts)

lemma flush_settle_inv:
  assumes "buffer_inv s"
  shows "buffer_inv (flush_settle outcome s)"
proof (cases "inflight s")
  case None
  with assms show ?thesis by (simp add: flush_settle_def)
next
  case (Some batch)
  then have "js_wf batch" "positive batch" using assms by (simp_all add: buffer_inv_def)
  with Some assms show ?thesis
    by (cases outcome)
       (simp_all add: flush_settle_def Let_def put_back_inv retry_unmatched_inv forget_matched_inv
         buffer_inv_landed)
qed

section \<open>No click is lost silently\<close>

text \<open>
  The buffer with its history, per code: clicks recorded, clicks the sink reported stored, clicks
  given up.  Timer ticks and callers may start a flush at any time; the sink may answer at any
  time after.
\<close>

record click_system =
  buf :: click_buffer
  recorded :: "string \<Rightarrow> nat"
  persisted :: "string \<Rightarrow> nat"
  lost :: "string \<Rightarrow> nat"

inductive click_step :: "click_system \<Rightarrow> click_system \<Rightarrow> bool" where
  click: "record_click c (buf s) = Inr b \<Longrightarrow>
     click_step s (s\<lparr>buf := b, recorded := (recorded s)(c := recorded s c + 1)\<rparr>)"
| begin_flush: "click_step s (s\<lparr>buf := flush_begin (buf s)\<rparr>)"
| rejected: "click_step s (s\<lparr>buf := flush_settle SinkRejected (buf s)\<rparr>)"
| resolved: "inflight (buf s) = Some batch \<Longrightarrow> distinct us \<Longrightarrow>
     click_step s (s\<lparr>buf := flush_settle (SinkResolved us) (buf s),
       persisted := (\<lambda>c. persisted s c + (if c \<in> set us then 0 else count_of batch c)),
       lost := (\<lambda>c. lost s c + given_up batch us (buf s) c)\<rparr>)"

inductive click_reachable :: "click_system \<Rightarrow> bool" where
  fresh: "ClickBuffer f p a = Inr b \<Longrightarrow>
     click_reachable \<lparr>buf = b, recorded = (\<lambda>_. 0), persisted = (\<lambda>_. 0), lost = (\<lambda>_. 0)\<rparr>"
| step: "click_reachable s \<Longrightarrow> click_step s t \<Longrightarrow> click_reachable t"

definition inflight_count :: "click_buffer \<Rightarrow> string \<Rightarrow> nat" where
  "inflight_count b c = (case inflight b of None \<Rightarrow> 0 | Some batch \<Rightarrow> count_of batch c)"

definition in_buffer :: "click_buffer \<Rightarrow> string \<Rightarrow> nat" where
  "in_buffer b c = count_of (pending b) c + inflight_count b c"

lemma in_buffer_begin [simp]: "in_buffer (flush_begin b) c = in_buffer b c"
  by (auto simp: in_buffer_def inflight_count_def flush_begin_def)

lemma in_buffer_record:
  "record_click d b = Inr b' \<Longrightarrow> in_buffer b' c = in_buffer b c + (if c = d then 1 else 0)"
  by (auto simp: record_click_def Let_def split: if_splits)
     (auto simp: in_buffer_def inflight_count_def)

lemma in_buffer_rejected: "buffer_inv b \<Longrightarrow> in_buffer (flush_settle SinkRejected b) c = in_buffer b c"
  by (auto simp: in_buffer_def inflight_count_def flush_settle_def Let_def put_back_count buffer_inv_def
      split: option.splits)

lemma in_buffer_resolved:
  assumes "buffer_inv b" "inflight b = Some batch" "distinct us"
  shows "in_buffer (flush_settle (SinkResolved us) b) c + given_up batch us b c +
           (if c \<in> set us then 0 else count_of batch c) = in_buffer b c"
proof (cases "batch = []")
  case True
  with assms show ?thesis
    by (simp add: in_buffer_def inflight_count_def flush_settle_def given_up_def)
next
  case False
  let ?b = "forget_matched (js_keys batch) us (b\<lparr>inflight := None\<rparr>)"
  have wf: "js_wf (unmatchedAttempts b)" "js_wf (unmatchedAttempts ?b)"
    using assms(1) forget_matched_attempts [of "maxUnmatchedAttempts b" "b\<lparr>inflight := None\<rparr>"]
    by (simp_all add: buffer_inv_def attempts_ok_def)
  have "given_up batch us ?b c = given_up batch us b c"
    using wf(1) by (auto simp: given_up_def forget_matched_count)
  with retry_unmatched_count [OF assms(3) wf(2), of batch c] assms(2) False show ?thesis
    by (simp add: in_buffer_def inflight_count_def flush_settle_def split: if_splits)
qed

definition ledger :: "click_system \<Rightarrow> bool" where
  "ledger s \<longleftrightarrow> buffer_inv (buf s) \<and>
     (\<forall>c. recorded s c = persisted s c + lost s c + in_buffer (buf s) c)"

lemma click_step_ledger:
  assumes "click_step s t" "ledger s"
  shows "ledger t"
  using assms(1)
proof (cases rule: click_step.cases)
  case (click c b)
  then show ?thesis
    using assms(2) record_click_inv [OF _ click(2)] in_buffer_record [OF click(2)]
    by (simp add: ledger_def)
next
  case begin_flush
  then show ?thesis using assms(2) by (simp add: ledger_def flush_begin_inv)
next
  case rejected
  then show ?thesis using assms(2) by (simp add: ledger_def flush_settle_inv in_buffer_rejected)
next
  case (resolved batch us)
  have inv: "buffer_inv (buf s)" using assms(2) by (simp add: ledger_def)
  have "recorded s c = persisted s c + (if c \<in> set us then 0 else count_of batch c) +
          (lost s c + given_up batch us (buf s) c) + in_buffer (flush_settle (SinkResolved us) (buf s)) c" for c
    using assms(2) in_buffer_resolved [OF inv resolved(2,3), of c] by (simp add: ledger_def)
  with resolved(1) inv show ?thesis by (simp add: ledger_def flush_settle_inv)
qed

lemma click_reachable_ledger: "click_reachable s \<Longrightarrow> ledger s"
proof (induction rule: click_reachable.induct)
  case (fresh f p a b)
  then have "pending b = []" "inflight b = None"
    by (cases p; cases a; auto simp: ClickBuffer_def split: if_splits)+
  with fresh show ?case by (simp add: ledger_def ClickBuffer_inv in_buffer_def inflight_count_def)
next
  case (step s t)
  then show ?case by (blast intro: click_step_ledger)
qed

text \<open>C3: Whatever the interleaving of clicks, flushes and sink answers, every click recorded for a code
  is stored, given up after the retry limit, pending, or in the batch in flight; and the pending
  counter is exact.\<close>

theorem clicks_conserved:
  assumes "click_reachable s"
  shows "recorded s c = persisted s c + lost s c + count_of (pending (buf s)) c + inflight_count (buf s) c
         \<and> pendingClicks (buf s) = total (pending (buf s))"
  using click_reachable_ledger [OF assms]
  by (simp add: ledger_def in_buffer_def buffer_inv_def pendingClicks_def)

definition demo_buffer :: click_buffer where
  "demo_buffer = \<lparr>pending = [], pendingTotal = 0, timer = False, inflight = None, closed = False,
     unmatchedAttempts = [], dropped = 0, maxPendingClicks = 1, maxUnmatchedAttempts = 2\<rparr>"

theorem clicks_conserved_witness:
  "\<exists>s. click_reachable s \<and> inflight (buf s) = Some [(''docs'', 1)] \<and>
     recorded s ''docs'' = persisted s ''docs'' + lost s ''docs'' + count_of (pending (buf s)) ''docs'' +
       inflight_count (buf s) ''docs''"
proof -
  let ?s0 = "\<lparr>buf = demo_buffer, recorded = (\<lambda>_. 0), persisted = (\<lambda>_. 0), lost = (\<lambda>_. 0)\<rparr>"
  let ?b = "demo_buffer\<lparr>inflight := Some [(''docs'', 1)]\<rparr>"
  have "ClickBuffer (IntNum 1) (IntNum 1) (IntNum 2) = Inr demo_buffer"
    by (simp add: ClickBuffer_def demo_buffer_def isSafeInteger_def MAX_SAFE_INTEGER_def)
  then have r0: "click_reachable ?s0" by (rule click_reachable.fresh)
  have "record_click ''docs'' (buf ?s0) = Inr ?b"
    by (simp add: record_click_def demo_buffer_def flush_begin_def bump_def)
  from click_reachable.step [OF r0 click_step.click [OF this]]
  have r1: "click_reachable (?s0\<lparr>buf := ?b, recorded := (recorded ?s0)(''docs'' := recorded ?s0 ''docs'' + 1)\<rparr>)"
    (is "click_reachable ?s1") .
  from clicks_conserved [OF r1, of "''docs''"] r1 show ?thesis by (intro exI [of _ ?s1]) simp
qed


section \<open>Closing\<close>

text \<open>After \<open>k\<close> flushes in a row, a code still pending has been unmatched at least \<open>k\<close> times.\<close>

definition tried :: "nat \<Rightarrow> click_buffer \<Rightarrow> bool" where
  "tried k s \<longleftrightarrow> (\<forall>c. c \<in> fst ` set (pending s) \<longrightarrow> k \<le> count_of (unmatchedAttempts s) c)"

lemma attempts_lt: "buffer_inv s \<Longrightarrow> count_of (unmatchedAttempts s) c < maxUnmatchedAttempts s"
  by (auto simp: buffer_inv_def attempts_ok_def count_of_def split: option.split)

lemma tried_limit: "buffer_inv s \<Longrightarrow> tried k s \<Longrightarrow> maxUnmatchedAttempts s \<le> k \<Longrightarrow> pending s = []"
proof (rule ccontr)
  assume h: "buffer_inv s" "tried k s" "maxUnmatchedAttempts s \<le> k" "pending s \<noteq> []"
  then obtain c n m where "pending s = (c, n) # m" by (metis list.exhaust prod.exhaust)
  with h(2) have "k \<le> count_of (unmatchedAttempts s) c" by (simp add: tried_def)
  with h(3) attempts_lt [OF h(1), of c] show False by simp
qed

text \<open>One round of retries: the invariant of the loop over the unmatched codes.\<close>

definition retried :: "nat \<Rightarrow> click_map \<Rightarrow> string list \<Rightarrow> click_buffer \<Rightarrow> bool" where
  "retried k batch us s \<longleftrightarrow>
     (\<forall>c. c \<in> fst ` set (pending s) \<longrightarrow> Suc k \<le> count_of (unmatchedAttempts s) c) \<and>
     (\<forall>c. c \<in> set us \<longrightarrow> c \<in> fst ` set batch \<longrightarrow> c \<notin> fst ` set (pending s) \<and> k \<le> count_of (unmatchedAttempts s) c)"

lemma retry_unmatched_tried:
  "retried k batch us s \<Longrightarrow> js_wf (unmatchedAttempts s) \<Longrightarrow> distinct us \<Longrightarrow>
     tried (Suc k) (retry_unmatched batch us s)"
proof (induction batch us s rule: retry_unmatched.induct)
  case (1 batch s)
  then show ?case by (simp add: retried_def tried_def)
next
  case (2 batch code us s)
  show ?case
  proof (cases "js_get batch code")
    case None
    with 2 show ?thesis by (simp add: retried_def)
  next
    case (Some n)
    then have mem: "code \<in> fst ` set batch"
      using js_get_in_set by force
    let ?a = "count_of (unmatchedAttempts s) code + 1"
    let ?s = "if maxUnmatchedAttempts s \<le> ?a
                then s\<lparr>unmatchedAttempts := js_delete (unmatchedAttempts s) code,
                       dropped := dropped s + n\<rparr>
                else s\<lparr>unmatchedAttempts := js_set (unmatchedAttempts s) code ?a,
                       pending := bump (pending s) code n,
                       pendingTotal := pendingTotal s + n\<rparr>"
    have "retried k batch us ?s"
      using "2.prems" mem by (auto simp: retried_def count_of_delete)
    moreover have "js_wf (unmatchedAttempts ?s)" using "2.prems"(2) by simp
    ultimately have "tried (Suc k) (retry_unmatched batch us ?s)"
      using "2.prems"(3) by (intro "2.IH"(2) [OF Some refl]) simp_all
    with Some show ?thesis by (simp add: Let_def split: if_splits)
  qed
qed

lemma flush_round_tried:
  assumes "buffer_inv s" "inflight s = None" "pending s \<noteq> []" "tried k s" "distinct us"
  shows "tried (Suc k) (flush_settle (SinkResolved us) (flush_begin s))"
proof -
  let ?s = "forget_matched (js_keys (pending s)) us (s\<lparr>pending := [], pendingTotal := 0, inflight := None\<rparr>)"
  have wf: "js_wf (unmatchedAttempts s)" using assms(1) by (simp add: buffer_inv_def attempts_ok_def)
  have "attempts_ok (maxUnmatchedAttempts s) (unmatchedAttempts ?s)"
    using assms(1) by (intro forget_matched_attempts) (simp add: buffer_inv_def)
  then have wf': "js_wf (unmatchedAttempts ?s)" by (simp add: attempts_ok_def)
  have "retried k (pending s) us ?s"
    using assms(4) wf by (auto simp: retried_def tried_def forget_matched_count)
  from retry_unmatched_tried [OF this wf' assms(5)]
  have "tried (Suc k) (retry_unmatched (pending s) us ?s)" .
  moreover have "flush_settle (SinkResolved us) (flush_begin s) = retry_unmatched (pending s) us ?s"
    using assms(2,3) by (simp add: flush_settle_def flush_begin_def)
  ultimately show ?thesis by simp
qed

lemma flush_round_frame [simp]:
  "maxUnmatchedAttempts (flush_begin s) = maxUnmatchedAttempts s"
  "maxUnmatchedAttempts (flush_settle out s) = maxUnmatchedAttempts s"
  "inflight (flush_settle out s) = None" "closed (flush_settle out s) = closed s"
  "closed (flush_begin s) = closed s"
  by (auto simp: flush_begin_def flush_settle_def Let_def split: option.split sink_outcome.split)

lemma close_loop_terminates:
  "buffer_inv s \<Longrightarrow> inflight s = None \<Longrightarrow> tried k s \<Longrightarrow> list_all distinct uss \<Longrightarrow>
   maxUnmatchedAttempts s \<le> k + length uss \<Longrightarrow>
   \<exists>t. close_loop (map SinkResolved uss) s = Some (CloseDone, t) \<and> pending t = [] \<and> closed t = closed s"
proof (induction uss arbitrary: s k)
  case Nil
  then have "pending s = []" using tried_limit by simp
  then show ?case by (simp add: close_loop.simps)
next
  case (Cons us uss)
  show ?case
  proof (cases "pending s = []")
    case True
    then show ?thesis by (simp add: close_loop.simps [of _ s])
  next
    case False
    let ?s = "flush_settle (SinkResolved us) (flush_begin s)"
    have "buffer_inv ?s" by (intro flush_settle_inv flush_begin_inv Cons.prems(1))
    moreover have "tried (Suc k) ?s"
      using Cons.prems False by (intro flush_round_tried) simp_all
    ultimately have "\<exists>t. close_loop (map SinkResolved uss) ?s = Some (CloseDone, t) \<and> pending t = [] \<and>
        closed t = closed ?s"
      using Cons.prems by (intro Cons.IH [where k = "Suc k"]) simp_all
    with False show ?thesis by (simp add: close_loop.simps [of _ s])
  qed
qed

lemma close_loop_inv:
  "buffer_inv s \<Longrightarrow> close_loop outs s = Some (r, t) \<Longrightarrow> buffer_inv t"
proof (induction outs arbitrary: s)
  case Nil
  then show ?case by (simp add: close_loop.simps [of _ s] split: if_splits)
next
  case (Cons out outs)
  have "buffer_inv (flush_settle out (flush_begin s))"
    by (intro flush_settle_inv flush_begin_inv Cons.prems(1))
  with Cons show ?case
    by (cases out) (auto simp: close_loop.simps [of _ s] split: if_splits)
qed



definition two_pending :: click_buffer where
  "two_pending = demo_buffer\<lparr>pending := [(''docs'', 3), (''home'', 1)], pendingTotal := 4\<rparr>"




end
