(* ===== verification/Link.thy ===== *)
theory Link
  imports Prelude
begin

text \<open>
  \<open>src/src/domain/link.ts\<close>: links, the input of \<open>create\<close>, pending links, and the \<open>LinkStore\<close>
  interface as a locale.  A \<open>Date\<close> is its time value, an integer of milliseconds.
\<close>

record link =
  link_code :: string
  link_targetUrl :: string
  link_createdAt :: int
  link_expiresAt :: "int option"
  link_clicks :: int

datatype code_source = Custom | Generated

record create_input =
  input_code :: string
  input_targetUrl :: string
  input_expiresAt :: "int option"
  input_codeSource :: code_source

record pending_link =
  pending_code :: string
  pending_targetUrl :: string
  pending_createdAt :: int
  pending_expiresAt :: "int option"

text \<open>\<open>/^[A-Za-z0-9_-]{4,32}$/\<close>, the pattern of link codes.\<close>

definition code_char :: "char \<Rightarrow> bool" where
  "code_char c \<longleftrightarrow> (CHR ''A'' \<le> c \<and> c \<le> CHR ''Z'') \<or> (CHR ''a'' \<le> c \<and> c \<le> CHR ''z'') \<or>
     (CHR ''0'' \<le> c \<and> c \<le> CHR ''9'') \<or> c = CHR ''_'' \<or> c = CHR ''-''"

definition CODE_PATTERN :: "string \<Rightarrow> bool" where
  "CODE_PATTERN s \<longleftrightarrow> 4 \<le> length s \<and> length s \<le> 32 \<and> list_all code_char s"

definition expired :: "int \<Rightarrow> int option \<Rightarrow> bool" where
  "expired now e \<longleftrightarrow> (case e of None \<Rightarrow> False | Some t \<Rightarrow> t \<le> now)"

lemma expired_simps [simp]: "expired now None = False" "expired now (Some t) = (t \<le> now)"
  by (simp_all add: expired_def)

lemma expired_mono: "now \<le> now' \<Longrightarrow> expired now e \<Longrightarrow> expired now' e"
  by (cases e) simp_all

section \<open>The interface of a link store\<close>

text \<open>
  What the application relies on: a created link is found until it expires, a code that is in use
  is refused, a click adds one to the link it names and changes no other, and looking up never
  invents a link.  \<open>create\<close> and \<open>find\<close> take the clock.
\<close>

locale link_store =
  fixes create :: "int \<Rightarrow> create_input \<Rightarrow> 's \<Rightarrow> 's \<times> link option"
    and find :: "int \<Rightarrow> string \<Rightarrow> 's \<Rightarrow> 's \<times> link option"
    and recordClick :: "string \<Rightarrow> 's \<Rightarrow> 's"
    and inv :: "'s \<Rightarrow> bool"
    and accepts :: "create_input \<Rightarrow> bool"
  assumes create_inv: "inv s \<Longrightarrow> accepts i \<Longrightarrow> inv (fst (create now i s))"
    and find_inv: "inv s \<Longrightarrow> inv (fst (find now c s))"
    and click_inv: "inv s \<Longrightarrow> inv (recordClick c s)"
    and create_link: "inv s \<Longrightarrow> accepts i \<Longrightarrow> snd (create now i s) = Some l \<Longrightarrow>
       l = \<lparr>link_code = input_code i, link_targetUrl = input_targetUrl i, link_createdAt = now,
            link_expiresAt = input_expiresAt i, link_clicks = 0\<rparr>"
    and find_created: "inv s \<Longrightarrow> accepts i \<Longrightarrow> snd (create now i s) = Some l \<Longrightarrow>
       \<not> expired now' (input_expiresAt i) \<Longrightarrow> snd (find now' (input_code i) (fst (create now i s))) = Some l"
    and create_taken: "inv s \<Longrightarrow> accepts i \<Longrightarrow> snd (find now' (input_code i) s) = Some l \<Longrightarrow>
       snd (create now i s) = None"
    and create_refused: "inv s \<Longrightarrow> accepts i \<Longrightarrow> snd (create now i s) = None \<Longrightarrow>
       snd (find now' c (fst (create now i s))) = snd (find now' c s)"
    and find_find: "inv s \<Longrightarrow> snd (find now' c (fst (find now d s))) = Some l \<Longrightarrow> snd (find now' c s) = Some l"
    and find_click: "inv s \<Longrightarrow> snd (find now c (recordClick d s)) =
       map_option (\<lambda>l. if c = d then l\<lparr>link_clicks := link_clicks l + 1\<rparr> else l) (snd (find now c s))"
begin

text \<open>A second creation under a code in use is refused and changes no lookup.\<close>

lemma no_hijack:
  assumes "inv s" "accepts i" "accepts j" "snd (create now i s) = Some l"
    and "input_code j = input_code i" "\<not> expired now' (input_expiresAt i)"
  shows "snd (create now' j (fst (create now i s))) = None"
    and "snd (find t c (fst (create now' j (fst (create now i s))))) = snd (find t c (fst (create now i s)))"
proof -
  let ?s = "fst (create now i s)"
  have inv: "inv ?s" using assms by (simp add: create_inv)
  have "snd (find now' (input_code j) ?s) = Some l" using assms by (simp add: find_created)
  then show none: "snd (create now' j ?s) = None" using inv assms(3) by (intro create_taken) simp_all
  show "snd (find t c (fst (create now' j ?s))) = snd (find t c ?s)"
    using inv assms(3) none by (rule create_refused)
qed

lemma click_counted:
  assumes "inv s" "accepts i" "snd (create now i s) = Some l" "\<not> expired now' (input_expiresAt i)"
  shows "snd (find now' (input_code i) (recordClick (input_code i) (fst (create now i s)))) =
           Some (l\<lparr>link_clicks := 1\<rparr>)"
  using assms create_link [OF assms(1-3)] by (simp add: find_click create_inv find_created)

end

text \<open>A store that never forgets an unexpired link: creating one keeps all others.\<close>

locale durable_link_store = link_store +
  assumes create_keeps: "inv s \<Longrightarrow> accepts i \<Longrightarrow> snd (find now' c s) = Some l \<Longrightarrow>
       snd (find now' c (fst (create now i s))) = Some l"
    and find_keeps: "inv s \<Longrightarrow> snd (find now' c s) = Some l \<Longrightarrow> snd (find now' c (fst (find now d s))) = Some l"

text \<open>Sequences of store operations.\<close>

datatype store_op = OpCreate int create_input | OpFind int string | OpClick string

fun run_op ::
  "(int \<Rightarrow> create_input \<Rightarrow> 's \<Rightarrow> 's \<times> link option) \<Rightarrow> (int \<Rightarrow> string \<Rightarrow> 's \<Rightarrow> 's \<times> link option) \<Rightarrow>
   (string \<Rightarrow> 's \<Rightarrow> 's) \<Rightarrow> store_op \<Rightarrow> 's \<Rightarrow> 's" where
  "run_op cr fi cl (OpCreate now i) s = fst (cr now i s)"
| "run_op cr fi cl (OpFind now c) s = fst (fi now c s)"
| "run_op cr fi cl (OpClick c) s = cl c s"

fun op_ok :: "(create_input \<Rightarrow> bool) \<Rightarrow> store_op \<Rightarrow> bool" where
  "op_ok acc (OpCreate now i) = acc i"
| "op_ok acc (OpFind now c) = True"
| "op_ok acc (OpClick c) = True"

fun clicks_on :: "string \<Rightarrow> store_op list \<Rightarrow> int" where
  "clicks_on c [] = 0"
| "clicks_on c (OpClick d # ops) = (if c = d then 1 else 0) + clicks_on c ops"
| "clicks_on c (_ # ops) = clicks_on c ops"

context durable_link_store
begin

lemma run_op_inv: "inv s \<Longrightarrow> op_ok accepts a \<Longrightarrow> inv (run_op create find recordClick a s)"
  by (cases a) (simp_all add: create_inv find_inv click_inv)

text \<open>
  Link integrity: whatever is done to the store, an unexpired link keeps leading to its target, and
  its counter grows by exactly the clicks on it.
\<close>

lemma integrity:
  assumes "inv s" "list_all (op_ok accepts) ops" "snd (find now c s) = Some l"
  shows "snd (find now c (fold (run_op create find recordClick) ops s)) =
           Some (l\<lparr>link_clicks := link_clicks l + clicks_on c ops\<rparr>)"
  using assms
proof (induction ops arbitrary: s l)
  case (Cons a ops)
  let ?s = "run_op create find recordClick a s"
  have inv: "inv ?s" using Cons.prems by (simp add: run_op_inv)
  show ?case
  proof (cases a)
    case (OpCreate t i)
    then have "snd (find now c ?s) = Some l" using Cons.prems by (simp add: create_keeps)
    with Cons.IH [OF inv _ this] Cons.prems OpCreate show ?thesis by simp
  next
    case (OpFind t d)
    then have "snd (find now c ?s) = Some l" using Cons.prems by (simp add: find_keeps)
    with Cons.IH [OF inv _ this] Cons.prems OpFind show ?thesis by simp
  next
    case (OpClick d)
    let ?l = "if c = d then l\<lparr>link_clicks := link_clicks l + 1\<rparr> else l"
    have "snd (find now c ?s) = Some ?l" using Cons.prems OpClick by (simp add: find_click)
    with Cons.IH [OF inv _ this] Cons.prems OpClick show ?thesis by (simp add: add.assoc)
  qed
qed simp

end

end
