(* ===== verification/Memory_Store.thy ===== *)
theory Memory_Store
  imports Link
begin

text \<open>
  \<open>src/src/store/memory-link-store.ts\<close>: an insertion-ordered map of links bounded by \<open>maxLinks\<close>; a
  full store evicts the oldest link.
\<close>

record memory_store =
  links :: "(string, link) js_map"
  maxLinks :: nat

definition mem_create :: "int \<Rightarrow> create_input \<Rightarrow> memory_store \<Rightarrow> memory_store \<times> link option" where
  "mem_create now input s =
     (if js_has (links s) (input_code input) then (s, None)
      else let kept = (if maxLinks s \<le> length (links s)
                       then (case links s of [] \<Rightarrow> [] | (oldest, _) # _ \<Rightarrow> js_delete (links s) oldest)
                       else links s);
               l = \<lparr>link_code = input_code input, link_targetUrl = input_targetUrl input,
                    link_createdAt = now, link_expiresAt = input_expiresAt input, link_clicks = 0\<rparr>
           in (s\<lparr>links := js_set kept (link_code l) l\<rparr>, Some l))"

definition mem_find :: "int \<Rightarrow> string \<Rightarrow> memory_store \<Rightarrow> memory_store \<times> link option" where
  "mem_find now code s =
     (case js_get (links s) code of
        None \<Rightarrow> (s, None)
      | Some l \<Rightarrow> if expired now (link_expiresAt l)
                 then (s\<lparr>links := js_delete (links s) code\<rparr>, None)
                 else (s, Some l))"

definition mem_recordClick :: "string \<Rightarrow> memory_store \<Rightarrow> memory_store" where
  "mem_recordClick code s =
     (case js_get (links s) code of
        None \<Rightarrow> s
      | Some l \<Rightarrow> s\<lparr>links := js_set (links s) code (l\<lparr>link_clicks := link_clicks l + 1\<rparr>)\<rparr>)"

definition mem_size :: "memory_store \<Rightarrow> nat" where "mem_size s = length (links s)"

definition mem_inv :: "memory_store \<Rightarrow> bool" where
  "mem_inv s \<longleftrightarrow> js_wf (links s) \<and> mem_size s \<le> max 1 (maxLinks s)"

lemmas mem_defs = mem_create_def mem_find_def mem_recordClick_def mem_size_def mem_inv_def

definition kept_links :: "memory_store \<Rightarrow> (string, link) js_map" where
  "kept_links s = (if maxLinks s \<le> length (links s) then tl (links s) else links s)"

lemma mem_create_eq:
  "mem_create now i s =
     (if js_has (links s) (input_code i) then (s, None)
      else let l = \<lparr>link_code = input_code i, link_targetUrl = input_targetUrl i,
                    link_createdAt = now, link_expiresAt = input_expiresAt i, link_clicks = 0\<rparr>
           in (s\<lparr>links := js_set (kept_links s) (input_code i) l\<rparr>, Some l))"
  by (auto simp: mem_create_def kept_links_def Let_def split: list.split)

lemma kept_links_wf [simp]: "js_wf (links s) \<Longrightarrow> js_wf (kept_links s)"
  by (simp add: kept_links_def distinct_tl map_tl)

lemma kept_links_length: "mem_inv s \<Longrightarrow> length (kept_links s) < max 1 (maxLinks s)"
  by (auto simp: kept_links_def mem_inv_def mem_size_def)

lemma kept_links_get: "js_get (kept_links s) c = Some l \<Longrightarrow> js_wf (links s) \<Longrightarrow> js_get (links s) c = Some l"
  by (cases "links s") (auto simp: kept_links_def js_get_iff split: if_splits)

lemma mem_create_inv: "mem_inv s \<Longrightarrow> mem_inv (fst (mem_create now i s))"
  using kept_links_length [of s]
  by (auto simp: mem_create_eq mem_inv_def mem_size_def Let_def length_js_set)

lemma mem_find_inv: "mem_inv s \<Longrightarrow> mem_inv (fst (mem_find now c s))"
  by (auto simp: mem_defs length_js_delete split: option.split)

lemma mem_click_inv: "mem_inv s \<Longrightarrow> mem_inv (mem_recordClick c s)"
  by (auto simp: mem_defs length_js_set js_get_None_iff dest: js_get_in_set split: option.split)
     (force dest: js_get_in_set)+

interpretation memory: link_store mem_create mem_find mem_recordClick mem_inv "\<lambda>_. True"
proof unfold_locales
  show "mem_inv (fst (mem_create now i s))" if "mem_inv s" for s now i
    using that by (rule mem_create_inv)
  show "mem_inv (fst (mem_find now c s))" if "mem_inv s" for s now c
    using that by (rule mem_find_inv)
  show "mem_inv (mem_recordClick c s)" if "mem_inv s" for s c
    using that by (rule mem_click_inv)
qed (auto simp: mem_create_eq mem_find_def mem_recordClick_def mem_inv_def js_has_def Let_def js_get_delete
    split: option.splits if_splits)


definition demo_input :: create_input where
  "demo_input = \<lparr>input_code = ''docs'', input_targetUrl = ''https://example.com/'',
     input_expiresAt = Some 500, input_codeSource = Custom\<rparr>"


end
