(* ===== verification/Postgres_Store.thy ===== *)
theory Postgres_Store
  imports Link
begin

text \<open>
  \<open>src/src/store/postgres-link-store.ts\<close> over the table of \<open>src/migrations/001_create_links.sql\<close>.
  The database engine is a parameter: a record of the three kinds of statement the sources
  send (scan, \<open>INSERT ... ON CONFLICT (code) DO NOTHING RETURNING\<close>, \<open>UPDATE ... RETURNING\<close>).  The
  SQL texts are translated here: which rows they build, which condition they put in \<open>WHERE\<close>,
  what they return.  The locale \<open>postgres\<close> states what the engine is documented to do.
  Timestamps are kept to the millisecond, the precision of a JavaScript \<open>Date\<close>.
\<close>

section \<open>The table and the engine\<close>

record link_row =
  row_code :: string
  target_url :: string
  created_at :: int
  expires_at :: "int option"
  clicks :: int

text \<open>The constraints of the table (the upper end of \<open>BIGINT\<close>, out of reach for clicks, is left out).\<close>

definition row_ok :: "link_row \<Rightarrow> bool" where
  "row_ok r \<longleftrightarrow> CODE_PATTERN (row_code r) \<and> 1 \<le> length (target_url r) \<and> length (target_url r) \<le> 2048 \<and>
     0 \<le> clicks r"

record 'p pg_engine =
  pg_scan :: "'p \<Rightarrow> link_row list"
  pg_insert :: "link_row list \<Rightarrow> 'p \<Rightarrow> 'p \<times> link_row list option"
  pg_update :: "(link_row \<Rightarrow> bool) \<Rightarrow> (link_row \<Rightarrow> link_row) \<Rightarrow> 'p \<Rightarrow> 'p \<times> link_row list option"

datatype store_error = QueryFailed | ConstraintViolated | BadClickCount

text \<open>The reply of a statement as the driver hands it over: rejected, or the returned rows.\<close>

definition reply :: "'a option option \<Rightarrow> store_error + 'a" where
  "reply r = (case r of None \<Rightarrow> Inl QueryFailed | Some None \<Rightarrow> Inl ConstraintViolated | Some (Some x) \<Rightarrow> Inr x)"

lemma reply_simps [simp]:
  "reply None = Inl QueryFailed" "reply (Some None) = Inl ConstraintViolated" "reply (Some (Some x)) = Inr x"
  by (simp_all add: reply_def)

section \<open>The store\<close>

definition mapLink :: "link_row \<Rightarrow> link" where
  "mapLink row = \<lparr>link_code = row_code row, link_targetUrl = target_url row,
     link_createdAt = created_at row, link_expiresAt = expires_at row, link_clicks = clicks row\<rparr>"

definition first_link :: "link_row list \<Rightarrow> link option" where
  "first_link rows = (case rows of [] \<Rightarrow> None | row # _ \<Rightarrow> Some (mapLink row))"

definition pg_create ::
  "'p pg_engine \<Rightarrow> net \<Rightarrow> int \<Rightarrow> create_input \<Rightarrow> 'p \<Rightarrow> 'p \<times> (store_error + link option)" where
  "pg_create E n now input p =
     (let row = \<lparr>row_code = input_code input, target_url = input_targetUrl input, created_at = now,
                 expires_at = input_expiresAt input, clicks = 0\<rparr>;
          (p', r) = remote n (pg_insert E [row]) p
      in (p', map_sum id first_link (reply r)))"

definition pg_find :: "'p pg_engine \<Rightarrow> net \<Rightarrow> int \<Rightarrow> string \<Rightarrow> 'p \<Rightarrow> store_error + link option" where
  "pg_find E n now code p =
     (if n = NetOk
      then Inr (first_link (filter (\<lambda>r. row_code r = code \<and> \<not> expired now (expires_at r)) (pg_scan E p)))
      else Inl QueryFailed)"

definition pg_recordClicks ::
  "'p pg_engine \<Rightarrow> net \<Rightarrow> string \<Rightarrow> js_number \<Rightarrow> 'p \<Rightarrow> 'p \<times> (store_error + unit)" where
  "pg_recordClicks E n code count p =
     (case count of
        NotInt \<Rightarrow> (p, Inl BadClickCount)
      | IntNum k \<Rightarrow>
          if \<not> isSafeInteger k \<or> k < 1 then (p, Inl BadClickCount)
          else let (p', r) = remote n (pg_update E (\<lambda>row. row_code row = code)
                                        (\<lambda>row. row\<lparr>clicks := clicks row + k\<rparr>)) p
               in (p', map_sum id (\<lambda>_. ()) (reply r)))"

definition pg_recordClick ::
  "'p pg_engine \<Rightarrow> net \<Rightarrow> string \<Rightarrow> 'p \<Rightarrow> 'p \<times> (store_error + unit)" where
  "pg_recordClick E n code p = pg_recordClicks E n code (IntNum 1) p"

text \<open>
  \<open>recordClickBatch\<close>: the batch is unnested into a relation of codes and counts and joined to the
  table; the result are the codes of the batch that matched no row.
\<close>

definition pg_recordClickBatch ::
  "'p pg_engine \<Rightarrow> net \<Rightarrow> (string, int) js_map \<Rightarrow> 'p \<Rightarrow> 'p \<times> (store_error + string list)" where
  "pg_recordClickBatch E n batch p =
     (if batch = [] then (p, Inr [])
      else if \<exists>(code, count) \<in> set batch. \<not> isSafeInteger count \<or> count < 1 then (p, Inl BadClickCount)
      else let codes = js_keys batch;
               (p', r) = remote n
                 (pg_update E (\<lambda>row. js_has batch (row_code row))
                    (\<lambda>row. row\<lparr>clicks := clicks row +
                       (case js_get batch (row_code row) of None \<Rightarrow> 0 | Some k \<Rightarrow> k)\<rparr>)) p
           in (p', map_sum id (\<lambda>rows. filter (\<lambda>code. code \<notin> row_code ` set rows) codes) (reply r)))"

record batch_result =
  persisted_codes :: "string list"
  conflict_links :: "pending_link list"

fun dedupe :: "pending_link list \<Rightarrow> (string, pending_link) js_map \<Rightarrow> (string, pending_link) js_map" where
  "dedupe [] unique = unique"
| "dedupe (l # ls) unique =
     dedupe ls (if js_has unique (pending_code l) then unique else js_set unique (pending_code l) l)"

definition pending_row :: "pending_link \<Rightarrow> link_row" where
  "pending_row l = \<lparr>row_code = pending_code l, target_url = pending_targetUrl l,
     created_at = pending_createdAt l, expires_at = pending_expiresAt l, clicks = 0\<rparr>"

lemma pending_row_sel:
  "row_code (pending_row l) = pending_code l" "target_url (pending_row l) = pending_targetUrl l"
  "created_at (pending_row l) = pending_createdAt l"
  by (simp_all add: pending_row_def)

definition is_replay :: "link_row list \<Rightarrow> pending_link \<Rightarrow> bool" where
  "is_replay rows l =
     (case List.find (\<lambda>r. row_code r = pending_code l) rows of
        None \<Rightarrow> False
      | Some row \<Rightarrow> target_url row = pending_targetUrl l \<and> created_at row = pending_createdAt l)"

text \<open>
  \<open>insertPendingBatch\<close> sends one or two statements: the insert, and, if some links were not
  inserted, the lookup of the rows that hold their codes.  Another client may write in between;
  \<open>between\<close> is what happens to the database there.
\<close>

definition insertPendingBatch ::
  "'p pg_engine \<Rightarrow> net \<Rightarrow> net \<Rightarrow> ('p \<Rightarrow> 'p) \<Rightarrow> pending_link list \<Rightarrow> 'p \<Rightarrow> 'p \<times> (store_error + batch_result)" where
  "insertPendingBatch E n1 n2 between ls p =
     (if ls = [] then (p, Inr \<lparr>persisted_codes = [], conflict_links = []\<rparr>)
      else let batch = map snd (dedupe ls []);
               (p', r) = remote n1 (pg_insert E (map pending_row batch)) p
           in case reply r of
                Inl e \<Rightarrow> (p', Inl e)
              | Inr rows \<Rightarrow>
                  (let persisted = remdups (map row_code rows);
                       notInserted = filter (\<lambda>l. pending_code l \<notin> set persisted) batch
                   in if notInserted = []
                      then (p', Inr \<lparr>persisted_codes = persisted, conflict_links = []\<rparr>)
                      else let p'' = between p'
                           in if n2 \<noteq> NetOk then (p'', Inl QueryFailed)
                              else let existing = filter (\<lambda>row. row_code row \<in> pending_code ` set notInserted)
                                                    (pg_scan E p'');
                                       replayed = filter (is_replay existing) notInserted
                                   in (p'', Inr \<lparr>persisted_codes = persisted @ map pending_code replayed,
                                        conflict_links = filter (\<lambda>l. \<not> is_replay existing l) notInserted\<rparr>)))"

definition pg_size :: "'p pg_engine \<Rightarrow> net \<Rightarrow> 'p \<Rightarrow> store_error + nat" where
  "pg_size E n p = (if n = NetOk then Inr (length (pg_scan E p)) else Inl QueryFailed)"

text \<open>The planner's estimate of the number of rows, \<open>reltuples\<close>, is a parameter; it is \<open>-1\<close> before the first analysis.\<close>

definition pg_estimatedSize :: "('p \<Rightarrow> int) \<Rightarrow> net \<Rightarrow> 'p \<Rightarrow> store_error + int" where
  "pg_estimatedSize reltuples n p = (if n = NetOk then Inr (max (reltuples p) 0) else Inl QueryFailed)"

definition pg_isHealthy :: "net \<Rightarrow> bool" where
  "pg_isHealthy n \<longleftrightarrow> n = NetOk"


section \<open>What the engine promises\<close>

text \<open>The rows an insert adds: those whose code is neither in the table nor earlier in the statement.\<close>

fun fresh_rows :: "string set \<Rightarrow> link_row list \<Rightarrow> link_row list" where
  "fresh_rows X [] = []"
| "fresh_rows X (r # rs) =
     (if row_code r \<in> X then fresh_rows X rs else r # fresh_rows (insert (row_code r) X) rs)"

abbreviation codes_in :: "'p pg_engine \<Rightarrow> 'p \<Rightarrow> string set" where
  "codes_in E p \<equiv> row_code ` set (pg_scan E p)"

locale postgres =
  fixes E :: "'p pg_engine"
  assumes primary_key: "distinct (map row_code (pg_scan E p))"
    and checked: "list_all row_ok (pg_scan E p)"
    and insert_ok: "list_all row_ok rows \<Longrightarrow>
       \<exists>ret. snd (pg_insert E rows p) = Some ret \<and> distinct (map row_code ret) \<and>
         set ret = set (fresh_rows (codes_in E p) rows) \<and>
         set (pg_scan E (fst (pg_insert E rows p))) = set (pg_scan E p) \<union> set ret"
    and insert_bad: "\<not> list_all row_ok rows \<Longrightarrow> pg_insert E rows p = (p, None)"
    and update_ok: "(\<And>r. r \<in> set (pg_scan E p) \<Longrightarrow> P r \<Longrightarrow> row_ok (f r) \<and> row_code (f r) = row_code r) \<Longrightarrow>
       \<exists>ret. snd (pg_update E P f p) = Some ret \<and> set ret = f ` {r \<in> set (pg_scan E p). P r} \<and>
         set (pg_scan E (fst (pg_update E P f p))) = (\<lambda>r. if P r then f r else r) ` set (pg_scan E p)"

text \<open>The store operations on a healthy connection, in the shape of the \<open>LinkStore\<close> interface.\<close>

definition pg_create_ok :: "'p pg_engine \<Rightarrow> int \<Rightarrow> create_input \<Rightarrow> 'p \<Rightarrow> 'p \<times> link option" where
  "pg_create_ok E now i p =
     (case pg_create E NetOk now i p of (p', Inr l) \<Rightarrow> (p', l) | (p', Inl _) \<Rightarrow> (p', None))"

definition pg_find_ok :: "'p pg_engine \<Rightarrow> int \<Rightarrow> string \<Rightarrow> 'p \<Rightarrow> 'p \<times> link option" where
  "pg_find_ok E now c p = (p, case pg_find E NetOk now c p of Inr l \<Rightarrow> l | Inl _ \<Rightarrow> None)"

definition pg_click_ok :: "'p pg_engine \<Rightarrow> string \<Rightarrow> 'p \<Rightarrow> 'p" where
  "pg_click_ok E c p = fst (pg_recordClick E NetOk c p)"

definition input_ok :: "create_input \<Rightarrow> bool" where
  "input_ok i \<longleftrightarrow> CODE_PATTERN (input_code i) \<and> 1 \<le> length (input_targetUrl i) \<and>
     length (input_targetUrl i) \<le> 2048"

definition input_row :: "int \<Rightarrow> create_input \<Rightarrow> link_row" where
  "input_row now i = \<lparr>row_code = input_code i, target_url = input_targetUrl i, created_at = now,
     expires_at = input_expiresAt i, clicks = 0\<rparr>"

lemma row_ok_input [simp]: "row_ok (input_row now i) \<longleftrightarrow> input_ok i"
  by (simp add: row_ok_def input_row_def input_ok_def)

context postgres
begin

lemma row_unique:
  "r \<in> set (pg_scan E p) \<Longrightarrow> r' \<in> set (pg_scan E p) \<Longrightarrow> row_code r = row_code r' \<Longrightarrow> r = r'"
  using primary_key [of p] by (auto simp: distinct_map dest: inj_onD)

lemma find_iff:
  "snd (pg_find_ok E now c p) = Some l \<longleftrightarrow>
     (\<exists>r \<in> set (pg_scan E p). row_code r = c \<and> \<not> expired now (expires_at r) \<and> l = mapLink r)"
proof -
  let ?rows = "filter (\<lambda>r. row_code r = c \<and> \<not> expired now (expires_at r)) (pg_scan E p)"
  have mem: "set ?rows = {r \<in> set (pg_scan E p). row_code r = c \<and> \<not> expired now (expires_at r)}"
    by auto
  have "snd (pg_find_ok E now c p) = first_link ?rows" by (simp add: pg_find_ok_def pg_find_def)
  also have "first_link ?rows = Some l \<longleftrightarrow> (\<exists>r \<in> set ?rows. l = mapLink r)"
  proof (cases ?rows)
    case Nil
    then show ?thesis by (simp only: first_link_def) simp
  next
    case (Cons r rs)
    have "r \<in> set ?rows" by (simp only: Cons list.set_intros)
    then have "\<forall>r' \<in> set ?rows. r' = r" using row_unique by (auto simp: mem)
    with Cons show ?thesis by (simp only: first_link_def) auto
  qed
  finally show ?thesis using mem by auto
qed

lemma create_eq:
  assumes "input_ok i"
  shows "if input_code i \<in> codes_in E p
         then snd (pg_create_ok E now i p) = None \<and>
              set (pg_scan E (fst (pg_create_ok E now i p))) = set (pg_scan E p)
         else snd (pg_create_ok E now i p) = Some (mapLink (input_row now i)) \<and>
              set (pg_scan E (fst (pg_create_ok E now i p))) = insert (input_row now i) (set (pg_scan E p))"
proof -
  obtain ret where ret: "snd (pg_insert E [input_row now i] p) = Some ret" "distinct (map row_code ret)"
    "set ret = set (fresh_rows (codes_in E p) [input_row now i])"
    "set (pg_scan E (fst (pg_insert E [input_row now i] p))) = set (pg_scan E p) \<union> set ret"
    using insert_ok [of "[input_row now i]" p] assms by auto
  have eq: "pg_create_ok E now i p = (fst (pg_insert E [input_row now i] p), first_link ret)"
    using ret(1) by (simp add: pg_create_ok_def pg_create_def Let_def input_row_def [symmetric])
  have "distinct ret" using ret(2) by (simp add: distinct_map)
  then have one: "ret = [r]" if "set ret = {r}" for r
    using that by (simp add: distinct_set_singleton)
  show ?thesis
    using eq ret(3,4) one [of "input_row now i"]
    by (auto simp: first_link_def input_row_def)
qed

lemma click_eq:
  "set (pg_scan E (pg_click_ok E c p)) =
     (\<lambda>r. if row_code r = c then r\<lparr>clicks := clicks r + 1\<rparr> else r) ` set (pg_scan E p)"
proof -
  let ?P = "\<lambda>r. row_code r = c" and ?f = "\<lambda>r. r\<lparr>clicks := clicks r + 1\<rparr>"
  have "\<exists>ret. snd (pg_update E ?P ?f p) = Some ret \<and> set ret = ?f ` {r \<in> set (pg_scan E p). ?P r} \<and>
         set (pg_scan E (fst (pg_update E ?P ?f p))) = (\<lambda>r. if ?P r then ?f r else r) ` set (pg_scan E p)"
    using checked [of p] by (intro update_ok) (auto simp: list_all_iff row_ok_def)
  then show ?thesis
    by (auto simp: pg_click_ok_def pg_recordClick_def pg_recordClicks_def isSafeInteger_def MAX_SAFE_INTEGER_def)
qed

lemma find_click_eq:
  "snd (pg_find_ok E now c (pg_click_ok E d p)) =
     map_option (\<lambda>l. if c = d then l\<lparr>link_clicks := link_clicks l + 1\<rparr> else l) (snd (pg_find_ok E now c p))"
proof (rule option.expand)
  have none: "snd (pg_find_ok E now c q) = None \<longleftrightarrow>
      (\<forall>r \<in> set (pg_scan E q). row_code r = c \<longrightarrow> expired now (expires_at r))" for q
    using find_iff [of now c q] by (metis not_None_eq)
  show "(snd (pg_find_ok E now c (pg_click_ok E d p)) = None) =
    (map_option (\<lambda>l. if c = d then l\<lparr>link_clicks := link_clicks l + 1\<rparr> else l) (snd (pg_find_ok E now c p)) = None)"
    by (auto simp: none click_eq simp del: if_image_distrib)
next
  assume "snd (pg_find_ok E now c (pg_click_ok E d p)) \<noteq> None"
  then obtain l' where l': "snd (pg_find_ok E now c (pg_click_ok E d p)) = Some l'" by blast
  then obtain r where r: "r \<in> set (pg_scan E p)" "row_code r = c" "\<not> expired now (expires_at r)"
    and eq: "l' = mapLink (if row_code r = d then r\<lparr>clicks := clicks r + 1\<rparr> else r)"
    by (auto simp: find_iff click_eq simp del: if_image_distrib split: if_splits)
  then have "snd (pg_find_ok E now c p) = Some (mapLink r)" by (auto simp: find_iff)
  with l' eq r(2) show "the (snd (pg_find_ok E now c (pg_click_ok E d p))) =
    the (map_option (\<lambda>l. if c = d then l\<lparr>link_clicks := link_clicks l + 1\<rparr> else l) (snd (pg_find_ok E now c p)))"
    by (auto simp: mapLink_def)
qed

lemma find_same: "set (pg_scan E p) = set (pg_scan E q) \<Longrightarrow> snd (pg_find_ok E now c p) = snd (pg_find_ok E now c q)"
  using find_iff [of now c p] find_iff [of now c q] by (metis not_None_eq option.exhaust)

end

sublocale postgres \<subseteq> pg: durable_link_store "pg_create_ok E" "pg_find_ok E" "pg_click_ok E" "\<lambda>_. True" input_ok
proof unfold_locales
  fix s now now' i c l
  assume i: "input_ok i"
  note c = create_eq [OF i, of s now]
  show "l = \<lparr>link_code = input_code i, link_targetUrl = input_targetUrl i, link_createdAt = now,
            link_expiresAt = input_expiresAt i, link_clicks = 0\<rparr>"
    if "snd (pg_create_ok E now i s) = Some l"
    using that c by (auto simp: mapLink_def input_row_def split: if_splits)
  show "snd (pg_find_ok E now' (input_code i) (fst (pg_create_ok E now i s))) = Some l"
    if "snd (pg_create_ok E now i s) = Some l" "\<not> expired now' (input_expiresAt i)"
    using that c by (auto simp: find_iff input_row_def split: if_splits)
  show "snd (pg_create_ok E now i s) = None" if "snd (pg_find_ok E now' (input_code i) s) = Some l"
    using that c by (force simp: find_iff split: if_splits)
  show "snd (pg_find_ok E now' c (fst (pg_create_ok E now i s))) = snd (pg_find_ok E now' c s)"
    if "snd (pg_create_ok E now i s) = None"
    using that c by (intro find_same) (auto split: if_splits)
  show "snd (pg_find_ok E now' c (fst (pg_create_ok E now i s))) = Some l"
    if "snd (pg_find_ok E now' c s) = Some l"
    using that c by (auto simp: find_iff split: if_splits)
next
  show "snd (pg_find_ok E now c (pg_click_ok E d s)) =
     map_option (\<lambda>l. if c = d then l\<lparr>link_clicks := link_clicks l + 1\<rparr> else l) (snd (pg_find_ok E now c s))"
    for s now c d by (rule find_click_eq)
qed (simp_all add: pg_find_ok_def)

context postgres
begin

lemma created_link_integrity:
  assumes "input_ok i" "snd (pg_create_ok E now i p) = Some l" "list_all (op_ok input_ok) ops"
    and "\<not> expired now' (input_expiresAt i)"
  shows "snd (pg_find_ok E now' (input_code i)
            (fold (run_op (pg_create_ok E) (pg_find_ok E) (pg_click_ok E)) ops (fst (pg_create_ok E now i p)))) =
         Some (l\<lparr>link_clicks := clicks_on (input_code i) ops\<rparr>)"
    and "link_targetUrl l = input_targetUrl i"
proof -
  have l: "l = \<lparr>link_code = input_code i, link_targetUrl = input_targetUrl i, link_createdAt = now,
            link_expiresAt = input_expiresAt i, link_clicks = 0\<rparr>"
    using pg.create_link [OF _ assms(1,2)] by simp
  have "snd (pg_find_ok E now' (input_code i) (fst (pg_create_ok E now i p))) = Some l"
    using pg.find_created [OF _ assms(1,2,4)] by simp
  from pg.integrity [OF _ assms(3) this] l
  show "snd (pg_find_ok E now' (input_code i)
            (fold (run_op (pg_create_ok E) (pg_find_ok E) (pg_click_ok E)) ops (fst (pg_create_ok E now i p)))) =
         Some (l\<lparr>link_clicks := clicks_on (input_code i) ops\<rparr>)" by simp
  show "link_targetUrl l = input_targetUrl i" by (simp add: l)
qed

end

section \<open>A reference engine\<close>

text \<open>An engine that meets the contract: the table is the list of its rows, all of them valid.\<close>

definition ref_insert :: "link_row list \<Rightarrow> link_row list \<Rightarrow> link_row list \<times> link_row list option" where
  "ref_insert rows t =
     (if list_all row_ok rows
      then (t @ fresh_rows (row_code ` set t) rows, Some (fresh_rows (row_code ` set t) rows))
      else (t, None))"

definition ref_update ::
  "(link_row \<Rightarrow> bool) \<Rightarrow> (link_row \<Rightarrow> link_row) \<Rightarrow> link_row list \<Rightarrow> link_row list \<times> link_row list option" where
  "ref_update P f t =
     (if list_all (\<lambda>r. P r \<longrightarrow> row_ok (f r) \<and> row_code (f r) = row_code r) t
      then (map (\<lambda>r. if P r then f r else r) t, Some (map f (filter P t)))
      else (t, None))"

definition table_ok :: "link_row list \<Rightarrow> bool" where
  "table_ok t \<longleftrightarrow> distinct (map row_code t) \<and> list_all row_ok t"

lemma fresh_rows_codes: "row_code ` set (fresh_rows X rows) = row_code ` set rows - X"
  by (induction X rows rule: fresh_rows.induct) auto

lemma fresh_rows_distinct: "distinct (map row_code (fresh_rows X rows))"
proof (induction X rows rule: fresh_rows.induct)
  case (2 X r rs)
  then show ?case using fresh_rows_codes [of "insert (row_code r) X" rs] by auto
qed simp

lemma fresh_rows_subset: "set (fresh_rows X rows) \<subseteq> set rows"
  by (induction X rows rule: fresh_rows.induct) auto

lemma ref_insert_ok: "table_ok t \<Longrightarrow> table_ok (fst (ref_insert rows t))"
  using fresh_rows_subset [of "row_code ` set t" rows] fresh_rows_codes [of "row_code ` set t" rows]
  by (auto simp: ref_insert_def table_ok_def fresh_rows_distinct list_all_iff)

lemma ref_update_ok: "table_ok t \<Longrightarrow> table_ok (fst (ref_update P f t))"
proof -
  assume t: "table_ok t"
  have "map row_code (map (\<lambda>r. if P r then f r else r) t) = map row_code t"
    if "list_all (\<lambda>r. P r \<longrightarrow> row_ok (f r) \<and> row_code (f r) = row_code r) t"
    using that by (auto simp: list_all_iff)
  with t show ?thesis by (auto simp: ref_update_def table_ok_def list_all_iff simp del: map_map)
qed

typedef ref_db = "{t. table_ok t}"
  by (rule exI [of _ "[]"]) (simp add: table_ok_def)

setup_lifting type_definition_ref_db

lift_definition ref_db_scan :: "ref_db \<Rightarrow> link_row list" is "\<lambda>t. t" .

lift_definition ref_db_insert :: "link_row list \<Rightarrow> ref_db \<Rightarrow> ref_db" is "\<lambda>rows t. fst (ref_insert rows t)"
  by (rule ref_insert_ok)

lift_definition ref_db_update :: "(link_row \<Rightarrow> bool) \<Rightarrow> (link_row \<Rightarrow> link_row) \<Rightarrow> ref_db \<Rightarrow> ref_db"
  is "\<lambda>P f t. fst (ref_update P f t)"
  by (rule ref_update_ok)

lift_definition ref_db_empty :: ref_db is "[]"
  by (simp add: table_ok_def)

definition ref_pg :: "ref_db pg_engine" where
  "ref_pg = \<lparr>pg_scan = ref_db_scan,
     pg_insert = (\<lambda>rows d. (ref_db_insert rows d, snd (ref_insert rows (ref_db_scan d)))),
     pg_update = (\<lambda>P f d. (ref_db_update P f d, snd (ref_update P f (ref_db_scan d))))\<rparr>"

lemma ref_db_scan_ok: "table_ok (ref_db_scan d)"
  by transfer simp

lemma ref_db_simps [simp]:
  "ref_db_scan ref_db_empty = []"
  "ref_db_scan (ref_db_insert rows d) = fst (ref_insert rows (ref_db_scan d))"
  "ref_db_scan (ref_db_update P f d) = fst (ref_update P f (ref_db_scan d))"
  by (transfer, simp)+

lemma ref_pg_simps [simp]:
  "pg_scan ref_pg = ref_db_scan"
  "pg_insert ref_pg rows d = (ref_db_insert rows d, snd (ref_insert rows (ref_db_scan d)))"
  "pg_update ref_pg P f d = (ref_db_update P f d, snd (ref_update P f (ref_db_scan d)))"
  by (simp_all add: ref_pg_def)

interpretation ref_engine: postgres ref_pg
proof unfold_locales
  show "distinct (map row_code (pg_scan ref_pg p))" "list_all row_ok (pg_scan ref_pg p)" for p
    using ref_db_scan_ok [of p] by (simp_all add: table_ok_def)
  show "\<exists>ret. snd (pg_insert ref_pg rows p) = Some ret \<and> distinct (map row_code ret) \<and>
         set ret = set (fresh_rows (codes_in ref_pg p) rows) \<and>
         set (pg_scan ref_pg (fst (pg_insert ref_pg rows p))) = set (pg_scan ref_pg p) \<union> set ret"
    if "list_all row_ok rows" for rows p
    using that by (simp add: ref_insert_def fresh_rows_distinct)
  show "pg_insert ref_pg rows p = (p, None)" if "\<not> list_all row_ok rows" for rows p
  proof -
    have "ref_db_insert rows p = p" using that by transfer (simp add: ref_insert_def)
    with that show ?thesis by (simp add: ref_insert_def)
  qed
  show "\<exists>ret. snd (pg_update ref_pg P f p) = Some ret \<and> set ret = f ` {r \<in> set (pg_scan ref_pg p). P r} \<and>
         set (pg_scan ref_pg (fst (pg_update ref_pg P f p))) = (\<lambda>r. if P r then f r else r) ` set (pg_scan ref_pg p)"
    if "\<And>r. r \<in> set (pg_scan ref_pg p) \<Longrightarrow> P r \<Longrightarrow> row_ok (f r) \<and> row_code (f r) = row_code r" for P f p
  proof -
    have "list_all (\<lambda>r. P r \<longrightarrow> row_ok (f r) \<and> row_code (f r) = row_code r) (ref_db_scan p)"
      using that by (simp add: list_all_iff)
    then show ?thesis by (simp add: ref_update_def)
  qed
qed


definition docs_input :: create_input where
  "docs_input = \<lparr>input_code = ''docs'', input_targetUrl = ''https://example.com/'',
     input_expiresAt = None, input_codeSource = Custom\<rparr>"

lemma docs_input_ok: "input_ok docs_input"
  by (simp add: input_ok_def docs_input_def CODE_PATTERN_def code_char_def)



section \<open>Inserting pending links\<close>

text \<open>A pending link is stored when a row has its code, target and creation instant.\<close>

definition stored :: "'p pg_engine \<Rightarrow> 'p \<Rightarrow> pending_link \<Rightarrow> bool" where
  "stored E p l \<longleftrightarrow> (\<exists>r \<in> set (pg_scan E p). row_code r = pending_code l \<and>
     target_url r = pending_targetUrl l \<and> created_at r = pending_createdAt l)"

text \<open>No client deletes a row or changes its code, target or creation instant.\<close>

definition rows_kept :: "'p pg_engine \<Rightarrow> 'p \<Rightarrow> 'p \<Rightarrow> bool" where
  "rows_kept E p q \<longleftrightarrow> (\<forall>r \<in> set (pg_scan E p). \<exists>r' \<in> set (pg_scan E q). row_code r' = row_code r \<and>
     target_url r' = target_url r \<and> created_at r' = created_at r)"

lemma rows_kept_refl [simp]: "rows_kept E p p"
  by (auto simp: rows_kept_def)

lemma rows_kept_trans: "rows_kept E p q \<Longrightarrow> rows_kept E q r \<Longrightarrow> rows_kept E p r"
  unfolding rows_kept_def by (metis (no_types, opaque_lifting))

lemma stored_kept: "stored E p l \<Longrightarrow> rows_kept E p q \<Longrightarrow> stored E q l"
  unfolding stored_def rows_kept_def by (metis (no_types, opaque_lifting))

lemma codes_kept: "rows_kept E p q \<Longrightarrow> codes_in E p \<subseteq> codes_in E q"
  unfolding rows_kept_def by (auto simp: image_iff) metis

definition unique_links :: "pending_link list \<Rightarrow> pending_link list" where
  "unique_links ls = map snd (dedupe ls [])"

lemma dedupe_inv:
  "js_wf m \<Longrightarrow> (\<forall>(c, l) \<in> set m. c = pending_code l) \<Longrightarrow>
     js_wf (dedupe ls m) \<and> (\<forall>(c, l) \<in> set (dedupe ls m). c = pending_code l) \<and>
     set (js_keys (dedupe ls m)) = set (js_keys m) \<union> pending_code ` set ls \<and>
     snd ` set (dedupe ls m) \<subseteq> snd ` set m \<union> set ls"
proof (induction ls m rule: dedupe.induct)
  case (2 l ls unique)
  define m where "m = (if js_has unique (pending_code l) then unique else js_set unique (pending_code l) l)"
  have absent: "js_set unique c l = unique @ [(c, l)]" if "c \<notin> fst ` set unique" for c
    using that by (induction unique) auto
  have has: "js_has unique c \<longleftrightarrow> c \<in> fst ` set unique" for c
    by (simp add: js_has_def js_get_None_iff)
  have m: "js_wf m" "\<forall>(c, l) \<in> set m. c = pending_code l"
    "set (js_keys m) = insert (pending_code l) (set (js_keys unique))"
    "snd ` set m \<subseteq> insert l (snd ` set unique)"
    using "2.prems" by (auto simp: m_def has absent)
  have step: "dedupe (l # ls) unique = dedupe ls m" by (simp add: m_def)
  note IH = "2.IH" [folded m_def, OF m(1,2)]
  from IH m(3) have "set (js_keys (dedupe ls m)) = set (js_keys unique) \<union> pending_code ` set (l # ls)"
    by (simp del: set_map)
  moreover have "snd ` set (dedupe ls m) \<subseteq> snd ` set unique \<union> set (l # ls)"
  proof -
    have "snd ` set (dedupe ls m) \<subseteq> snd ` set m \<union> set ls" using IH by blast
    also have "\<dots> \<subseteq> insert l (snd ` set unique) \<union> set ls" using m(4) by (intro Un_mono subset_refl)
    finally show ?thesis by simp
  qed
  ultimately show ?case using IH unfolding step by blast
qed simp

lemma unique_links_props:
  "distinct (map pending_code (unique_links ls))"
  "pending_code ` set (unique_links ls) = pending_code ` set ls"
  "set (unique_links ls) \<subseteq> set ls"
  "ls \<noteq> [] \<Longrightarrow> unique_links ls \<noteq> []"
proof -
  note d = dedupe_inv [of "[]" ls, simplified]
  have m: "map pending_code (unique_links ls) = js_keys (dedupe ls [])"
    using d by (auto simp: unique_links_def intro!: map_cong)
  with d show "distinct (map pending_code (unique_links ls))" by simp
  show eq: "pending_code ` set (unique_links ls) = pending_code ` set ls"
    using d m by (metis list.set_map)
  show "set (unique_links ls) \<subseteq> set ls" using d by (auto simp: unique_links_def)
  show "unique_links ls \<noteq> []" if "ls \<noteq> []" using eq that by auto
qed

lemma fresh_rows_mem:
  "distinct (map row_code rows) \<Longrightarrow> set (fresh_rows X rows) = {r \<in> set rows. row_code r \<notin> X}"
proof (induction X rows rule: fresh_rows.induct)
  case (2 X r rs)
  then have "row_code r \<notin> row_code ` set rs" by simp
  with 2 show ?case by (auto simp: image_iff)
qed simp

context postgres
begin

lemma is_replay_iff:
  assumes "set existing = {row \<in> set (pg_scan E p). row_code row \<in> X}" "pending_code l \<in> X"
  shows "is_replay existing l \<longleftrightarrow> stored E p l"
proof -
  have u: "x = y" if "x \<in> set existing" "y \<in> set existing" "row_code x = pending_code l"
      "row_code y = pending_code l" for x y
    using that row_unique assms(1) by auto
  note f = find_filter_unique [of existing "\<lambda>r. row_code r = pending_code l", OF u]
  show ?thesis
  proof (cases "List.find (\<lambda>r. row_code r = pending_code l) existing")
    case None
    then have "\<forall>r \<in> set existing. row_code r \<noteq> pending_code l" by (simp add: find_None_iff)
    with None assms show ?thesis by (auto simp: is_replay_def stored_def)
  next
    case (Some row)
    then have row: "row \<in> set (pg_scan E p)" "row_code row = pending_code l" using f assms(1) by auto
    then have "stored E p l \<longleftrightarrow> target_url row = pending_targetUrl l \<and> created_at row = pending_createdAt l"
      unfolding stored_def by (metis row_unique)
    with Some show ?thesis by (simp add: is_replay_def)
  qed
qed

lemma insert_batch:
  assumes "list_all row_ok (map pending_row batch)" "distinct (map pending_code batch)"
  obtains ret where "snd (pg_insert E (map pending_row batch) p) = Some ret"
    and "row_code ` set ret = {pending_code l | l. l \<in> set batch \<and> pending_code l \<notin> codes_in E p}"
    and "set (pg_scan E (fst (pg_insert E (map pending_row batch) p))) = set (pg_scan E p) \<union>
           pending_row ` {l \<in> set batch. pending_code l \<notin> codes_in E p}"
proof -
  have d: "distinct (map row_code (map pending_row batch))"
    using assms(2) by (simp add: comp_def pending_row_def)
  have f: "set (fresh_rows (codes_in E p) (map pending_row batch)) =
      pending_row ` {l \<in> set batch. pending_code l \<notin> codes_in E p}"
    unfolding fresh_rows_mem [OF d] by (auto simp: pending_row_def)
  from insert_ok [OF assms(1), of p] obtain ret where
    ret: "snd (pg_insert E (map pending_row batch) p) = Some ret"
      "set ret = pending_row ` {l \<in> set batch. pending_code l \<notin> codes_in E p}"
      "set (pg_scan E (fst (pg_insert E (map pending_row batch) p))) = set (pg_scan E p) \<union> set ret"
    unfolding f by blast
  have "row_code ` set ret = {pending_code l | l. l \<in> set batch \<and> pending_code l \<notin> codes_in E p}"
    unfolding ret(2) by (auto simp: pending_row_def image_iff)
  with ret that show ?thesis by blast
qed

text \<open>The first statement of a batch: every code is in the table afterwards, the returned ones with
  the batch's own data; \<open>per\<close> are those codes and \<open>rest\<close> are the links they leave over.\<close>

lemma insert_batch_effect:
  assumes ls: "list_all row_ok (map pending_row ls)"
    and p1: "p1 = fst (pg_insert E (map pending_row (unique_links ls)) p)"
  obtains ret where "snd (pg_insert E (map pending_row (unique_links ls)) p) = Some ret"
    and "rows_kept E p p1" "pending_code ` set (unique_links ls) \<subseteq> codes_in E p1"
    and "set (map row_code ret) \<subseteq> pending_code ` set (unique_links ls)"
    and "\<forall>l \<in> set (unique_links ls). pending_code l \<in> set (map row_code ret) \<longrightarrow> stored E p1 l"
    and "\<forall>l \<in> set (unique_links ls). pending_code l \<notin> codes_in E p \<longrightarrow> stored E p1 l"
proof -
  let ?b = "unique_links ls"
  have ok: "list_all row_ok (map pending_row ?b)"
    using ls unique_links_props(3) by (auto simp: list_all_iff)
  obtain ret where ret: "snd (pg_insert E (map pending_row ?b) p) = Some ret"
    and codes: "row_code ` set ret = {pending_code l | l. l \<in> set ?b \<and> pending_code l \<notin> codes_in E p}"
    and scan: "set (pg_scan E p1) = set (pg_scan E p) \<union>
                 pending_row ` {l \<in> set ?b. pending_code l \<notin> codes_in E p}"
    using insert_batch [OF ok unique_links_props(1)] unfolding p1 by blast
  show thesis
  proof (rule that [OF ret])
    show "rows_kept E p p1" by (auto simp: rows_kept_def scan)
    show "pending_code ` set ?b \<subseteq> codes_in E p1"
      unfolding scan image_Un image_image pending_row_sel by auto
    show "set (map row_code ret) \<subseteq> pending_code ` set ?b" using codes by auto
    have fresh: "stored E p1 l" if "l \<in> set ?b" "pending_code l \<notin> codes_in E p" for l
    proof -
      from that have "pending_row l \<in> set (pg_scan E p1)" by (simp add: scan)
      then show ?thesis
        unfolding stored_def by (intro bexI [of _ "pending_row l"]) (simp_all add: pending_row_def)
    qed
    then show "\<forall>l \<in> set ?b. pending_code l \<notin> codes_in E p \<longrightarrow> stored E p1 l" by blast
    have "pending_code l \<notin> codes_in E p" if "pending_code l \<in> set (map row_code ret)"
      for l :: pending_link
    proof -
      have "pending_code l \<in> {pending_code l | l. l \<in> set ?b \<and> pending_code l \<notin> codes_in E p}"
        using that by (simp only: set_map codes)
      then show ?thesis by (elim CollectE exE conjE) (simp only: not_False_eq_True)
    qed
    then show "\<forall>l \<in> set ?b. pending_code l \<in> set (map row_code ret) \<longrightarrow> stored E p1 l"
      using fresh by blast
  qed
qed

text \<open>What one call does when the insert is executed, and what it reports if both statements answer.\<close>

lemma insertPendingBatch_kept:
  assumes ls: "list_all row_ok (map pending_row ls)"
    and between: "\<And>q. rows_kept E q (between q)"
    and call: "insertPendingBatch E n1 n2 between ls p = (q, r)" and n1: "n1 \<noteq> LostRequest"
  shows "rows_kept E p q" "pending_code ` set ls \<subseteq> codes_in E q"
    and "\<And>l. l \<in> set (unique_links ls) \<Longrightarrow> pending_code l \<notin> codes_in E p \<Longrightarrow> stored E q l"
proof -
  define p1 where "p1 = fst (pg_insert E (map pending_row (unique_links ls)) p)"
  obtain ret where ret: "snd (pg_insert E (map pending_row (unique_links ls)) p) = Some ret"
    and 1: "rows_kept E p p1" "pending_code ` set (unique_links ls) \<subseteq> codes_in E p1"
      "set (map row_code ret) \<subseteq> pending_code ` set (unique_links ls)"
      "\<forall>l \<in> set (unique_links ls). pending_code l \<in> set (map row_code ret) \<longrightarrow> stored E p1 l"
      "\<forall>l \<in> set (unique_links ls). pending_code l \<notin> codes_in E p \<longrightarrow> stored E p1 l"
    by (rule insert_batch_effect [OF ls p1_def]) (rule that)
  have q: "q = p1 \<or> q = between p1" if "ls \<noteq> []"
    using arg_cong [OF call, of fst] ret that n1
    unfolding insertPendingBatch_def unique_links_def [symmetric]
    by (cases n1) (auto simp: Let_def p1_def split: if_splits)
  have kept: "rows_kept E p1 q" if "ls \<noteq> []" using q [OF that] between by auto
  have nil: "q = p" if "ls = []" using call that by (simp add: insertPendingBatch_def)
  show "rows_kept E p q" using nil kept rows_kept_trans [OF 1(1)] by (cases "ls = []") auto
  show "pending_code ` set ls \<subseteq> codes_in E q"
    by (cases "ls = []")
      (simp, rule subset_trans [OF 1(2) [unfolded unique_links_props(2)] codes_kept [OF kept]])
  show "stored E q l" if "l \<in> set (unique_links ls)" "pending_code l \<notin> codes_in E p" for l
    using 1(5) that kept by (cases "ls = []") (auto simp: unique_links_def intro: stored_kept)
qed

lemma insertPendingBatch_codes:
  assumes "list_all row_ok (map pending_row ls)"
  shows "codes_in E (fst (insertPendingBatch E n1 n2 id ls p)) \<subseteq> codes_in E p \<union> pending_code ` set ls"
proof -
  have ok: "list_all row_ok (map pending_row (unique_links ls))"
    using assms unique_links_props(3) by (auto simp: list_all_iff)
  obtain ret where ret: "snd (pg_insert E (map pending_row (unique_links ls)) p) = Some ret"
    and scan: "set (pg_scan E (fst (pg_insert E (map pending_row (unique_links ls)) p))) = set (pg_scan E p) \<union>
           pending_row ` {l \<in> set (unique_links ls). pending_code l \<notin> codes_in E p}"
    by (rule insert_batch [OF ok unique_links_props(1), of p]) (rule that)
  have "fst (insertPendingBatch E n1 n2 id ls p) = p \<or>
      fst (insertPendingBatch E n1 n2 id ls p) = fst (pg_insert E (map pending_row (unique_links ls)) p)"
    unfolding insertPendingBatch_def unique_links_def [symmetric] using ret by (cases n1) (simp_all add: Let_def)
  moreover have "codes_in E (fst (pg_insert E (map pending_row (unique_links ls)) p)) \<subseteq>
      codes_in E p \<union> pending_code ` set (unique_links ls)"
    unfolding scan image_Un image_image pending_row_sel by auto
  ultimately show ?thesis unfolding unique_links_props(2) by (metis Un_upper1)
qed

lemma insertPendingBatch_spec:
  assumes ls: "ls \<noteq> []" "list_all row_ok (map pending_row ls)"
    and between: "\<And>q. rows_kept E q (between q)"
    and call: "insertPendingBatch E NetOk n2 between ls p = (q, r)"
    and n2: "n2 = NetOk"
  shows "\<exists>res. r = Inr res \<and>
           conflict_links res = filter (\<lambda>l. \<not> stored E q l) (unique_links ls) \<and>
           set (persisted_codes res) = pending_code ` {l \<in> set (unique_links ls). stored E q l} \<and>
           distinct (persisted_codes res)"
proof -
  let ?b = "unique_links ls"
  define p1 where "p1 = fst (pg_insert E (map pending_row ?b) p)"
  obtain ret where ret: "snd (pg_insert E (map pending_row ?b) p) = Some ret"
    and "rows_kept E p p1" "pending_code ` set (unique_links ls) \<subseteq> codes_in E p1"
    and sub: "set (map row_code ret) \<subseteq> pending_code ` set ?b"
    and stored1: "\<forall>l \<in> set ?b. pending_code l \<in> set (map row_code ret) \<longrightarrow> stored E p1 l"
    and "\<forall>l \<in> set (unique_links ls). pending_code l \<notin> codes_in E p \<longrightarrow> stored E p1 l"
    by (rule insert_batch_effect [OF ls(2) p1_def]) (rule that)
  define per where "per = remdups (map row_code ret)"
  define rest where "rest = filter (\<lambda>l. pending_code l \<notin> set per) ?b"
  have eq: "(q, r) =
      (if rest = [] then (p1, Inr \<lparr>persisted_codes = per, conflict_links = []\<rparr>)
       else if n2 \<noteq> NetOk then (between p1, Inl QueryFailed)
       else let existing = filter (\<lambda>row. row_code row \<in> pending_code ` set rest) (pg_scan E (between p1))
            in (between p1, Inr \<lparr>persisted_codes = per @ map pending_code (filter (is_replay existing) rest),
                  conflict_links = filter (\<lambda>l. \<not> is_replay existing l) rest\<rparr>))"
    using ls(1) ret unfolding call [symmetric] insertPendingBatch_def unique_links_def [symmetric]
    by (simp add: Let_def per_def rest_def p1_def)
  have q: "q = (if rest = [] then p1 else between p1)"
    using arg_cong [OF eq, of fst] by (simp add: Let_def)
  have kept: "rows_kept E p1 q" using between by (simp add: q)
  have per_stored: "stored E q l" if "l \<in> set ?b" "pending_code l \<in> set per" for l
    using stored1 that kept by (auto simp: per_def intro: stored_kept)
  let ?ex = "filter (\<lambda>row. row_code row \<in> pending_code ` set rest) (pg_scan E q)"
  have rep: "is_replay ?ex l \<longleftrightarrow> stored E q l" if "l \<in> set rest" for l
    by (rule is_replay_iff [where X = "pending_code ` set rest"]) (use that in auto)
  have r: "r = Inr \<lparr>persisted_codes = per @ map pending_code (filter (stored E q) rest),
                conflict_links = filter (\<lambda>l. \<not> stored E q l) rest\<rparr>"
  proof (cases "rest = []")
    case False
    with arg_cong [OF eq, of snd] n2 q
    have "r = Inr \<lparr>persisted_codes = per @ map pending_code (filter (is_replay ?ex) rest),
                conflict_links = filter (\<lambda>l. \<not> is_replay ?ex l) rest\<rparr>" by (simp add: Let_def)
    with rep show ?thesis by (simp cong: filter_cong)
  qed (use arg_cong [OF eq, of snd] in simp)
  have "filter (\<lambda>l. \<not> stored E q l) rest = filter (\<lambda>l. \<not> stored E q l) ?b"
    unfolding rest_def filter_filter using per_stored by (auto intro: filter_cong)
  moreover have "set (per @ map pending_code (filter (stored E q) rest)) =
      pending_code ` {l \<in> set ?b. stored E q l}"
  proof -
    have "set per \<subseteq> pending_code ` {l \<in> set ?b. stored E q l}"
    proof
      fix c
      assume "c \<in> set per"
      moreover then obtain l where "l \<in> set ?b" "c = pending_code l"
        using sub by (auto simp: per_def)
      ultimately show "c \<in> pending_code ` {l \<in> set ?b. stored E q l}" using per_stored by blast
    qed
    then show ?thesis by (auto simp: rest_def)
  qed
  moreover have "distinct (per @ map pending_code (filter (stored E q) rest))"
    unfolding rest_def distinct_append
    by (intro conjI distinct_map_filter unique_links_props(1)) (simp add: per_def, auto)
  ultimately show ?thesis using r by simp
qed

text \<open>What a row with the code of a link says about it is settled once that row is there.\<close>

lemma stored_frozen:
  assumes "pending_code l \<in> codes_in E p" "rows_kept E p q"
  shows "stored E q l \<longleftrightarrow> stored E p l"
proof
  assume "stored E q l"
  then obtain r' where r': "r' \<in> set (pg_scan E q)" "row_code r' = pending_code l"
    "target_url r' = pending_targetUrl l" "created_at r' = pending_createdAt l"
    by (auto simp: stored_def)
  from assms(1) obtain r where r: "r \<in> set (pg_scan E p)" "row_code r = pending_code l" by auto
  from assms(2) r obtain r'' where r'': "r'' \<in> set (pg_scan E q)" "row_code r'' = pending_code l"
    "target_url r'' = target_url r" "created_at r'' = created_at r"
    unfolding rows_kept_def by metis
  have "r' = r''" using r' r'' by (intro row_unique) auto
  with r r' r'' show "stored E p l" by (auto simp: stored_def)
qed (rule stored_kept [OF _ assms(2)])

lemma replayed_batch:
  assumes ls: "ls \<noteq> []" "list_all row_ok (map pending_row ls)"
    and between: "\<And>q. rows_kept E q (between q)" "\<And>q. rows_kept E q (between' q)"
    and first: "insertPendingBatch E n1 n2 between ls p = (q, r)" "n1 \<noteq> LostRequest"
    and kept: "rows_kept E q q'"
    and again: "insertPendingBatch E NetOk NetOk between' ls q' = (q'', r')"
  shows "\<exists>res. r' = Inr res \<and> conflict_links res = filter (\<lambda>l. \<not> stored E q l) (unique_links ls) \<and>
     set (persisted_codes res) = pending_code ` {l \<in> set (unique_links ls). stored E q l}"
proof -
  note f = insertPendingBatch_kept [OF ls(2) between(1) first]
  have k: "rows_kept E q q''"
    using kept insertPendingBatch_kept(1) [OF ls(2) between(2) again] by (rule rows_kept_trans) simp
  have eq: "stored E q'' l \<longleftrightarrow> stored E q l" if "l \<in> set (unique_links ls)" for l
    using that f(2) unique_links_props(3) [of ls] by (intro stored_frozen k) (meson imageI subsetD)
  from insertPendingBatch_spec [OF ls between(2) again] eq show ?thesis
    by (auto cong: filter_cong conj_cong)
qed

lemma click_batch_effect:
  assumes "batch \<noteq> []" "\<forall>(code, k) \<in> set batch. isSafeInteger k \<and> 1 \<le> k"
  shows "snd (pg_recordClickBatch E NetOk batch p) = Inr (filter (\<lambda>c. c \<notin> codes_in E p) (js_keys batch)) \<and>
     set (pg_scan E (fst (pg_recordClickBatch E NetOk batch p))) =
       (\<lambda>row. case js_get batch (row_code row) of None \<Rightarrow> row | Some k \<Rightarrow> row\<lparr>clicks := clicks row + k\<rparr>) `
         set (pg_scan E p)"
proof -
  let ?P = "\<lambda>row. js_has batch (row_code row)"
  let ?f = "\<lambda>row. row\<lparr>clicks := clicks row + (case js_get batch (row_code row) of None \<Rightarrow> 0 | Some k \<Rightarrow> k)\<rparr>"
  have pos: "0 \<le> (case js_get batch c of None \<Rightarrow> 0 | Some k \<Rightarrow> k)" for c
    using assms(2) by (cases "js_get batch c") (use js_get_in_set in fastforce)+
  have "\<exists>ret. snd (pg_update E ?P ?f p) = Some ret \<and> set ret = ?f ` {r \<in> set (pg_scan E p). ?P r} \<and>
         set (pg_scan E (fst (pg_update E ?P ?f p))) = (\<lambda>r. if ?P r then ?f r else r) ` set (pg_scan E p)"
    using checked [of p] pos by (intro update_ok) (auto simp: list_all_iff row_ok_def)
  then obtain ret where ret: "snd (pg_update E ?P ?f p) = Some ret"
    "set ret = ?f ` {r \<in> set (pg_scan E p). ?P r}"
    "set (pg_scan E (fst (pg_update E ?P ?f p))) = (\<lambda>r. if ?P r then ?f r else r) ` set (pg_scan E p)"
    by blast
  have eq: "(\<lambda>r. if ?P r then ?f r else r) =
      (\<lambda>row. case js_get batch (row_code row) of None \<Rightarrow> row | Some k \<Rightarrow> row\<lparr>clicks := clicks row + k\<rparr>)"
    by (auto simp: js_has_def split: option.split)
  have codes: "row_code ` set ret = {c \<in> codes_in E p. js_has batch c}" unfolding ret(2) by (auto simp: image_iff)
  have "filter (\<lambda>code. code \<notin> row_code ` set ret) (js_keys batch) = filter (\<lambda>c. c \<notin> codes_in E p) (js_keys batch)"
    unfolding codes by (rule filter_cong) (auto simp: js_has_def js_get_None_iff)
  with assms ret(1,3) show ?thesis
    unfolding eq pg_recordClickBatch_def by (auto simp: Let_def)
qed

end

text \<open>C15: Replaying a batch is harmless: after a call of \<open>insertPendingBatch\<close> whose insert reached the
  database, whatever became of the replies and whatever other clients added since, a further call
  with the same batch gives the verdict the first one settled: every link whose code was
  free is persisted, the conflicts are exactly the links whose code holds other data, and both
  calls report the same if the first one answered.\<close>

theorem pending_batch_replay:
  assumes "postgres E" "ls \<noteq> []" "list_all row_ok (map pending_row ls)"
    and "\<And>q. rows_kept E q (between q)" "\<And>q. rows_kept E q (between' q)"
    and "insertPendingBatch E n1 n2 between ls p = (q, r)" "n1 \<noteq> LostRequest" "rows_kept E q q'"
    and "insertPendingBatch E NetOk NetOk between' ls q' = (q'', r')"
  shows "\<exists>res. r' = Inr res \<and> conflict_links res = filter (\<lambda>l. \<not> stored E q l) (unique_links ls) \<and>
     set (persisted_codes res) = pending_code ` {l \<in> set (unique_links ls). stored E q l} \<and>
     (\<forall>l \<in> set (unique_links ls). pending_code l \<notin> codes_in E p \<longrightarrow> pending_code l \<in> set (persisted_codes res)) \<and>
     (n1 = NetOk \<and> n2 = NetOk \<longrightarrow> (\<exists>res0. r = Inr res0 \<and> conflict_links res0 = conflict_links res \<and>
        set (persisted_codes res0) = set (persisted_codes res)))"
proof -
  obtain res where res: "r' = Inr res"
    "conflict_links res = filter (\<lambda>l. \<not> stored E q l) (unique_links ls)"
    "set (persisted_codes res) = pending_code ` {l \<in> set (unique_links ls). stored E q l}"
    using postgres.replayed_batch [OF assms] by blast
  moreover have "\<forall>l \<in> set (unique_links ls). pending_code l \<notin> codes_in E p \<longrightarrow>
      pending_code l \<in> set (persisted_codes res)"
    using postgres.insertPendingBatch_kept(3) [OF assms(1,3,4,6,7)] unfolding res(3) by blast
  moreover have "\<exists>res0. r = Inr res0 \<and> conflict_links res0 = conflict_links res \<and>
      set (persisted_codes res0) = set (persisted_codes res)" if "n1 = NetOk \<and> n2 = NetOk"
    using postgres.insertPendingBatch_spec [OF assms(1-4)] assms(6) that unfolding res(2,3) by blast
  ultimately show ?thesis by blast
qed

definition docs_pending :: "int \<Rightarrow> pending_link" where
  "docs_pending t = \<lparr>pending_code = ''docs'', pending_targetUrl = ''https://example.com/'',
     pending_createdAt = t, pending_expiresAt = None\<rparr>"

theorem pending_batch_replay_witness:
  "\<exists>res. snd (insertPendingBatch ref_pg NetOk NetOk id [docs_pending 7]
       (fst (insertPendingBatch ref_pg LostReply NetOk id [docs_pending 7] ref_db_empty))) = Inr res \<and>
     ''docs'' \<in> set (persisted_codes res)"
proof -
  let ?first = "insertPendingBatch ref_pg LostReply NetOk id [docs_pending 7] ref_db_empty"
  let ?again = "insertPendingBatch ref_pg NetOk NetOk id [docs_pending 7] (fst ?first)"
  have ok: "list_all row_ok (map pending_row [docs_pending 7])"
    by (simp add: row_ok_def pending_row_def docs_pending_def CODE_PATTERN_def code_char_def)
  have u: "unique_links [docs_pending 7] = [docs_pending 7]"
    by (simp add: unique_links_def js_has_def)
  from pending_batch_replay [OF ref_engine.postgres_axioms _ ok, of id id LostReply NetOk ref_db_empty
      "fst ?first" "snd ?first" "fst ?first" "fst ?again" "snd ?again"]
  show ?thesis unfolding u by (auto simp: docs_pending_def)
qed

text \<open>C34: A batch of clicks: every row named in it gains exactly its count, no other row changes, the
  codes reported back are those without a row; when the reply is lost the clicks are counted all
  the same, when the request is lost nothing happens.\<close>

theorem click_batch_correct:
  assumes "postgres E" "batch \<noteq> []" "\<forall>(code, k) \<in> set batch. isSafeInteger k \<and> 1 \<le> k"
    and "pg_recordClickBatch E n batch p = (q, r)"
  shows "r = (if n = NetOk then Inr (filter (\<lambda>c. c \<notin> codes_in E p) (js_keys batch)) else Inl QueryFailed) \<and>
     set (pg_scan E q) =
       (if n = LostRequest then set (pg_scan E p)
        else (\<lambda>row. case js_get batch (row_code row) of None \<Rightarrow> row | Some k \<Rightarrow> row\<lparr>clicks := clicks row + k\<rparr>) `
               set (pg_scan E p))"
proof -
  have "fst (pg_recordClickBatch E LostReply batch p) = fst (pg_recordClickBatch E NetOk batch p)"
    by (simp add: pg_recordClickBatch_def Let_def case_prod_beta)
  moreover have "snd (pg_recordClickBatch E n batch p) = Inl QueryFailed" if "n \<noteq> NetOk"
    using assms(2,3) that by (cases n) (auto simp: pg_recordClickBatch_def Let_def case_prod_beta)
  moreover have "fst (pg_recordClickBatch E LostRequest batch p) = p"
    by (simp add: pg_recordClickBatch_def Let_def)
  ultimately show ?thesis
    using postgres.click_batch_effect [OF assms(1-3), of p] assms(4) by (cases n) auto
qed

theorem click_batch_correct_witness:
  "let p = fst (pg_create_ok ref_pg 100 docs_input ref_db_empty);
       (q, r) = pg_recordClickBatch ref_pg NetOk [(''docs'', 3), (''gone'', 2)] p
   in r = Inr [''gone''] \<and> clicks ` set (pg_scan ref_pg q) = {3}"
proof -
  define p where "p = fst (pg_create_ok ref_pg 100 docs_input ref_db_empty)"
  have scan: "set (pg_scan ref_pg p) = {input_row 100 docs_input}"
    using ref_engine.create_eq [OF docs_input_ok, of ref_db_empty 100] by (simp add: p_def)
  have b: "\<forall>(code, k) \<in> set [(''docs'', 3), (''gone'', 2)]. isSafeInteger k \<and> 1 \<le> k"
    by (simp add: isSafeInteger_def MAX_SAFE_INTEGER_def)
  have codes: "row_code (input_row 100 docs_input) = ''docs''" "clicks (input_row 100 docs_input) = 0"
    by (simp_all add: input_row_def docs_input_def)
  have "case pg_recordClickBatch ref_pg NetOk [(''docs'', 3), (''gone'', 2)] p of (q, r) \<Rightarrow>
      r = Inr [''gone''] \<and> clicks ` set (pg_scan ref_pg q) = {3}"
    using click_batch_correct [OF ref_engine.postgres_axioms _ b, of NetOk p] unfolding scan
    by (cases "pg_recordClickBatch ref_pg NetOk [(''docs'', 3), (''gone'', 2)] p") (simp add: codes)
  then show ?thesis by (simp add: p_def)
qed

end
