(* ===== verification/Redis.thy ===== *)
theory Redis
  imports Prelude
begin

text \<open>
  Redis, which is not part of the sources, as a parameter: a record of the commands that the
  sources send or that their Lua scripts call, and the locale \<open>redis_server\<close> with what the commands
  are documented to do.  \<open>view\<close> gives the live keys of a server state with their values and
  remaining time to live in milliseconds; the laws say how each command acts on
  that view, for keys that hold the kind of value the command expects.
\<close>

section \<open>The keyspace\<close>

datatype redis_value = RString string | RHash "(string, string) js_map" | RList "string list"

type_synonym redis_entry = "redis_value \<times> int option"
type_synonym keyspace = "string \<Rightarrow> redis_entry option"

fun hash_or_none :: "redis_entry option \<Rightarrow> bool" where
  "hash_or_none None \<longleftrightarrow> True"
| "hash_or_none (Some (RHash h, t)) \<longleftrightarrow> True"
| "hash_or_none _ \<longleftrightarrow> False"

fun list_or_none :: "redis_entry option \<Rightarrow> bool" where
  "list_or_none None \<longleftrightarrow> True"
| "list_or_none (Some (RList h, t)) \<longleftrightarrow> True"
| "list_or_none _ \<longleftrightarrow> False"

fun string_or_none :: "redis_entry option \<Rightarrow> bool" where
  "string_or_none None \<longleftrightarrow> True"
| "string_or_none (Some (RString h, t)) \<longleftrightarrow> True"
| "string_or_none _ \<longleftrightarrow> False"

fun hash_at :: "redis_entry option \<Rightarrow> (string, string) js_map" where
  "hash_at (Some (RHash h, t)) = h"
| "hash_at _ = []"

fun list_at :: "redis_entry option \<Rightarrow> string list" where
  "list_at (Some (RList l, t)) = l"
| "list_at _ = []"

fun string_at :: "redis_entry option \<Rightarrow> string option" where
  "string_at (Some (RString s, t)) = Some s"
| "string_at _ = None"

definition ttl_at :: "redis_entry option \<Rightarrow> int option" where
  "ttl_at e = Option.bind e snd"

lemma ttl_at_simps [simp]: "ttl_at None = None" "ttl_at (Some (v, t)) = t"
  by (simp_all add: ttl_at_def)

text \<open>A key whose hash or list became empty is gone.\<close>

definition put_hash :: "string \<Rightarrow> (string, string) js_map \<Rightarrow> keyspace \<Rightarrow> keyspace" where
  "put_hash k h v = v(k := if h = [] then None else Some (RHash h, ttl_at (v k)))"

definition put_list :: "string \<Rightarrow> string list \<Rightarrow> keyspace \<Rightarrow> keyspace" where
  "put_list k l v = v(k := if l = [] then None else Some (RList l, ttl_at (v k)))"

definition put_ttl :: "string \<Rightarrow> int \<Rightarrow> keyspace \<Rightarrow> keyspace" where
  "put_ttl k ms v =
     (case v k of None \<Rightarrow> v | Some (x, t) \<Rightarrow> if ms \<le> 0 then v(k := None) else v(k \<mapsto> (x, Some ms)))"

definition drop_ttl :: "string \<Rightarrow> keyspace \<Rightarrow> keyspace" where
  "drop_ttl k v = v(k := map_option (\<lambda>(x, t). (x, None)) (v k))"

text \<open>The elements from \<open>start\<close> to \<open>stop\<close>, inclusive; a negative index counts from the end.\<close>

definition list_range :: "int \<Rightarrow> int \<Rightarrow> 'a list \<Rightarrow> 'a list" where
  "list_range start stop l =
     (let n = int (length l);
          a = max 0 (if start < 0 then n + start else start);
          b = (if stop < 0 then n + stop else stop)
      in take (nat (b - a + 1)) (drop (nat a) l))"

lemma list_range_first: "1 \<le> n \<Longrightarrow> list_range 0 (n - 1) l = take (nat n) l"
  by (simp add: list_range_def)

lemma list_range_from: "0 \<le> n \<Longrightarrow> list_range n (- 1) l = drop (nat n) l"
  by (simp add: list_range_def Let_def)

lemma list_range_last: "0 < n \<Longrightarrow> list_range (- n) (- 1) l = drop (length l - nat n) l"
  by (auto simp: list_range_def Let_def nat_diff_distrib' max_def)

definition elapse :: "int \<Rightarrow> keyspace \<Rightarrow> keyspace" where
  "elapse d v = (\<lambda>k. case v k of
     Some (x, Some t) \<Rightarrow> if t < d then None else Some (x, Some (t - d)) | e \<Rightarrow> e)"

section \<open>The commands and their laws\<close>

record 'r redis =
  redis_exists :: "string \<Rightarrow> 'r \<Rightarrow> bool"
  redis_del :: "string \<Rightarrow> 'r \<Rightarrow> 'r"
  redis_get :: "string \<Rightarrow> 'r \<Rightarrow> string option"
  redis_set_nx_px :: "string \<Rightarrow> string \<Rightarrow> int \<Rightarrow> 'r \<Rightarrow> 'r \<times> bool"
  redis_incr :: "string \<Rightarrow> 'r \<Rightarrow> 'r \<times> int"
  redis_hget :: "string \<Rightarrow> string \<Rightarrow> 'r \<Rightarrow> string option"
  redis_hgetall :: "string \<Rightarrow> 'r \<Rightarrow> (string, string) js_map"
  redis_hset :: "string \<Rightarrow> (string \<times> string) list \<Rightarrow> 'r \<Rightarrow> 'r"
  redis_hdel :: "string \<Rightarrow> string \<Rightarrow> 'r \<Rightarrow> 'r"
  redis_hincrby :: "string \<Rightarrow> string \<Rightarrow> int \<Rightarrow> 'r \<Rightarrow> 'r"
  redis_llen :: "string \<Rightarrow> 'r \<Rightarrow> nat"
  redis_lrange :: "string \<Rightarrow> int \<Rightarrow> int \<Rightarrow> 'r \<Rightarrow> string list"
  redis_rpush :: "string \<Rightarrow> string \<Rightarrow> 'r \<Rightarrow> 'r"
  redis_ltrim :: "string \<Rightarrow> int \<Rightarrow> int \<Rightarrow> 'r \<Rightarrow> 'r"
  redis_pttl :: "string \<Rightarrow> 'r \<Rightarrow> int"
  redis_pexpire :: "string \<Rightarrow> int \<Rightarrow> 'r \<Rightarrow> 'r"
  redis_persist :: "string \<Rightarrow> 'r \<Rightarrow> 'r"

text \<open>\<open>EXPIRE\<close> and \<open>TTL\<close>, the versions in seconds: \<open>TTL\<close> rounds to the nearest second.\<close>

definition redis_expire :: "'r redis \<Rightarrow> string \<Rightarrow> int \<Rightarrow> 'r \<Rightarrow> 'r" where
  "redis_expire R k s = redis_pexpire R k (s * 1000)"

definition redis_ttl :: "'r redis \<Rightarrow> string \<Rightarrow> 'r \<Rightarrow> int" where
  "redis_ttl R k r = (if redis_pttl R k r < 0 then redis_pttl R k r else (redis_pttl R k r + 500) div 1000)"

definition pttl_reply :: "redis_entry option \<Rightarrow> int" where
  "pttl_reply e = (case e of None \<Rightarrow> - 2 | Some (x, None) \<Rightarrow> - 1 | Some (x, Some t) \<Rightarrow> t)"

definition number_at :: "redis_entry option \<Rightarrow> int option" where
  "number_at e = (case e of None \<Rightarrow> Some 0 | Some (RString s, t) \<Rightarrow> decimal_value s | _ \<Rightarrow> None)"

definition set_fields :: "(string \<times> string) list \<Rightarrow> (string, string) js_map \<Rightarrow> (string, string) js_map" where
  "set_fields fs h = fold (\<lambda>(f, x) h. js_set h f x) fs h"

locale redis_server =
  fixes R :: "'r redis" and view :: "'r \<Rightarrow> keyspace"
  assumes live_ttl: "ttl_at (view r k) = Some t \<Longrightarrow> 0 \<le> t"
    and hash_wf: "js_wf (hash_at (view r k))"
    and exists_law [redis_law]: "redis_exists R k r \<longleftrightarrow> view r k \<noteq> None"
    and del_law [redis_law]: "view (redis_del R k r) = (view r)(k := None)"
    and get_law [redis_law]: "string_or_none (view r k) \<Longrightarrow> redis_get R k r = string_at (view r k)"
    and set_law [redis_law]: "0 < ms \<Longrightarrow> snd (redis_set_nx_px R k x ms r) \<longleftrightarrow> view r k = None"
      "0 < ms \<Longrightarrow> view (fst (redis_set_nx_px R k x ms r)) =
         (if view r k = None then (view r)(k \<mapsto> (RString x, Some ms)) else view r)"
    and incr_law [redis_law]: "number_at (view r k) = Some n \<Longrightarrow> snd (redis_incr R k r) = n + 1"
      "number_at (view r k) = Some n \<Longrightarrow>
         view (fst (redis_incr R k r)) = (view r)(k \<mapsto> (RString (int_text (n + 1)), ttl_at (view r k)))"
    and hget_law [redis_law]: "hash_or_none (view r k) \<Longrightarrow> redis_hget R k f r = js_get (hash_at (view r k)) f"
    and hgetall_law [redis_law]: "hash_or_none (view r k) \<Longrightarrow> redis_hgetall R k r = hash_at (view r k)"
    and hset_law [redis_law]: "hash_or_none (view r k) \<Longrightarrow> fs \<noteq> [] \<Longrightarrow>
         view (redis_hset R k fs r) = put_hash k (set_fields fs (hash_at (view r k))) (view r)"
    and hdel_law [redis_law]: "hash_or_none (view r k) \<Longrightarrow>
         view (redis_hdel R k f r) = put_hash k (js_delete (hash_at (view r k)) f) (view r)"
    and hincrby_law [redis_law]: "js_get (hash_at (view r k)) f = Some s \<Longrightarrow> decimal_value s = Some n \<Longrightarrow>
         view (redis_hincrby R k f i r) = put_hash k (js_set (hash_at (view r k)) f (int_text (n + i))) (view r)"
    and llen_law [redis_law]: "list_or_none (view r k) \<Longrightarrow> redis_llen R k r = length (list_at (view r k))"
    and lrange_law [redis_law]: "list_or_none (view r k) \<Longrightarrow>
         redis_lrange R k i j r = list_range i j (list_at (view r k))"
    and rpush_law [redis_law]: "list_or_none (view r k) \<Longrightarrow>
         view (redis_rpush R k x r) = put_list k (list_at (view r k) @ [x]) (view r)"
    and ltrim_law [redis_law]: "list_or_none (view r k) \<Longrightarrow>
         view (redis_ltrim R k i j r) = put_list k (list_range i j (list_at (view r k))) (view r)"
    and pttl_law [redis_law]: "redis_pttl R k r = pttl_reply (view r k)"
    and pexpire_law [redis_law]: "view (redis_pexpire R k ms r) = put_ttl k ms (view r)"
    and persist_law [redis_law]: "view (redis_persist R k r) = drop_ttl k (view r)"

section \<open>A reference server\<close>

text \<open>A server that meets the laws: its state is the view itself.\<close>

definition ttl_ok :: "int option \<Rightarrow> bool" where
  "ttl_ok t \<longleftrightarrow> (case t of None \<Rightarrow> True | Some ms \<Rightarrow> 0 \<le> ms)"

definition entry_ok :: "redis_entry option \<Rightarrow> bool" where
  "entry_ok e \<longleftrightarrow> js_wf (hash_at e) \<and> ttl_ok (ttl_at e)"

definition keyspace_ok :: "keyspace \<Rightarrow> bool" where
  "keyspace_ok v \<longleftrightarrow> (\<forall>k. entry_ok (v k))"

lemma entry_ok_simps [simp]:
  "ttl_ok None" "ttl_ok (Some ms) \<longleftrightarrow> 0 \<le> ms"
  "entry_ok None" "entry_ok (Some (RHash h, t)) \<longleftrightarrow> js_wf h \<and> ttl_ok t"
  "entry_ok (Some (RList l, t)) \<longleftrightarrow> ttl_ok t" "entry_ok (Some (RString x, t)) \<longleftrightarrow> ttl_ok t"
  by (simp_all add: entry_ok_def ttl_ok_def)

lemma entry_ok_dest [simp]: "entry_ok e \<Longrightarrow> ttl_ok (ttl_at e)" "entry_ok e \<Longrightarrow> js_wf (hash_at e)"
  by (simp_all add: entry_ok_def)

lemma entry_ok_ttl: "entry_ok (Some (x, t)) \<Longrightarrow> ttl_ok t' \<Longrightarrow> entry_ok (Some (x, t'))"
  by (cases x) simp_all

lemma keyspace_ok_upd: "keyspace_ok v \<Longrightarrow> entry_ok e \<Longrightarrow> keyspace_ok (v(k := e))"
  by (simp add: keyspace_ok_def)

lemma keyspace_okD [simp]: "keyspace_ok v \<Longrightarrow> entry_ok (v k)"
  by (simp add: keyspace_ok_def)

lemma js_wf_set_fields: "js_wf h \<Longrightarrow> js_wf (set_fields fs h)"
  by (induction fs arbitrary: h) (auto simp: set_fields_def split: prod.splits)

lemma keyspace_ok_put:
  assumes "keyspace_ok v"
  shows "js_wf h \<Longrightarrow> keyspace_ok (put_hash k h v)" "keyspace_ok (put_list k l v)"
    and "keyspace_ok (put_ttl k ms v)"
proof -
  show "js_wf h \<Longrightarrow> keyspace_ok (put_hash k h v)" "keyspace_ok (put_list k l v)"
    using assms by (auto simp: put_hash_def put_list_def intro!: keyspace_ok_upd)
  show "keyspace_ok (put_ttl k ms v)"
  proof (cases "v k")
    case (Some e)
    obtain x t where e: "e = (x, t)" by (cases e)
    have "entry_ok (Some (x, Some ms))" if "0 < ms"
      using keyspace_okD [OF assms, of k] that unfolding Some e by (elim entry_ok_ttl) simp
    with assms Some e show ?thesis by (auto simp: put_ttl_def intro!: keyspace_ok_upd)
  qed (use assms in \<open>simp add: put_ttl_def\<close>)
qed

lemma keyspace_ok_drop_ttl:
  assumes "keyspace_ok v"
  shows "keyspace_ok (drop_ttl k v)"
proof (cases "v k")
  case (Some e)
  obtain x t where e: "e = (x, t)" by (cases e)
  have "entry_ok (Some (x, None))" using keyspace_okD [OF assms, of k] unfolding Some e by (elim entry_ok_ttl) simp
  with assms Some e show ?thesis by (auto simp: drop_ttl_def intro!: keyspace_ok_upd)
qed (use assms in \<open>simp add: drop_ttl_def keyspace_ok_upd\<close>)

typedef ref_redis = "{v. keyspace_ok v}"
  by (rule exI [of _ "\<lambda>_. None"]) (simp add: keyspace_ok_def)

setup_lifting type_definition_ref_redis

lift_definition ref_view :: "ref_redis \<Rightarrow> keyspace" is "\<lambda>v. v" .

lift_definition ref_empty :: ref_redis is "\<lambda>_. None"
  by (simp add: keyspace_ok_def)

lift_definition ref_del :: "string \<Rightarrow> ref_redis \<Rightarrow> ref_redis" is "\<lambda>k v. v(k := None)"
  by (simp add: keyspace_ok_upd)

lift_definition ref_put_string :: "string \<Rightarrow> string \<Rightarrow> int option \<Rightarrow> ref_redis \<Rightarrow> ref_redis"
  is "\<lambda>k x t v. if ttl_ok t then v(k \<mapsto> (RString x, t)) else v"
  by (simp add: keyspace_ok_upd)

lift_definition ref_put_hash :: "string \<Rightarrow> (string, string) js_map \<Rightarrow> ref_redis \<Rightarrow> ref_redis"
  is "\<lambda>k h v. if js_wf h then put_hash k h v else v"
  by (simp add: keyspace_ok_put)

lift_definition ref_put_list :: "string \<Rightarrow> string list \<Rightarrow> ref_redis \<Rightarrow> ref_redis" is put_list
  by (rule keyspace_ok_put)

lift_definition ref_put_ttl :: "string \<Rightarrow> int \<Rightarrow> ref_redis \<Rightarrow> ref_redis" is put_ttl
  by (rule keyspace_ok_put)

lift_definition ref_drop_ttl :: "string \<Rightarrow> ref_redis \<Rightarrow> ref_redis" is drop_ttl
  by (rule keyspace_ok_drop_ttl)

lemma ref_view_simps [simp]:
  "ref_view ref_empty = (\<lambda>_. None)"
  "ref_view (ref_del k r) = (ref_view r)(k := None)"
  "ref_view (ref_put_string k x t r) = (if ttl_ok t then (ref_view r)(k \<mapsto> (RString x, t)) else ref_view r)"
  "ref_view (ref_put_hash k h r) = (if js_wf h then put_hash k h (ref_view r) else ref_view r)"
  "ref_view (ref_put_list k l r) = put_list k l (ref_view r)"
  "ref_view (ref_put_ttl k ms r) = put_ttl k ms (ref_view r)"
  "ref_view (ref_drop_ttl k r) = drop_ttl k (ref_view r)"
  by (transfer, simp)+

lemma ref_view_ok [simp]: "entry_ok (ref_view r k)"
  by transfer simp

definition ref_redis :: "ref_redis redis" where
  "ref_redis =
     \<lparr>redis_exists = (\<lambda>k r. ref_view r k \<noteq> None),
      redis_del = ref_del,
      redis_get = (\<lambda>k r. string_at (ref_view r k)),
      redis_set_nx_px = (\<lambda>k x ms r. if ref_view r k = None then (ref_put_string k x (Some ms) r, True) else (r, False)),
      redis_incr = (\<lambda>k r. case number_at (ref_view r k) of
         None \<Rightarrow> (r, 0) | Some n \<Rightarrow> (ref_put_string k (int_text (n + 1)) (ttl_at (ref_view r k)) r, n + 1)),
      redis_hget = (\<lambda>k f r. js_get (hash_at (ref_view r k)) f),
      redis_hgetall = (\<lambda>k r. hash_at (ref_view r k)),
      redis_hset = (\<lambda>k fs r. ref_put_hash k (set_fields fs (hash_at (ref_view r k))) r),
      redis_hdel = (\<lambda>k f r. ref_put_hash k (js_delete (hash_at (ref_view r k)) f) r),
      redis_hincrby = (\<lambda>k f i r. case Option.bind (js_get (hash_at (ref_view r k)) f) decimal_value of
         None \<Rightarrow> r | Some n \<Rightarrow> ref_put_hash k (js_set (hash_at (ref_view r k)) f (int_text (n + i))) r),
      redis_llen = (\<lambda>k r. length (list_at (ref_view r k))),
      redis_lrange = (\<lambda>k i j r. list_range i j (list_at (ref_view r k))),
      redis_rpush = (\<lambda>k x r. ref_put_list k (list_at (ref_view r k) @ [x]) r),
      redis_ltrim = (\<lambda>k i j r. ref_put_list k (list_range i j (list_at (ref_view r k))) r),
      redis_pttl = (\<lambda>k r. pttl_reply (ref_view r k)),
      redis_pexpire = ref_put_ttl,
      redis_persist = ref_drop_ttl\<rparr>"

interpretation ref_server: redis_server ref_redis ref_view
proof unfold_locales
  show "0 \<le> t" if "ttl_at (ref_view r k) = Some t" for r k t
    using entry_ok_dest(1) [OF ref_view_ok [of r k]] that by simp
qed (auto simp: ref_redis_def js_wf_set_fields split: option.split)

end
