(* ===== verification/Link_Keyspace.thy ===== *)
theory Link_Keyspace
  imports Redis Keys
begin

text \<open>
  The part of the keyspace that belongs to links, read through the key layout of \<open>keys.ts\<close>: the fields
  cached for a code, the sync queue, the lock and the dead letters of a shard; and how the updates of
  the Redis laws act on them.
\<close>

definition typed :: "keyspace \<Rightarrow> bool" where
  "typed v \<longleftrightarrow> (\<forall>c. hash_or_none (v (link_key c))) \<and>
     (\<forall>s. list_or_none (v (queue_key s)) \<and> list_or_none (v (dead_key s)) \<and> string_or_none (v (lock_key s)))"

definition link_fields :: "keyspace \<Rightarrow> string \<Rightarrow> (string, string) js_map" where
  "link_fields v c = hash_at (v (link_key c))"

definition link_ttl :: "keyspace \<Rightarrow> string \<Rightarrow> int option" where
  "link_ttl v c = ttl_at (v (link_key c))"

definition entries :: "keyspace \<Rightarrow> int \<Rightarrow> string list" where
  "entries v s = list_at (v (queue_key s))"

definition dead :: "keyspace \<Rightarrow> int \<Rightarrow> string list" where
  "dead v s = list_at (v (dead_key s))"

definition owner :: "keyspace \<Rightarrow> int \<Rightarrow> string option" where
  "owner v s = string_at (v (lock_key s))"

lemma typedD [simp]:
  assumes "typed v"
  shows "hash_or_none (v (link_key c))" "list_or_none (v (queue_key s))" "list_or_none (v (dead_key s))"
    "string_or_none (v (lock_key s))"
  using assms by (simp_all add: typed_def)

lemma kind_iff:
  "hash_or_none (Some (x, t)) \<longleftrightarrow> (\<exists>h. x = RHash h)"
  "list_or_none (Some (x, t)) \<longleftrightarrow> (\<exists>l. x = RList l)"
  "string_or_none (Some (x, t)) \<longleftrightarrow> (\<exists>s. x = RString s)"
  by (cases x; simp)+

lemma hash_at_put_hash [simp]: "hash_at (put_hash k h v j) = (if j = k then h else hash_at (v j))"
  by (simp add: put_hash_def)

lemma list_at_put_list [simp]: "list_at (put_list k l v j) = (if j = k then l else list_at (v j))"
  by (simp add: put_list_def)

text \<open>Entries other than the one written, and entries of another kind, are untouched.\<close>

lemma put_frame [simp]:
  "j \<noteq> k \<Longrightarrow> put_hash k h v j = v j" "j \<noteq> k \<Longrightarrow> put_list k l v j = v j" "j \<noteq> k \<Longrightarrow> put_ttl k ms v j = v j"
  by (auto simp: put_hash_def put_list_def put_ttl_def split: option.split)

lemma typed_upd:
  assumes "typed v" "\<And>c. k = link_key c \<Longrightarrow> hash_or_none e" "\<And>s. k = queue_key s \<Longrightarrow> list_or_none e"
    "\<And>s. k = dead_key s \<Longrightarrow> list_or_none e" "\<And>s. k = lock_key s \<Longrightarrow> string_or_none e"
  shows "typed (v(k := e))"
proof -
  have "hash_or_none ((v(k := e)) (link_key c))" for c using assms(1,2) by auto
  moreover have "list_or_none ((v(k := e)) (queue_key s))" for s using assms(1,3) by auto
  moreover have "list_or_none ((v(k := e)) (dead_key s))" for s using assms(1,4) by auto
  moreover have "string_or_none ((v(k := e)) (lock_key s))" for s using assms(1,5) by auto
  ultimately show ?thesis unfolding typed_def by blast
qed

lemma typed_updates [simp]:
  assumes "typed v"
  shows "typed (put_hash (link_key c) h v)" "typed (put_list (queue_key s) l v)" "typed (put_list (dead_key s) l v)"
    "typed (v(k := None))" "typed (v(lock_key s \<mapsto> (RString x, t)))" "typed (put_ttl k ms v)"
proof -
  show "typed (put_hash (link_key c) h v)" "typed (put_list (queue_key s) l v)" "typed (put_list (dead_key s) l v)"
    "typed (v(k := None))" "typed (v(lock_key s \<mapsto> (RString x, t)))"
    unfolding put_hash_def put_list_def by (rule typed_upd [OF assms]; simp add: key_kinds_distinct)+
  have "hash_or_none (v j) \<Longrightarrow> hash_or_none (put_ttl k ms v j)"
    "list_or_none (v j) \<Longrightarrow> list_or_none (put_ttl k ms v j)"
    "string_or_none (v j) \<Longrightarrow> string_or_none (put_ttl k ms v j)" for j
    by (auto simp: put_ttl_def kind_iff split: option.split)
  then show "typed (put_ttl k ms v)" using assms unfolding typed_def by blast
qed

lemma typed_elapse [simp]:
  assumes "typed v"
  shows "typed (elapse d v)"
proof -
  have "hash_or_none (v j) \<Longrightarrow> hash_or_none (elapse d v j)" "list_or_none (v j) \<Longrightarrow> list_or_none (elapse d v j)"
    "string_or_none (v j) \<Longrightarrow> string_or_none (elapse d v j)" for j
    by (auto simp: elapse_def kind_iff split: option.split)
  with assms show ?thesis unfolding typed_def by blast
qed

lemma link_parts_frame [simp]:
  "link_fields (put_hash (link_key c) h v) d = (if c = d then h else link_fields v d)"
  "link_fields (put_list (queue_key s) l v) d = link_fields v d"
  "link_fields (put_list (dead_key s) l v) d = link_fields v d"
  "link_fields (v(lock_key s := e)) d = link_fields v d"
  "link_fields (v(link_key c := None)) d = (if c = d then [] else link_fields v d)"
  "link_ttl (put_list (queue_key s) l v) d = link_ttl v d"
  "link_ttl (put_list (dead_key s) l v) d = link_ttl v d"
  "link_ttl (v(lock_key s := e)) d = link_ttl v d"
  "link_ttl (v(link_key c := None)) d = (if c = d then None else link_ttl v d)"
  by (auto simp: link_fields_def link_ttl_def key_simps)

lemma queue_frame [simp]:
  "entries (put_hash (link_key c) h v) s = entries v s" "entries (put_ttl (link_key c) ms v) s = entries v s"
  "entries (put_list (dead_key t) l v) s = entries v s" "entries (v(lock_key t := e)) s = entries v s"
  "entries (v(link_key c := e)) s = entries v s"
  "valid_shard s \<Longrightarrow> valid_shard t \<Longrightarrow> entries (put_list (queue_key t) l v) s = (if s = t then l else entries v s)"
  by (auto simp: entries_def key_simps)

lemma dead_frame [simp]:
  "dead (put_hash (link_key c) h v) s = dead v s" "dead (put_ttl (link_key c) ms v) s = dead v s"
  "dead (put_list (queue_key t) l v) s = dead v s" "dead (v(lock_key t := e)) s = dead v s"
  "dead (v(link_key c := e)) s = dead v s"
  "valid_shard s \<Longrightarrow> valid_shard t \<Longrightarrow> dead (put_list (dead_key t) l v) s = (if s = t then l else dead v s)"
  by (auto simp: dead_def key_simps)

lemma owner_frame [simp]:
  "owner (put_hash (link_key c) h v) s = owner v s" "owner (put_ttl (link_key c) ms v) s = owner v s"
  "owner (put_list (queue_key t) l v) s = owner v s" "owner (put_list (dead_key t) l v) s = owner v s"
  "owner (v(link_key c := e)) s = owner v s"
  "valid_shard s \<Longrightarrow> valid_shard t \<Longrightarrow>
     owner (v(lock_key t := e)) s = (if s = t then string_at e else owner v s)"
  by (auto simp: owner_def key_simps)

end
