(* ===== verification/Js_Text.thy ===== *)
theory Js_Text
  imports Prelude
begin

text \<open>
  The operations of the language on strings and unknown values that the sources use.  Texts are sequences of 8-bit
  characters: case and white space are those of Latin-1.
\<close>

section \<open>Unknown values\<close>

text \<open>A value of type \<open>unknown\<close>: what the sources distinguish about it.\<close>

datatype js_value = JsUndefined | JsString string | JsNumber js_number | JsOther

section \<open>Splitting and joining\<close>

fun js_split :: "char \<Rightarrow> string \<Rightarrow> string list" where
  "js_split d [] = [[]]"
| "js_split d (c # cs) =
     (if c = d then [] # js_split d cs else (c # hd (js_split d cs)) # tl (js_split d cs))"

lemma js_split_neq_Nil [simp]: "js_split d s \<noteq> []"
  by (induction s) auto

lemma js_split_hd: "hd (js_split d s) = takeWhile (\<lambda>c. c \<noteq> d) s"
  by (induction s) auto

lemma js_split_free: "d \<notin> set s \<Longrightarrow> js_split d s = [s]"
  by (induction s) auto

lemma js_split_append: "d \<notin> set a \<Longrightarrow> js_split d (a @ d # b) = a # js_split d b"
  by (induction a) auto

lemma js_split_elems: "x \<in> set (js_split d s) \<Longrightarrow> d \<notin> set x"
proof (induction s arbitrary: x)
  case (Cons c cs)
  have "hd (js_split d cs) \<in> set (js_split d cs)" "set (tl (js_split d cs)) \<subseteq> set (js_split d cs)"
    by (auto intro: list.set_sel)
  with Cons show ?case by (auto split: if_splits)
qed simp

section \<open>Case and white space\<close>

definition lower_char :: "char \<Rightarrow> char" where
  "lower_char c =
     (let n = of_char c :: nat
      in if (65 \<le> n \<and> n \<le> 90) \<or> (192 \<le> n \<and> n \<le> 222 \<and> n \<noteq> 215) then char_of (n + 32) else c)"

definition toLowerCase :: "string \<Rightarrow> string" where
  "toLowerCase s = map lower_char s"

definition js_space :: "char \<Rightarrow> bool" where
  "js_space c \<longleftrightarrow> (let n = of_char c :: nat in (9 \<le> n \<and> n \<le> 13) \<or> n = 32 \<or> n = 160)"

definition js_trim :: "string \<Rightarrow> string" where
  "js_trim s = rev (dropWhile js_space (rev (dropWhile js_space s)))"

definition startsWith :: "string \<Rightarrow> string \<Rightarrow> bool" where
  "startsWith s p \<longleftrightarrow> take (length p) s = p"

definition endsWith :: "string \<Rightarrow> string \<Rightarrow> bool" where
  "endsWith s p \<longleftrightarrow> length p \<le> length s \<and> drop (length s - length p) s = p"

text \<open>\<open>replace(/^X/, "")\<close> and \<open>replace(/X$/, "")\<close> for a single character.\<close>

definition strip_first :: "char \<Rightarrow> string \<Rightarrow> string" where
  "strip_first c s = (case s of x # xs \<Rightarrow> if x = c then xs else s | [] \<Rightarrow> [])"

definition strip_last :: "char \<Rightarrow> string \<Rightarrow> string" where
  "strip_last c s = (if s \<noteq> [] \<and> last s = c then butlast s else s)"

section \<open>Numbers\<close>

text \<open>\<open>Number(s)\<close>: texts that are not plain decimal integers are read by the parameter \<open>numbers\<close>.\<close>

definition js_Number :: "(string \<Rightarrow> js_number) \<Rightarrow> string \<Rightarrow> js_number" where
  "js_Number numbers s = (case decimal_value s of Some n \<Rightarrow> IntNum n | None \<Rightarrow> numbers s)"

definition hex_value :: "char \<Rightarrow> nat option" where
  "hex_value c =
     (case digit_value c of
        Some d \<Rightarrow> Some d
      | None \<Rightarrow>
          if CHR ''a'' \<le> c \<and> c \<le> CHR ''f'' then Some (of_char c - 87)
          else if CHR ''A'' \<le> c \<and> c \<le> CHR ''F'' then Some (of_char c - 55) else None)"

fun hex_digits :: "nat \<Rightarrow> string \<Rightarrow> nat" where
  "hex_digits acc [] = acc"
| "hex_digits acc (c # cs) = (case hex_value c of None \<Rightarrow> acc | Some d \<Rightarrow> hex_digits (acc * 16 + d) cs)"

text \<open>\<open>Number.parseInt(s, 16)\<close>: white space, a sign, \<open>0x\<close>, then as many hexadecimal digits as there are.\<close>

definition parseInt16 :: "string \<Rightarrow> js_number" where
  "parseInt16 s =
     (let t = dropWhile js_space s;
          (neg, u) = (case t of c # cs \<Rightarrow> if c = CHR ''-'' then (True, cs) else if c = CHR ''+'' then (False, cs) else (False, t)
                      | [] \<Rightarrow> (False, []));
          v = (if startsWith u ''0x'' \<or> startsWith u ''0X'' then drop 2 u else u)
      in case v of
           [] \<Rightarrow> NotInt
         | c # cs \<Rightarrow> if hex_value c = None then NotInt
                     else IntNum ((if neg then - 1 else 1) * int (hex_digits 0 v)))"

end
