(* ===== verification/Json.thy ===== *)
theory Json
  imports Js_Text
begin

text \<open>
  \<open>JSON.stringify\<close> and \<open>JSON.parse\<close> of the language.  Texts are sequences of 8-bit characters, which
  cover everything WrapLink writes: codes are ASCII and a serialised URL is percent-encoded.  An
  escape that names a wider character is unreadable here.  A number is kept as its numeral.
\<close>

datatype json = JNull | JBool bool | JNum string | JStr string | JArr "json list" | JObj "(string \<times> json) list"

section \<open>Printing\<close>

definition hex_char :: "nat \<Rightarrow> char" where
  "hex_char d = ''0123456789abcdef'' ! d"

definition escape_char :: "char \<Rightarrow> string" where
  "escape_char c =
     (if c = CHR 0x22 then [CHR 0x5C, CHR 0x22]
      else if c = CHR 0x5C then [CHR 0x5C, CHR 0x5C]
      else if c = CHR 0x08 then [CHR 0x5C, CHR ''b'']
      else if c = CHR 0x09 then [CHR 0x5C, CHR ''t'']
      else if c = CHR 0x0A then [CHR 0x5C, CHR ''n'']
      else if c = CHR 0x0C then [CHR 0x5C, CHR ''f'']
      else if c = CHR 0x0D then [CHR 0x5C, CHR ''r'']
      else if of_char c < (32 :: nat)
      then [CHR 0x5C, CHR ''u'', CHR ''0'', CHR ''0'', hex_char (of_char c div 16), hex_char (of_char c mod 16)]
      else [c])"

definition json_quote :: "string \<Rightarrow> string" where
  "json_quote s = CHR 0x22 # concat (map escape_char s) @ [CHR 0x22]"

fun join_with :: "string \<Rightarrow> string list \<Rightarrow> string" where
  "join_with sep [] = []"
| "join_with sep [x] = x"
| "join_with sep (x # y # ys) = x @ sep @ join_with sep (y # ys)"

fun stringify :: "json \<Rightarrow> string" where
  "stringify JNull = ''null''"
| "stringify (JBool b) = (if b then ''true'' else ''false'')"
| "stringify (JNum n) = n"
| "stringify (JStr s) = json_quote s"
| "stringify (JArr vs) = ''['' @ join_with '','' (map stringify vs) @ '']''"
| "stringify (JObj fs) = ''{'' @ join_with '','' (map (\<lambda>(k, v). json_quote k @ '':'' @ stringify v) fs) @ ''}''"

section \<open>Reading\<close>

definition json_space :: "char \<Rightarrow> bool" where
  "json_space c \<longleftrightarrow> c = CHR '' '' \<or> c = CHR 0x09 \<or> c = CHR 0x0A \<or> c = CHR 0x0D"

definition skip_ws :: "string \<Rightarrow> string" where
  "skip_ws s = dropWhile json_space s"

definition unicode_escape :: "char \<Rightarrow> char \<Rightarrow> char \<Rightarrow> char \<Rightarrow> char option" where
  "unicode_escape a b c d =
     (case (hex_value a, hex_value b, hex_value c, hex_value d) of
        (Some a, Some b, Some c, Some d) \<Rightarrow>
          (let n = ((a * 16 + b) * 16 + c) * 16 + d in if n < 256 then Some (char_of n) else None)
      | _ \<Rightarrow> None)"

definition simple_escape :: "char \<Rightarrow> char option" where
  "simple_escape e =
     (if e = CHR 0x22 \<or> e = CHR 0x5C \<or> e = CHR ''/'' then Some e
      else if e = CHR ''b'' then Some (CHR 0x08)
      else if e = CHR ''t'' then Some (CHR 0x09)
      else if e = CHR ''n'' then Some (CHR 0x0A)
      else if e = CHR ''f'' then Some (CHR 0x0C)
      else if e = CHR ''r'' then Some (CHR 0x0D) else None)"

abbreviation prepend :: "char \<Rightarrow> (string \<times> 'a) option \<Rightarrow> (string \<times> 'a) option" where
  "prepend c \<equiv> map_option (\<lambda>(s, r). (c # s, r))"

text \<open>The characters of a string up to its closing quote, and the rest of the input.\<close>

fun parse_chars :: "string \<Rightarrow> (string \<times> string) option" where
  "parse_chars [] = None"
| "parse_chars (c # cs) =
     (if c = CHR 0x22 then Some ([], cs)
      else if c = CHR 0x5C
      then (case cs of
              [] \<Rightarrow> None
            | e # es \<Rightarrow>
                if e = CHR ''u''
                then (case es of
                        x1 # x2 # x3 # x4 # rest \<Rightarrow>
                          (case unicode_escape x1 x2 x3 x4 of
                             None \<Rightarrow> None | Some ch \<Rightarrow> prepend ch (parse_chars rest))
                      | _ \<Rightarrow> None)
                else (case simple_escape e of None \<Rightarrow> None | Some ch \<Rightarrow> prepend ch (parse_chars es)))
      else if of_char c < (32 :: nat) then None
      else prepend c (parse_chars cs))"

definition is_digit :: "char \<Rightarrow> bool" where
  "is_digit c \<longleftrightarrow> CHR ''0'' \<le> c \<and> c \<le> CHR ''9''"

definition parse_digits :: "string \<Rightarrow> (string \<times> string) option" where
  "parse_digits s = (if takeWhile is_digit s = [] then None else Some (takeWhile is_digit s, dropWhile is_digit s))"

definition parse_integer :: "string \<Rightarrow> (string \<times> string) option" where
  "parse_integer s =
     (case s of
        [] \<Rightarrow> None
      | c # cs \<Rightarrow> if c = CHR ''0'' then Some ([c], cs) else parse_digits s)"

definition parse_fraction :: "string \<Rightarrow> (string \<times> string) option" where
  "parse_fraction s =
     (case s of
        c # cs \<Rightarrow> if c = CHR ''.'' then prepend c (parse_digits cs) else Some ([], s)
      | [] \<Rightarrow> Some ([], []))"

definition parse_exponent :: "string \<Rightarrow> (string \<times> string) option" where
  "parse_exponent s =
     (case s of
        c # cs \<Rightarrow>
          if c = CHR ''e'' \<or> c = CHR ''E''
          then (case cs of
                  d # ds \<Rightarrow>
                    if d = CHR ''+'' \<or> d = CHR ''-'' then prepend c (prepend d (parse_digits ds))
                    else prepend c (parse_digits cs)
                | [] \<Rightarrow> None)
          else Some ([], s)
      | [] \<Rightarrow> Some ([], []))"

definition parse_number :: "string \<Rightarrow> (string \<times> string) option" where
  "parse_number s =
     (let (sign, s0) = (case s of c # cs \<Rightarrow> if c = CHR ''-'' then ([c], cs) else ([], s) | [] \<Rightarrow> ([], []))
      in Option.bind (parse_integer s0) (\<lambda>(i, s1).
         Option.bind (parse_fraction s1) (\<lambda>(f, s2).
         Option.bind (parse_exponent s2) (\<lambda>(e, s3). Some (sign @ i @ f @ e, s3)))))"

definition literal :: "string \<Rightarrow> json \<Rightarrow> string \<Rightarrow> (json \<times> string) option" where
  "literal w v s = (if take (length w) s = w then Some (v, drop (length w) s) else None)"

text \<open>
  Values, the elements of an array and the members of an object.  Every call eats a character
  before it calls again, so the length of the input bounds the depth of the calls.
\<close>

fun parse_value :: "nat \<Rightarrow> string \<Rightarrow> (json \<times> string) option"
  and parse_elements :: "nat \<Rightarrow> string \<Rightarrow> (json list \<times> string) option"
  and parse_members :: "nat \<Rightarrow> string \<Rightarrow> ((string \<times> json) list \<times> string) option" where
  "parse_value 0 s = None"
| "parse_value (Suc n) s =
     (case skip_ws s of
        [] \<Rightarrow> None
      | c # cs \<Rightarrow>
          if c = CHR 0x22 then map_option (\<lambda>(t, r). (JStr t, r)) (parse_chars cs)
          else if c = CHR ''{''
          then (case skip_ws cs of
                  [] \<Rightarrow> None
                | d # ds \<Rightarrow> if d = CHR ''}'' then Some (JObj [], ds)
                             else map_option (\<lambda>(fs, r). (JObj fs, r)) (parse_members n cs))
          else if c = CHR ''[''
          then (case skip_ws cs of
                  [] \<Rightarrow> None
                | d # ds \<Rightarrow> if d = CHR '']'' then Some (JArr [], ds)
                             else map_option (\<lambda>(vs, r). (JArr vs, r)) (parse_elements n cs))
          else if c = CHR ''t'' then literal ''true'' (JBool True) (c # cs)
          else if c = CHR ''f'' then literal ''false'' (JBool False) (c # cs)
          else if c = CHR ''n'' then literal ''null'' JNull (c # cs)
          else map_option (\<lambda>(t, r). (JNum t, r)) (parse_number (c # cs)))"
| "parse_elements 0 s = None"
| "parse_elements (Suc n) s =
     (case parse_value n s of
        None \<Rightarrow> None
      | Some (v, r) \<Rightarrow>
          (case skip_ws r of
             [] \<Rightarrow> None
           | c # cs \<Rightarrow> if c = CHR '']'' then Some ([v], cs)
                        else if c = CHR '','' then map_option (\<lambda>(vs, r'). (v # vs, r')) (parse_elements n cs)
                        else None))"
| "parse_members 0 s = None"
| "parse_members (Suc n) s =
     (case skip_ws s of
        [] \<Rightarrow> None
      | q # qs \<Rightarrow>
          if q \<noteq> CHR 0x22 then None
          else (case parse_chars qs of
                  None \<Rightarrow> None
                | Some (k, r1) \<Rightarrow>
                    (case skip_ws r1 of
                       [] \<Rightarrow> None
                     | c # cs \<Rightarrow>
                         if c \<noteq> CHR '':'' then None
                         else (case parse_value n cs of
                                 None \<Rightarrow> None
                               | Some (v, r2) \<Rightarrow>
                                   (case skip_ws r2 of
                                      [] \<Rightarrow> None
                                    | d # ds \<Rightarrow>
                                        if d = CHR ''}'' then Some ([(k, v)], ds)
                                        else if d = CHR '',''
                                        then map_option (\<lambda>(fs, r). ((k, v) # fs, r)) (parse_members n ds)
                                        else None)))))"

definition json_parse :: "string \<Rightarrow> json option" where
  "json_parse s =
     (case parse_value (length s + 1) s of
        None \<Rightarrow> None
      | Some (v, r) \<Rightarrow> if skip_ws r = [] then Some v else None)"

text \<open>A member of an object: of several members with one name, the last counts.\<close>

definition member :: "json \<Rightarrow> string \<Rightarrow> json option" where
  "member v k =
     (case v of JObj fs \<Rightarrow> map_of (rev fs) k | _ \<Rightarrow> None)"

section \<open>Reading back what was printed\<close>

declare parse_value.simps [simp del] parse_members.simps [simp del] parse_elements.simps [simp del]

lemma hex_value_char: "d < 16 \<Longrightarrow> hex_value (hex_char d) = Some d"
proof -
  have "list_all (\<lambda>d. hex_value (hex_char d) = Some d) [0..<16]" by code_simp
  then show "d < 16 \<Longrightarrow> ?thesis" by (simp add: list_all_iff)
qed

lemma unicode_escape_small:
  assumes "of_char c < (256 :: nat)"
  shows "unicode_escape (CHR ''0'') (CHR ''0'') (hex_char (of_char c div 16)) (hex_char (of_char c mod 16)) = Some c"
proof -
  have "hex_value (CHR ''0'') = Some 0" using hex_value_char [of 0] by (simp add: hex_char_def)
  moreover have "hex_value (hex_char (of_char c div 16)) = Some (of_char c div 16)"
    using assms by (intro hex_value_char) (simp add: less_mult_imp_div_less)
  moreover have "hex_value (hex_char (of_char c mod 16)) = Some (of_char c mod 16)"
    by (intro hex_value_char) simp
  ultimately show ?thesis using assms by (simp add: unicode_escape_def Let_def)
qed

lemma parse_chars_escape: "parse_chars (escape_char c @ r) = prepend c (parse_chars r)"
proof -
  consider "c \<in> {CHR 0x22, CHR 0x5C, CHR 0x08, CHR 0x09, CHR 0x0A, CHR 0x0C, CHR 0x0D}"
    | "c \<notin> {CHR 0x22, CHR 0x5C, CHR 0x08, CHR 0x09, CHR 0x0A, CHR 0x0C, CHR 0x0D}" "of_char c < (32 :: nat)"
    | "c \<notin> {CHR 0x22, CHR 0x5C, CHR 0x08, CHR 0x09, CHR 0x0A, CHR 0x0C, CHR 0x0D}" "\<not> of_char c < (32 :: nat)"
    by blast
  then show ?thesis
  proof cases
    case 1
    then show ?thesis by (auto simp: escape_char_def simple_escape_def)
  next
    case 2
    then show ?thesis using unicode_escape_small [of c] by (simp add: escape_char_def)
  next
    case 3
    then show ?thesis by (simp add: escape_char_def)
  qed
qed

lemma parse_chars_quoted: "parse_chars (concat (map escape_char s) @ CHR 0x22 # r) = Some (s, r)"
  by (induction s) (simp_all add: parse_chars_escape)

lemma skip_ws_Cons [simp]: "\<not> json_space c \<Longrightarrow> skip_ws (c # s) = c # s"
  by (simp add: skip_ws_def)

lemma json_space_simps [simp]:
  "\<not> json_space (CHR 0x22)" "\<not> json_space (CHR '':'')" "\<not> json_space (CHR '','')" "\<not> json_space (CHR ''}'')"
  "\<not> json_space (CHR ''{'')" "\<not> json_space (CHR ''n'')"
  by (simp_all add: json_space_def)

text \<open>The values WrapLink prints: texts and \<open>null\<close>.\<close>

fun flat :: "json \<Rightarrow> bool" where
  "flat JNull \<longleftrightarrow> True"
| "flat (JStr s) \<longleftrightarrow> True"
| "flat _ \<longleftrightarrow> False"

lemma parse_flat: "flat v \<Longrightarrow> parse_value (Suc n) (stringify v @ r) = Some (v, r)"
  by (cases v) (auto simp: parse_value.simps(2) json_quote_def parse_chars_quoted literal_def)

abbreviation field_text :: "string \<times> json \<Rightarrow> string" where
  "field_text \<equiv> \<lambda>(k, v). json_quote k @ '':'' @ stringify v"

lemma parse_members_flat:
  "fs \<noteq> [] \<Longrightarrow> list_all (\<lambda>(k, v). flat v) fs \<Longrightarrow> length fs < n \<Longrightarrow>
     parse_members n (join_with '','' (map field_text fs) @ ''}'' @ r) = Some (fs, r)"
proof (induction fs arbitrary: n)
  case (Cons f fs)
  obtain k v where f: "f = (k, v)" by (cases f)
  obtain m where n: "n = Suc (Suc m)" using Cons.prems(3) by (cases n; cases "n - 1") auto
  have v: "parse_value (Suc m) (stringify v @ t) = Some (v, t)" for t
    using Cons.prems(2) f by (intro parse_flat) simp
  have q: "json_quote k @ t = CHR 0x22 # concat (map escape_char k) @ CHR 0x22 # t" for t
    by (simp add: json_quote_def)
  show ?case
  proof (cases fs)
    case Nil
    show ?thesis unfolding n Nil f by (simp add: parse_members.simps(2) q parse_chars_quoted v)
  next
    case (Cons g gs)
    have "parse_members (Suc m) (join_with '','' (map field_text fs) @ ''}'' @ r) = Some (fs, r)"
      by (rule Cons.IH) (use Cons.prems n \<open>fs = g # gs\<close> in auto)
    then show ?thesis unfolding n f by (simp add: parse_members.simps(2) q parse_chars_quoted v \<open>fs = g # gs\<close>)
  qed
qed simp

lemma length_join_with: "length fs \<le> length (join_with '','' (map field_text fs))"
proof (induction fs rule: induct_list012)
  case (3 f g fs)
  then show ?case by (cases f) (auto simp: json_quote_def)
qed (auto simp: json_quote_def)

lemma json_parse_flat:
  assumes "fs \<noteq> []" "list_all (\<lambda>(k, v). flat v) fs"
  shows "json_parse (stringify (JObj fs)) = Some (JObj fs)"
proof -
  define t where "t = join_with '','' (map field_text fs)"
  have printed: "stringify (JObj fs) = CHR ''{'' # t @ ''}''" by (simp add: t_def)
  have "\<exists>x. t = CHR 0x22 # x"
    using assms(1) by (cases fs rule: remdups_adj.cases) (auto simp: t_def json_quote_def)
  then obtain x where x: "t = CHR 0x22 # x" by blast
  have "parse_members (length t + 2) (t @ ''}'' @ []) = Some (fs, [])"
    unfolding t_def using length_join_with [of fs] by (intro parse_members_flat assms) simp
  then show ?thesis
    unfolding printed by (simp add: json_parse_def parse_value.simps(2) x skip_ws_def json_space_def)
qed

end
