(* ===== verification/Iso_Date.thy ===== *)
theory Iso_Date
  imports Prelude
begin

text \<open>
  The dates of the language as the sources use them: a \<open>Date\<close> is its time value, an integer of
  milliseconds since 1970; \<open>toISOString\<close> prints it and \<open>new Date(text)\<close> reads it back.
  The calendar is the proleptic Gregorian one of the ECMAScript specification.  Texts that
  \<open>toISOString\<close> does not produce are read by \<open>other\<close>, a parameter: the language leaves them, in part, to
  the implementation.
\<close>

section \<open>The calendar\<close>

definition DayFromYear :: "int \<Rightarrow> int" where
  "DayFromYear y = 365 * (y - 1970) + (y - 1969) div 4 - (y - 1901) div 100 + (y - 1601) div 400"

definition leap_year :: "int \<Rightarrow> bool" where
  "leap_year y \<longleftrightarrow> DayFromYear (y + 1) - DayFromYear y = 366"

definition YearFromDay :: "int \<Rightarrow> int" where
  "YearFromDay d =
     (let y = 1970 + (400 * d) div 146097
      in if d < DayFromYear y then y - 1 else if DayFromYear (y + 1) \<le> d then y + 1 else y)"

text \<open>The first day of a month (from 0) in its year, and the month of a day of the year.\<close>

definition month_start :: "bool \<Rightarrow> nat \<Rightarrow> int" where
  "month_start leap m =
     [0, 31, 59, 90, 120, 151, 181, 212, 243, 273, 304, 334, 365] ! m + (if leap \<and> 2 \<le> m then 1 else 0)"

definition month_of :: "bool \<Rightarrow> int \<Rightarrow> nat" where
  "month_of leap n = length (filter (\<lambda>m. month_start leap m \<le> n) [1..<12])"

definition MakeDay :: "int \<Rightarrow> nat \<Rightarrow> int \<Rightarrow> int" where
  "MakeDay y m dt = DayFromYear y + month_start (leap_year y) m + dt - 1"

definition max_time :: int where "max_time = 8640000000000000"

definition valid_time :: "int \<Rightarrow> bool" where
  "valid_time t \<longleftrightarrow> \<bar>t\<bar> \<le> max_time"

section \<open>Printing and reading\<close>

fun fixed_digits :: "nat \<Rightarrow> nat \<Rightarrow> string" where
  "fixed_digits 0 n = []"
| "fixed_digits (Suc w) n = fixed_digits w (n div 10) @ [digit_char (n mod 10)]"

definition iso_year :: "int \<Rightarrow> string" where
  "iso_year y =
     (if 0 \<le> y \<and> y \<le> 9999 then fixed_digits 4 (nat y)
      else (if y < 0 then CHR ''-'' else CHR ''+'') # fixed_digits 6 (nat \<bar>y\<bar>))"

definition iso_rest :: "nat \<Rightarrow> int \<Rightarrow> int \<Rightarrow> string" where
  "iso_rest m dt ms =
     ''-'' @ fixed_digits 2 (m + 1) @ ''-'' @ fixed_digits 2 (nat dt) @ ''T'' @
     fixed_digits 2 (nat (ms div 3600000)) @ '':'' @ fixed_digits 2 (nat (ms div 60000 mod 60)) @ '':'' @
     fixed_digits 2 (nat (ms div 1000 mod 60)) @ ''.'' @ fixed_digits 3 (nat (ms mod 1000)) @ ''Z''"

definition toISOString :: "int \<Rightarrow> string" where
  "toISOString t =
     (let d = t div 86400000; y = YearFromDay d; n = d - DayFromYear y; m = month_of (leap_year y) n
      in iso_year y @ iso_rest m (n - month_start (leap_year y) m + 1) (t mod 86400000))"

text \<open>A field of \<open>w\<close> digits followed by the text \<open>sep\<close>; the rest of the input is handed on.\<close>

definition field :: "nat \<Rightarrow> string \<Rightarrow> string \<Rightarrow> (int \<times> string) option" where
  "field w sep s =
     (if w + length sep \<le> length s \<and> take (length sep) (drop w s) = sep
      then map_option (\<lambda>n. (int n, drop (w + length sep) s)) (digits_value 0 (take w s))
      else None)"

definition parse_year :: "string \<Rightarrow> (int \<times> string) option" where
  "parse_year s =
     (case s of
        [] \<Rightarrow> None
      | c # cs \<Rightarrow>
          if c = CHR ''-''
          then Option.bind (field 6 ''-'' cs) (\<lambda>(y, r). if y = 0 then None else Some (- y, r))
          else if c = CHR ''+'' then field 6 ''-'' cs
          else field 4 ''-'' s)"

definition parse_iso :: "string \<Rightarrow> int option" where
  "parse_iso s =
     Option.bind (parse_year s) (\<lambda>(y, s1).
     Option.bind (field 2 ''-'' s1) (\<lambda>(mo, s2).
     Option.bind (field 2 ''T'' s2) (\<lambda>(dt, s3).
     Option.bind (field 2 '':'' s3) (\<lambda>(h, s4).
     Option.bind (field 2 '':'' s4) (\<lambda>(mi, s5).
     Option.bind (field 2 ''.'' s5) (\<lambda>(sec, s6).
     Option.bind (field 3 ''Z'' s6) (\<lambda>(ms, s7).
       let m = nat (mo - 1);
           t = MakeDay y m dt * 86400000 + h * 3600000 + mi * 60000 + sec * 1000 + ms
       in if s7 = [] \<and> 1 \<le> mo \<and> mo \<le> 12 \<and> 1 \<le> dt \<and>
             dt \<le> month_start (leap_year y) (m + 1) - month_start (leap_year y) m \<and>
             h < 24 \<and> mi < 60 \<and> sec < 60 \<and> valid_time t
          then Some t else None)))))))"

definition new_Date :: "(string \<Rightarrow> int option) \<Rightarrow> string \<Rightarrow> int option" where
  "new_Date other s = (case parse_iso s of Some t \<Rightarrow> Some t | None \<Rightarrow> other s)"

section \<open>The calendar is consistent\<close>

lemma div_bounds:
  fixes x k :: int
  assumes "0 < k"
  shows "k * (x div k) \<le> x" "x < k * (x div k) + k"
  using pos_mod_sign [OF assms, of x] pos_mod_bound [OF assms, of x] mult_div_mod_eq [of k x] by linarith+

lemmas div_bounds_num =
  div_bounds [of 4, simplified] div_bounds [of 100, simplified] div_bounds [of 400, simplified]

lemma DayFromYear_close:
  shows DayFromYear_le: "400 * DayFromYear y < 146097 * (y - 1970) + 590"
    and DayFromYear_gr: "146097 * (y - 1970) - 507 < 400 * DayFromYear y"
proof -
  note b = div_bounds_num(1,2) [of "y - 1969"] div_bounds_num(3,4) [of "y - 1901"]
    div_bounds_num(5,6) [of "y - 1601"]
  show "400 * DayFromYear y < 146097 * (y - 1970) + 590" using b unfolding DayFromYear_def by (simp add: algebra_simps)
  show "146097 * (y - 1970) - 507 < 400 * DayFromYear y" using b unfolding DayFromYear_def by (simp add: algebra_simps)
qed

lemma div_step:
  fixes x k :: int
  assumes k: "0 < k"
  shows "(x + 1) div k - x div k = (if k dvd x + 1 then 1 else 0)"
proof -
  define q r where "q = (x + 1) div k" and "r = (x + 1) mod k"
  have x: "x + 1 = k * q + r" "0 \<le> r" "r < k" using k by (simp_all add: q_def r_def)
  have "x div k = (if r = 0 then q - 1 else q)"
  proof (cases "r = 0")
    case True
    have "x div k = q - 1"
      by (rule int_div_pos_eq [of _ _ _ "k - 1"]) (use x True k in \<open>auto simp: algebra_simps\<close>)
    with True show ?thesis by simp
  next
    case False
    have "x div k = q" by (rule int_div_pos_eq [of _ _ _ "r - 1"]) (use x False in auto)
    with False show ?thesis by simp
  qed
  moreover have "k dvd x + 1 \<longleftrightarrow> r = 0" by (simp add: r_def dvd_eq_mod_eq_0)
  ultimately show ?thesis by (simp add: q_def)
qed

lemma year_length: "DayFromYear (y + 1) - DayFromYear y = (if leap_year y then 366 else 365)"
proof -
  have 1: "(y - 1968) div 4 - (y - 1969) div 4 = (if 4 dvd y - 1968 then 1 else 0)"
    using div_step [of 4 "y - 1969"] by simp
  have 2: "(y - 1900) div 100 - (y - 1901) div 100 = (if 100 dvd y - 1900 then 1 else 0)"
    using div_step [of 100 "y - 1901"] by simp
  have 3: "(y - 1600) div 400 - (y - 1601) div 400 = (if 400 dvd y - 1600 then 1 else 0)"
    using div_step [of 400 "y - 1601"] by simp
  have 4: "4 dvd y - 1968" if "100 dvd y - 1900"
  proof -
    from that obtain k where "y - 1900 = 100 * k" by (elim dvdE)
    then have "y - 1968 = 4 * (25 * k - 17)" by simp
    then show ?thesis by simp
  qed
  have 5: "100 dvd y - 1900" if "400 dvd y - 1600"
  proof -
    from that obtain k where "y - 1600 = 400 * k" by (elim dvdE)
    then have "y - 1900 = 100 * (4 * k - 3)" by simp
    then show ?thesis by simp
  qed
  have "DayFromYear (y + 1) - DayFromYear y = 365 + ((y - 1968) div 4 - (y - 1969) div 4) -
      ((y - 1900) div 100 - (y - 1901) div 100) + ((y - 1600) div 400 - (y - 1601) div 400)"
    by (simp add: DayFromYear_def)
  then have "DayFromYear (y + 1) - DayFromYear y \<in> {365, 366}" unfolding 1 2 3 using 4 5 by auto
  then show ?thesis by (auto simp: leap_year_def)
qed

lemma YearFromDay:
  shows YearFromDay_le: "DayFromYear (YearFromDay d) \<le> d"
    and YearFromDay_gr: "d < DayFromYear (YearFromDay d + 1)"
proof -
  define y where "y = 1970 + (400 * d) div 146097"
  have y: "146097 * (y - 1970) \<le> 400 * d" "400 * d < 146097 * (y - 1970) + 146097"
    using div_bounds [of 146097 "400 * d"] by (simp_all add: y_def)
  have lo: "DayFromYear (y - 1) < d + 1" using y DayFromYear_le [of "y - 1"] by (simp add: algebra_simps)
  have hi: "d < DayFromYear (y + 2)" using y DayFromYear_gr [of "y + 2"] by (simp add: algebra_simps)
  from lo hi show "DayFromYear (YearFromDay d) \<le> d" "d < DayFromYear (YearFromDay d + 1)"
    by (auto simp: YearFromDay_def y_def [symmetric] Let_def add.commute)
qed

lemma month_start_ends: "month_start leap 0 = 0" "month_start leap 12 = (if leap then 366 else 365)"
  by (simp_all add: month_start_def)

lemma month_of_bounds:
  assumes "0 \<le> n" "n < (if leap then 366 else 365)"
  shows "month_of leap n < 12" "month_start leap (month_of leap n) \<le> n"
    and "n < month_start leap (month_of leap n + 1)"
proof -
  have "month_of leap n < 12 \<and> month_start leap (month_of leap n) \<le> n \<and> n < month_start leap (month_of leap n + 1)"
    using assms by (cases leap) (auto simp: month_of_def month_start_def upt_rec)
  then show "month_of leap n < 12" "month_start leap (month_of leap n) \<le> n"
    "n < month_start leap (month_of leap n + 1)" by blast+
qed

section \<open>Round trip\<close>

lemma length_fixed_digits [simp]: "length (fixed_digits w n) = w"
  by (induction w n rule: fixed_digits.induct) auto

lemma digits_value_fixed: "n < 10 ^ w \<Longrightarrow> digits_value 0 (fixed_digits w n) = Some n"
proof (induction w n rule: fixed_digits.induct)
  case (2 w n)
  then have "n div 10 < 10 ^ w" by (simp add: less_mult_imp_div_less mult.commute)
  with 2 show ?case by (simp add: digits_value_append)
qed simp

lemma field_fixed: "n < 10 ^ w \<Longrightarrow> field w sep (fixed_digits w n @ sep @ r) = Some (int n, r)"
  by (simp add: field_def digits_value_fixed)

lemma field_int: "0 \<le> i \<Longrightarrow> i < 10 ^ w \<Longrightarrow> field w sep (fixed_digits w (nat i) @ sep @ r) = Some (i, r)"
  by (subst field_fixed) (simp_all add: nat_less_iff)

lemma fixed_digits_hd: "fixed_digits (Suc w) n = digit_char (n div 10 ^ w mod 10) # fixed_digits w n"
proof (induction w arbitrary: n)
  case (Suc w)
  have "fixed_digits (Suc (Suc w)) n = fixed_digits (Suc w) (n div 10) @ [digit_char (n mod 10)]" by simp
  also have "\<dots> = digit_char (n div 10 div 10 ^ w mod 10) # fixed_digits w (n div 10) @ [digit_char (n mod 10)]"
    unfolding Suc by simp
  finally show ?case by (simp add: div_mult2_eq)
qed simp

lemma digit_char_not_sign: "d < 10 \<Longrightarrow> digit_char d \<noteq> CHR ''-'' \<and> digit_char d \<noteq> CHR ''+''"
  by (auto simp: less_Suc_eq numeral_eq_Suc digit_char_def)

lemma parse_year_iso:
  assumes "\<bar>y\<bar> < 10 ^ 6"
  shows "parse_year (iso_year y @ ''-'' @ r) = Some (y, r)"
proof (cases "0 \<le> y \<and> y \<le> 9999")
  case True
  define d where "d = digit_char (nat y div 10 ^ 3 mod 10)"
  have d: "d \<noteq> CHR ''-''" "d \<noteq> CHR ''+''" using digit_char_not_sign by (simp_all add: d_def)
  have "fixed_digits 4 (nat y) = d # fixed_digits 3 (nat y)"
    using fixed_digits_hd [of 3 "nat y"] by (simp add: d_def del: fixed_digits.simps)
  moreover have "field 4 ''-'' (fixed_digits 4 (nat y) @ ''-'' @ r) = Some (y, r)"
    using True by (intro field_int) auto
  ultimately show ?thesis using True d by (simp add: iso_year_def parse_year_def del: fixed_digits.simps)
next
  case False
  have "field 6 ''-'' (fixed_digits 6 (nat \<bar>y\<bar>) @ ''-'' @ r) = Some (\<bar>y\<bar>, r)"
    using assms by (intro field_int) auto
  with False show ?thesis by (auto simp: iso_year_def parse_year_def simp del: fixed_digits.simps)
qed

lemma year_bound:
  assumes "valid_time t"
  shows "\<bar>YearFromDay (t div 86400000)\<bar> < 10 ^ 6"
proof -
  define d where "d = t div 86400000"
  have t: "- 8640000000000000 \<le> t" "t \<le> 8640000000000000"
    using assms by (auto simp: valid_time_def max_time_def)
  have d: "- 100000000 \<le> d" "d \<le> 100000000"
    using zdiv_mono1 [OF t(1), of 86400000] zdiv_mono1 [OF t(2), of 86400000] by (simp_all add: d_def)
  have "146097 * (YearFromDay d - 1970) - 507 < 400 * d"
    using DayFromYear_gr [of "YearFromDay d"] YearFromDay_le [of d] by (simp add: algebra_simps)
  moreover have "400 * d < 146097 * (YearFromDay d + 1 - 1970) + 590"
    using DayFromYear_le [of "YearFromDay d + 1"] YearFromDay_gr [of d] by (simp add: algebra_simps)
  ultimately show ?thesis using d by (simp add: d_def [symmetric] abs_less_iff algebra_simps)
qed

lemma time_of_day:
  fixes ms :: int
  assumes "0 \<le> ms" "ms < 86400000"
  shows "ms div 3600000 < 24" "ms div 60000 mod 60 < 60" "ms div 1000 mod 60 < 60"
    and "ms div 3600000 * 3600000 + ms div 60000 mod 60 * 60000 + ms div 1000 mod 60 * 1000 + ms mod 1000 = ms"
proof -
  define s where "s = ms div 1000"
  have ms: "ms = 1000 * s + ms mod 1000" by (simp add: s_def)
  have m: "ms div 60000 = s div 60" and h: "ms div 3600000 = s div 60 div 60"
    by (simp_all add: s_def zdiv_zmult2_eq [symmetric])
  have "s = 60 * (s div 60) + s mod 60" "s div 60 = 60 * (s div 60 div 60) + s div 60 mod 60" by simp_all
  with ms show "ms div 3600000 * 3600000 + ms div 60000 mod 60 * 60000 + ms div 1000 mod 60 * 1000 + ms mod 1000 = ms"
    unfolding m h s_def [symmetric] by linarith
  show "ms div 3600000 < 24" using assms(2) by (simp add: div_less_iff_less_mult)
qed simp_all

text \<open>Reading back what \<open>toISOString\<close> printed gives the instant, for every valid time value.\<close>

lemma parse_iso_rest:
  assumes y: "parse_year s = Some (y, drop 1 (iso_rest m dt ms))"
    and m: "m < 12" and dt: "1 \<le> dt" "dt \<le> month_start (leap_year y) (m + 1) - month_start (leap_year y) m"
    and ms: "0 \<le> ms" "ms < 86400000"
    and t: "valid_time (MakeDay y m dt * 86400000 + ms)"
  shows "parse_iso s = Some (MakeDay y m dt * 86400000 + ms)"
proof -
  have "dt < 100"
    using dt(2) m by (auto simp: month_start_def less_Suc_eq numeral_eq_Suc split: if_splits)
  then have f2: "field 2 ''T'' (fixed_digits 2 (nat dt) @ ''T'' @ r) = Some (dt, r)" for r
    using dt(1) by (intro field_int) simp_all
  have f1: "field 2 ''-'' (fixed_digits 2 (m + 1) @ ''-'' @ r) = Some (int (m + 1), r)" for r
    using m by (intro field_fixed) simp
  have f3: "field 2 '':'' (fixed_digits 2 (nat (ms div 3600000)) @ '':'' @ r) = Some (ms div 3600000, r)" for r
    using ms time_of_day(1) [OF ms] by (intro field_int) (simp_all add: pos_imp_zdiv_nonneg_iff)
  have f4: "field 2 '':'' (fixed_digits 2 (nat (ms div 60000 mod 60)) @ '':'' @ r) = Some (ms div 60000 mod 60, r)" for r
    by (rule field_int) (use time_of_day(2) [OF ms] in simp_all)
  have f5: "field 2 ''.'' (fixed_digits 2 (nat (ms div 1000 mod 60)) @ ''.'' @ r) = Some (ms div 1000 mod 60, r)" for r
    by (rule field_int) (use time_of_day(3) [OF ms] in simp_all)
  have f6: "field 3 ''Z'' (fixed_digits 3 (nat (ms mod 1000)) @ ''Z'') = Some (ms mod 1000, [])"
    using field_int [of "ms mod 1000" 3 "''Z''" "[]"] by simp
  have rest: "drop 1 (iso_rest m dt ms) = fixed_digits 2 (m + 1) @ ''-'' @ fixed_digits 2 (nat dt) @ ''T'' @
     fixed_digits 2 (nat (ms div 3600000)) @ '':'' @ fixed_digits 2 (nat (ms div 60000 mod 60)) @ '':'' @
     fixed_digits 2 (nat (ms div 1000 mod 60)) @ ''.'' @ fixed_digits 3 (nat (ms mod 1000)) @ ''Z''"
    by (simp add: iso_rest_def del: fixed_digits.simps)
  have tm: "MakeDay y m dt * 86400000 + ms div 3600000 * 3600000 + ms div 60000 mod 60 * 60000 +
      ms div 1000 mod 60 * 1000 + ms mod 1000 = MakeDay y m dt * 86400000 + ms"
    using time_of_day(4) [OF ms] by linarith
  show ?thesis
    unfolding parse_iso_def y rest f1 f2 f3 f4 f5 f6 bind.bind_lunit prod.case
    using m dt t time_of_day(1-3) [OF ms] by (simp add: Let_def tm)
qed

lemma parse_toISOString:
  assumes "valid_time t"
  shows "parse_iso (toISOString t) = Some t"
proof -
  define d y where "d = t div 86400000" and "y = YearFromDay d"
  define n m where "n = d - DayFromYear y" and "m = month_of (leap_year y) n"
  define dt where "dt = n - month_start (leap_year y) m + 1"
  have n: "0 \<le> n" "n < (if leap_year y then 366 else 365)"
    using YearFromDay [of d] year_length [of y] by (simp_all add: n_def y_def)
  note b = month_of_bounds [OF n, folded m_def]
  have day: "MakeDay y m dt = d" by (simp add: MakeDay_def dt_def n_def)
  have iso: "toISOString t = iso_year y @ ''-'' @ drop 1 (iso_rest m dt (t mod 86400000))"
    by (simp add: toISOString_def Let_def iso_rest_def d_def y_def n_def m_def dt_def del: fixed_digits.simps)
  have "parse_iso (toISOString t) = Some (MakeDay y m dt * 86400000 + t mod 86400000)"
  proof (rule parse_iso_rest)
    show "parse_year (toISOString t) = Some (y, drop 1 (iso_rest m dt (t mod 86400000)))"
      unfolding iso using year_bound [OF assms] by (intro parse_year_iso) (simp add: y_def d_def)
    show "m < 12" "1 \<le> dt" "dt \<le> month_start (leap_year y) (m + 1) - month_start (leap_year y) m"
      using b by (simp_all add: dt_def)
    show "valid_time (MakeDay y m dt * 86400000 + t mod 86400000)"
      using assms by (simp add: day d_def)
  qed simp_all
  then show ?thesis by (simp add: day d_def)
qed

lemma new_Date_toISOString [simp]: "valid_time t \<Longrightarrow> new_Date other (toISOString t) = Some t"
  by (simp add: new_Date_def parse_toISOString)

lemma toISOString_neq_Nil [simp]: "toISOString t \<noteq> []"
  by (simp add: toISOString_def Let_def iso_rest_def)

lemma toISOString_example: "toISOString 1709210096789 = ''2024-02-29T12:34:56.789Z''"
  by code_simp

end
