(* ===== verification/Write_Behind.thy ===== *)
theory Write_Behind
  imports Link_Keyspace Link Json Iso_Date
begin

text \<open>
  \<open>src/src/store/write-behind-link-store.ts\<close>: the records of the sync queue, the script that accepts a
  link, and \<open>WriteBehindLinkStore\<close>.  The synchronous store it wraps is an argument, over a state that
  contains the Redis server, since the store the server passes in caches in the same
  Redis.  Dates are valid time values.  The counters a call increments are part of its result.
\<close>

section \<open>Queue records\<close>

definition iso_or_null :: "int option \<Rightarrow> json" where
  "iso_or_null d = (case d of None \<Rightarrow> JNull | Some t \<Rightarrow> JStr (toISOString t))"

definition serializePendingLink :: "pending_link \<Rightarrow> string" where
  "serializePendingLink l = stringify (JObj
     [(''code'', JStr (pending_code l)), (''targetUrl'', JStr (pending_targetUrl l)),
      (''createdAt'', JStr (toISOString (pending_createdAt l))),
      (''expiresAt'', iso_or_null (pending_expiresAt l))])"

definition parsePendingLink :: "(string \<Rightarrow> int option) \<Rightarrow> string \<Rightarrow> pending_link option" where
  "parsePendingLink other s =
     (case json_parse s of
        None \<Rightarrow> None
      | Some v \<Rightarrow>
          (case (member v ''code'', member v ''targetUrl'', member v ''createdAt'') of
             (Some (JStr code), Some (JStr url), Some (JStr created)) \<Rightarrow>
               if \<not> CODE_PATTERN code \<or> length url = 0 \<or> 2048 < length url then None
               else (case new_Date other created of
                       None \<Rightarrow> None
                     | Some c \<Rightarrow>
                         (case member v ''expiresAt'' of
                            Some JNull \<Rightarrow> Some \<lparr>pending_code = code, pending_targetUrl = url,
                                               pending_createdAt = c, pending_expiresAt = None\<rparr>
                          | Some (JStr expires) \<Rightarrow>
                              (case new_Date other expires of
                                 None \<Rightarrow> None
                               | Some e \<Rightarrow> Some \<lparr>pending_code = code, pending_targetUrl = url,
                                               pending_createdAt = c, pending_expiresAt = Some e\<rparr>)
                          | _ \<Rightarrow> None))
           | _ \<Rightarrow> None))"

section \<open>The enqueue script\<close>

definition cache_fields :: "string \<Rightarrow> string \<Rightarrow> string \<Rightarrow> string \<Rightarrow> string \<Rightarrow> (string \<times> string) list" where
  "cache_fields code url created expires clicks =
     [(''code'', code), (''targetUrl'', url), (''createdAt'', created), (''expiresAt'', expires),
      (''clicks'', clicks)]"

definition ENQUEUE_LINK ::
  "'r redis \<Rightarrow> string \<Rightarrow> string \<Rightarrow> int \<Rightarrow> string \<Rightarrow> string \<Rightarrow> string \<Rightarrow> string \<Rightarrow> string \<Rightarrow> int \<Rightarrow> 'r \<Rightarrow> 'r \<times> int" where
  "ENQUEUE_LINK R key queue maxPending payload code url created expires ttlMs r =
     (if redis_exists R key r then (r, 0)
      else if maxPending \<le> int (redis_llen R queue r) then (r, - 1)
      else let r1 = redis_hset R key (cache_fields code url created expires ''0'' @ [(''pending'', ''1'')]) r;
               r2 = (if ttlMs \<noteq> 0 then redis_pexpire R key ttlMs r1 else r1);
               r3 = redis_rpush R queue payload r2
           in (r3, 1))"

section \<open>The store\<close>

datatype wb_error = BadMaxPending

definition WriteBehindLinkStore :: "js_number \<Rightarrow> wb_error + int" where
  "WriteBehindLinkStore maxPendingLinks =
     (case maxPendingLinks of
        IntNum n \<Rightarrow>
          if \<not> isSafeInteger n \<or> n < 1 then Inl BadMaxPending
          else Inr (max 1 ((n + LINK_KEY_SHARDS - 1) div LINK_KEY_SHARDS))
      | NotInt \<Rightarrow> Inl BadMaxPending)"

type_synonym ('w, 'e) sync_create = "create_input \<Rightarrow> 'w \<Rightarrow> 'w \<times> ('e + link option)"

definition expiry_text :: "int option \<Rightarrow> string" where
  "expiry_text d = (case d of None \<Rightarrow> [] | Some t \<Rightarrow> toISOString t)"

definition createCustom ::
  "'r redis \<Rightarrow> ('r \<times> 's, 'e) sync_create \<Rightarrow> bool \<Rightarrow> net \<Rightarrow> create_input \<Rightarrow> 'r \<times> 's \<Rightarrow>
   ('r \<times> 's) \<times> ('e + link option)" where
  "createCustom R synchronous isReady n input w =
     (if isReady
      then (case linkKey (input_code input) of
              Inl _ \<Rightarrow> synchronous input w
            | Inr key \<Rightarrow>
                if n = NetOk \<and> redis_hget R key ''pending'' (fst w) = Some ''1'' then (w, Inr None)
                else synchronous input w)
      else synchronous input w)"

definition input_pending :: "int \<Rightarrow> create_input \<Rightarrow> pending_link" where
  "input_pending createdAt input = \<lparr>pending_code = input_code input, pending_targetUrl = input_targetUrl input,
     pending_createdAt = createdAt, pending_expiresAt = input_expiresAt input\<rparr>"

definition input_link :: "int \<Rightarrow> create_input \<Rightarrow> link" where
  "input_link createdAt input = \<lparr>link_code = input_code input, link_targetUrl = input_targetUrl input,
     link_createdAt = createdAt, link_expiresAt = input_expiresAt input, link_clicks = 0\<rparr>"

definition wb_create ::
  "'r redis \<Rightarrow> ('r \<times> 's, 'e) sync_create \<Rightarrow> int \<Rightarrow> bool \<Rightarrow> net \<Rightarrow> int \<Rightarrow> create_input \<Rightarrow> 'r \<times> 's \<Rightarrow>
   (('r \<times> 's) \<times> ('e + link option)) \<times> string list" where
  "wb_create R synchronous maxPendingPerShard isReady n createdAt input w =
     (if input_codeSource input = Custom then (createCustom R synchronous isReady n input w, [])
      else if \<not> isReady then (synchronous input w, [''write_behind_fallbacks''])
      else case (linkKey (input_code input), syncQueueKey (shardOf (input_code input))) of
             (Inr key, Inr queue) \<Rightarrow>
               (let (r', outcome) = remote n (ENQUEUE_LINK R key queue maxPendingPerShard
                      (serializePendingLink (input_pending createdAt input))
                      (input_code input) (input_targetUrl input) (toISOString createdAt)
                      (expiry_text (input_expiresAt input))
                      (case input_expiresAt input of None \<Rightarrow> 0 | Some e \<Rightarrow> max 1 (e - createdAt))) (fst w);
                    w' = (r', snd w)
                in case outcome of
                     None \<Rightarrow> (synchronous input w', [''write_behind_fallbacks''])
                   | Some code \<Rightarrow>
                       if code = 1 then ((w', Inr (Some (input_link createdAt input))), [''links_queued''])
                       else if code = 0 then ((w', Inr None), [])
                       else (synchronous input w', [''write_behind_backpressure'']))
           | _ \<Rightarrow> (synchronous input w, [''write_behind_fallbacks'']))"

section \<open>Round trip of queue records\<close>

definition pending_ok :: "pending_link \<Rightarrow> bool" where
  "pending_ok l \<longleftrightarrow> CODE_PATTERN (pending_code l) \<and> 1 \<le> length (pending_targetUrl l) \<and>
     length (pending_targetUrl l) \<le> 2048 \<and> valid_time (pending_createdAt l) \<and>
     (case pending_expiresAt l of None \<Rightarrow> True | Some e \<Rightarrow> valid_time e)"

lemma parse_serialize: "pending_ok l \<Longrightarrow> parsePendingLink other (serializePendingLink l) = Some l"
proof -
  assume l: "pending_ok l"
  have "json_parse (serializePendingLink l) = Some (JObj
     [(''code'', JStr (pending_code l)), (''targetUrl'', JStr (pending_targetUrl l)),
      (''createdAt'', JStr (toISOString (pending_createdAt l))),
      (''expiresAt'', iso_or_null (pending_expiresAt l))])"
    unfolding serializePendingLink_def
    by (rule json_parse_flat) (auto simp: iso_or_null_def split: option.split)
  with l show ?thesis
    by (cases "pending_expiresAt l")
      (auto simp: parsePendingLink_def member_def pending_ok_def iso_or_null_def)
qed

text \<open>C22: A link put in the sync queue is the link the worker reads from it, whatever its target.\<close>

theorem pending_link_roundtrip:
  assumes "pending_ok l"
  shows "parsePendingLink other (serializePendingLink l) = Some l"
  using assms by (rule parse_serialize)

definition quoted_link :: pending_link where
  "quoted_link = \<lparr>pending_code = ''q_1-x'', pending_targetUrl = [CHR ''h'', CHR 0x22, CHR 0x5C, CHR 0x07],
     pending_createdAt = 1709210096789, pending_expiresAt = Some 253402300800000\<rparr>"

theorem pending_link_roundtrip_witness:
  "pending_ok quoted_link \<and> parsePendingLink (\<lambda>_. None) (serializePendingLink quoted_link) = Some quoted_link"
proof -
  have ok: "pending_ok quoted_link"
    by (simp add: pending_ok_def quoted_link_def CODE_PATTERN_def code_char_def valid_time_def max_time_def)
  with pending_link_roundtrip [OF ok] show ?thesis by blast
qed

section \<open>Accepting a link\<close>

text \<open>The fields a link is cached with, and its time to live, both as the scripts write them.\<close>

definition pending_fields :: "pending_link \<Rightarrow> (string, string) js_map" where
  "pending_fields l = cache_fields (pending_code l) (pending_targetUrl l) (toISOString (pending_createdAt l))
     (expiry_text (pending_expiresAt l)) ''0'' @ [(''pending'', ''1'')]"

definition pending_ttl :: "pending_link \<Rightarrow> int option" where
  "pending_ttl l = map_option (\<lambda>e. max 1 (e - pending_createdAt l)) (pending_expiresAt l)"

text \<open>One run of the script for link \<open>l\<close>, with the keys and arguments \<open>create\<close> passes.\<close>

definition enqueue :: "'r redis \<Rightarrow> int \<Rightarrow> pending_link \<Rightarrow> 'r \<Rightarrow> 'r \<times> int" where
  "enqueue R maxPending l = ENQUEUE_LINK R (link_key (pending_code l)) (queue_key (shardOf (pending_code l)))
     maxPending (serializePendingLink l) (pending_code l) (pending_targetUrl l)
     (toISOString (pending_createdAt l)) (expiry_text (pending_expiresAt l))
     (case pending_expiresAt l of None \<Rightarrow> 0 | Some e \<Rightarrow> max 1 (e - pending_createdAt l))"

text \<open>The view after an accepted link: cached with its fields and time to live, queued, nothing else.\<close>

definition enqueued :: "pending_link \<Rightarrow> keyspace \<Rightarrow> keyspace" where
  "enqueued l v = put_list (queue_key (shardOf (pending_code l)))
     (entries v (shardOf (pending_code l)) @ [serializePendingLink l])
     (v(link_key (pending_code l) \<mapsto> (RHash (pending_fields l), pending_ttl l)))"

lemma typed_enqueued [simp]: "typed v \<Longrightarrow> typed (enqueued l v)"
  unfolding enqueued_def by (intro typed_updates typed_upd) (auto simp: key_kinds_distinct)

lemma enqueued_parts:
  "valid_shard s \<Longrightarrow> entries (enqueued l v) s =
     entries v s @ (if s = shardOf (pending_code l) then [serializePendingLink l] else [])"
  "owner (enqueued l v) s = owner v s"
  by (auto simp: enqueued_def)

lemma wb_create_generated:
  assumes "input_codeSource input = Generated"
  shows "wb_create R synchronous maxp True n now input w =
     (let (r', outcome) = remote n (enqueue R maxp (input_pending now input)) (fst w)
      in case outcome of
           None \<Rightarrow> (synchronous input (r', snd w), [''write_behind_fallbacks''])
         | Some code \<Rightarrow>
             if code = 1 then (((r', snd w), Inr (Some (input_link now input))), [''links_queued''])
             else if code = 0 then (((r', snd w), Inr None), [])
             else (synchronous input (r', snd w), [''write_behind_backpressure'']))"
  using assms
  by (cases "input_expiresAt input")
    (simp_all add: wb_create_def enqueue_def input_pending_def linkKey_eq sync_keys_eq Let_def)

lemma set_fields_pending: "set_fields (pending_fields l) [] = pending_fields l"
  by (simp add: set_fields_def pending_fields_def cache_fields_def)

context redis_server
begin

lemma enqueue_spec:
  assumes "typed (view r)"
  shows "view r (link_key (pending_code l)) \<noteq> None \<Longrightarrow> enqueue R maxp l r = (r, 0)"
    and "view r (link_key (pending_code l)) = None \<Longrightarrow>
           maxp \<le> int (length (entries (view r) (shardOf (pending_code l)))) \<Longrightarrow> enqueue R maxp l r = (r, - 1)"
    and "view r (link_key (pending_code l)) = None \<Longrightarrow>
           \<not> maxp \<le> int (length (entries (view r) (shardOf (pending_code l)))) \<Longrightarrow>
           snd (enqueue R maxp l r) = 1 \<and> view (fst (enqueue R maxp l r)) = enqueued l (view r)"
proof -
  let ?k = "link_key (pending_code l)" and ?q = "queue_key (shardOf (pending_code l))"
  have len: "redis_llen R ?q r = length (entries (view r) (shardOf (pending_code l)))"
    using assms by (simp add: redis_law entries_def)
  show "view r ?k \<noteq> None \<Longrightarrow> enqueue R maxp l r = (r, 0)"
    by (simp add: enqueue_def ENQUEUE_LINK_def redis_law)
  show "view r ?k = None \<Longrightarrow> maxp \<le> int (length (entries (view r) (shardOf (pending_code l)))) \<Longrightarrow>
      enqueue R maxp l r = (r, - 1)"
    by (simp add: enqueue_def ENQUEUE_LINK_def len exists_law)
  assume none: "view r ?k = None"
    and room: "\<not> maxp \<le> int (length (entries (view r) (shardOf (pending_code l))))"
  define r1 where "r1 = redis_hset R ?k (pending_fields l) r"
  define r2 where "r2 = (case pending_expiresAt l of
      None \<Rightarrow> r1 | Some e \<Rightarrow> redis_pexpire R ?k (max 1 (e - pending_createdAt l)) r1)"
  have "pending_fields l \<noteq> []" by (simp add: pending_fields_def)
  then have v1: "view r1 = (view r)(?k \<mapsto> (RHash (pending_fields l), None))"
    using none by (simp add: r1_def hset_law set_fields_pending put_hash_def)
  have v2: "view r2 = (view r)(?k \<mapsto> (RHash (pending_fields l), pending_ttl l))"
    by (cases "pending_expiresAt l") (auto simp: r2_def v1 pexpire_law put_ttl_def pending_ttl_def)
  have q: "view r2 ?q = view r ?q" by (simp add: v2 key_simps)
  have eq: "enqueue R maxp l r = (redis_rpush R ?q (serializePendingLink l) r2, 1)"
    using none room
    by (cases "pending_expiresAt l")
      (auto simp: enqueue_def ENQUEUE_LINK_def exists_law len Let_def r2_def r1_def pending_fields_def)
  show "snd (enqueue R maxp l r) = 1 \<and> view (fst (enqueue R maxp l r)) = enqueued l (view r)"
    using assms rpush_law [of r2 ?q "serializePendingLink l"] unfolding eq enqueued_def entries_def q
    by (simp add: v2)
qed

end

text \<open>C17: An acknowledged write-behind link is safe in Redis: when \<open>create\<close> answers from the queue,
  the record appended to its shard's queue reads back as the link, the cache holds its
  fields marked as pending, with no time to live other than the link's own expiry, and no other
  key changed.\<close>

theorem queued_link_accepted:
  assumes "redis_server R view" "typed (view (fst w))" "input_codeSource input = Generated"
    and "pending_ok (input_pending now input)"
    and "wb_create R synchronous maxp True n now input w = ((w', res), counters)"
    and "''links_queued'' \<in> set counters"
  shows "res = Inr (Some (input_link now input)) \<and> snd w' = snd w \<and>
     view (fst w) (link_key (input_code input)) = None \<and>
     (\<exists>e. entries (view (fst w')) (shardOf (input_code input)) =
            entries (view (fst w)) (shardOf (input_code input)) @ [e] \<and>
          parsePendingLink other e = Some (input_pending now input)) \<and>
     view (fst w') (link_key (input_code input)) =
       Some (RHash (pending_fields (input_pending now input)), pending_ttl (input_pending now input)) \<and>
     (\<forall>k. k \<noteq> link_key (input_code input) \<longrightarrow> k \<noteq> queue_key (shardOf (input_code input)) \<longrightarrow>
        view (fst w') k = view (fst w) k)"
proof -
  let ?l = "input_pending now input" and ?s = "shardOf (input_code input)"
  have l: "pending_code ?l = input_code input" by (simp add: input_pending_def)
  note spec = redis_server.enqueue_spec [OF assms(1,2), of ?l maxp, unfolded l]
  have n: "n = NetOk" "snd (enqueue R maxp ?l (fst w)) = 1"
    and w': "w' = (fst (enqueue R maxp ?l (fst w)), snd w)" "res = Inr (Some (input_link now input))"
    using assms(5,6) unfolding wb_create_generated [OF assms(3)]
    by (cases n; auto simp: Let_def split: if_splits)+
  have none: "view (fst w) (link_key (input_code input)) = None" using n(2) spec(1) by fastforce
  have v: "view (fst w') = enqueued ?l (view (fst w))"
    using n(2) spec(2) [OF none] spec(3) [OF none] unfolding w'(1) by fastforce
  have q: "entries (view (fst w')) ?s = entries (view (fst w)) ?s @ [serializePendingLink ?l]"
    by (simp add: v enqueued_def l)
  have "snd w' = snd w" by (simp add: w'(1))
  with w'(2) none q parse_serialize [OF assms(4)] show ?thesis
    by (auto simp: v enqueued_def l key_simps)
qed

definition no_store :: "create_input \<Rightarrow> 'w \<Rightarrow> 'w \<times> (unit + link option)" where
  "no_store i w = (w, Inr None)"

definition generated_input :: create_input where
  "generated_input = \<lparr>input_code = ''aB3dE6gH9'', input_targetUrl = ''https://example.com/'',
     input_expiresAt = Some 7000, input_codeSource = Generated\<rparr>"

lemma typed_empty [simp]: "typed (\<lambda>_. None)"
  by (simp add: typed_def)

lemma generated_input_ok: "pending_ok (input_pending 5000 generated_input)"
  by (simp add: pending_ok_def input_pending_def generated_input_def CODE_PATTERN_def code_char_def
      valid_time_def max_time_def)

lemma generated_input_queued:
  "\<exists>w'. wb_create ref_redis no_store 1 True NetOk 5000 generated_input (ref_empty, ()) =
     ((w', Inr (Some (input_link 5000 generated_input))), [''links_queued''])"
proof -
  have g: "input_codeSource generated_input = Generated" by (simp add: generated_input_def)
  have "snd (enqueue ref_redis 1 (input_pending 5000 generated_input) ref_empty) = 1"
    using ref_server.enqueue_spec(3) [of ref_empty] by (simp add: entries_def)
  then show ?thesis unfolding wb_create_generated [OF g] by (simp add: Let_def)
qed

theorem queued_link_accepted_witness:
  "\<exists>w' e. wb_create ref_redis no_store 1 True NetOk 5000 generated_input (ref_empty, ()) =
       ((w', Inr (Some (input_link 5000 generated_input))), [''links_queued'']) \<and>
     entries (ref_view (fst w')) (shardOf ''aB3dE6gH9'') = [e] \<and>
     parsePendingLink (\<lambda>_. None) e = Some (input_pending 5000 generated_input)"
proof -
  obtain w' where w': "wb_create ref_redis no_store 1 True NetOk 5000 generated_input (ref_empty, ()) =
       ((w', Inr (Some (input_link 5000 generated_input))), [''links_queued''])"
    using generated_input_queued by blast
  have t: "typed (ref_view (fst (ref_empty, ())))" by simp
  have g: "input_codeSource generated_input = Generated" "input_code generated_input = ''aB3dE6gH9''"
    by (simp_all add: generated_input_def)
  from queued_link_accepted [OF ref_server.redis_server_axioms t g(1) generated_input_ok w',
      of "\<lambda>_. None", unfolded g(2)] w'
  show ?thesis by (auto simp: entries_def)
qed

section \<open>Backpressure\<close>

lemma per_shard_bound:
  assumes "WriteBehindLinkStore (IntNum m) = Inr maxp"
  shows "1 \<le> m" "1 \<le> maxp" "LINK_KEY_SHARDS * maxp \<le> m + LINK_KEY_SHARDS - 1"
proof -
  have m: "1 \<le> m" and maxp: "maxp = max 1 ((m + LINK_KEY_SHARDS - 1) div LINK_KEY_SHARDS)"
    using assms by (auto simp: WriteBehindLinkStore_def split: if_splits)
  have "1 \<le> (m + LINK_KEY_SHARDS - 1) div LINK_KEY_SHARDS"
    using m zdiv_mono1 [of LINK_KEY_SHARDS "m + LINK_KEY_SHARDS - 1" LINK_KEY_SHARDS]
    by (simp add: LINK_KEY_SHARDS_def)
  with maxp have eq: "maxp = (m + LINK_KEY_SHARDS - 1) div LINK_KEY_SHARDS" by simp
  have "LINK_KEY_SHARDS * ((m + LINK_KEY_SHARDS - 1) div LINK_KEY_SHARDS) \<le> m + LINK_KEY_SHARDS - 1"
    using mult_div_mod_eq [of LINK_KEY_SHARDS "m + LINK_KEY_SHARDS - 1"]
      pos_mod_sign [of LINK_KEY_SHARDS "m + LINK_KEY_SHARDS - 1"] by (simp add: LINK_KEY_SHARDS_def)
  with eq show "LINK_KEY_SHARDS * maxp \<le> m + LINK_KEY_SHARDS - 1" by simp
  show "1 \<le> m" "1 \<le> maxp" using m maxp by simp_all
qed

definition backlog_ok :: "int \<Rightarrow> keyspace \<Rightarrow> bool" where
  "backlog_ok maxp v \<longleftrightarrow> (\<forall>s. valid_shard s \<longrightarrow> int (length (entries v s)) \<le> maxp)"

context redis_server
begin

lemma enqueue_backlog:
  assumes "typed (view r)" "backlog_ok maxp (view r)"
  shows "backlog_ok maxp (view (fst (enqueue R maxp l r)))" and "typed (view (fst (enqueue R maxp l r)))"
proof -
  note spec = enqueue_spec [OF assms(1), of l maxp]
  have "view (fst (enqueue R maxp l r)) = view r \<or> view (fst (enqueue R maxp l r)) = enqueued l (view r) \<and>
      \<not> maxp \<le> int (length (entries (view r) (shardOf (pending_code l))))"
    using spec by fastforce
  then show "backlog_ok maxp (view (fst (enqueue R maxp l r)))" "typed (view (fst (enqueue R maxp l r)))"
    using assms by (auto simp: backlog_ok_def enqueued_parts)
qed

end

text \<open>C16: The backlog in Redis is bounded: with the limit the constructor computes, a call of \<open>create\<close>
  never pushes a queue over its share, whatever the connection does, as long as the synchronous
  store leaves the queues alone; all queues together hold fewer than \<open>maxPendingLinks\<close> plus the number of
  shards.\<close>

theorem backlog_bounded:
  assumes "redis_server R view" "typed (view (fst w))"
    and "WriteBehindLinkStore (IntNum maxPendingLinks) = Inr maxp" "backlog_ok maxp (view (fst w))"
    and "\<And>i w s. entries (view (fst (fst (synchronous i w)))) s = entries (view (fst w)) s"
    and "wb_create R synchronous maxp isReady n now input w = ((w', res), counters)"
  shows "backlog_ok maxp (view (fst w')) \<and>
     (\<Sum>s \<in> {0..<LINK_KEY_SHARDS}. int (length (entries (view (fst w')) s))) < maxPendingLinks + LINK_KEY_SHARDS"
proof -
  have sync: "backlog_ok maxp (view (fst (fst (synchronous i u)))) \<longleftrightarrow> backlog_ok maxp (view (fst u))" for i u
    by (simp add: backlog_ok_def assms(5))
  have enq: "backlog_ok maxp (view (fst (enqueue R maxp l (fst w))))" for l
    using redis_server.enqueue_backlog(1) [OF assms(1,2,4)] .
  have ok: "backlog_ok maxp (view (fst (fst (fst (wb_create R synchronous maxp isReady n now input w)))))"
  proof (cases "input_codeSource input = Custom \<or> \<not> isReady")
    case True
    then show ?thesis using assms(4) by (auto simp: wb_create_def createCustom_def linkKey_eq sync)
  next
    case False
    then have g: "input_codeSource input = Generated" "isReady = True" by (cases "input_codeSource input"; simp)+
    show ?thesis unfolding g(2) wb_create_generated [OF g(1)]
      using assms(4) by (cases n) (simp_all add: Let_def sync enq)
  qed
  then have w': "backlog_ok maxp (view (fst w'))" by (simp add: assms(6))
  then have "(\<Sum>s \<in> {0..<LINK_KEY_SHARDS}. int (length (entries (view (fst w')) s))) \<le>
      (\<Sum>s \<in> {0..<LINK_KEY_SHARDS}. maxp)"
    by (intro sum_mono) (simp add: backlog_ok_def valid_shard_def)
  also have "\<dots> = LINK_KEY_SHARDS * maxp" by (simp add: LINK_KEY_SHARDS_def)
  finally show ?thesis using w' per_shard_bound(3) [OF assms(3)] by simp
qed

theorem backlog_bounded_witness:
  "\<exists>w'. fst (fst (wb_create ref_redis no_store 3 True NetOk 5000 generated_input (ref_empty, ()))) = w' \<and>
     (\<Sum>s \<in> {0..<LINK_KEY_SHARDS}. int (length (entries (ref_view (fst w')) s))) < 3000 + LINK_KEY_SHARDS"
proof -
  obtain w' res cs where c:
    "wb_create ref_redis no_store 3 True NetOk 5000 generated_input (ref_empty, ()) = ((w', res), cs)"
    by (metis prod.exhaust)
  have "WriteBehindLinkStore (IntNum 3000) = Inr 3"
    by (simp add: WriteBehindLinkStore_def isSafeInteger_def MAX_SAFE_INTEGER_def LINK_KEY_SHARDS_def)
  with backlog_bounded [OF ref_server.redis_server_axioms _ _ _ _ c, of 3000] c show ?thesis
    by (auto simp: backlog_ok_def entries_def no_store_def)
qed



end
