(* ===== verification/Sync_Queue.thy ===== *)
theory Sync_Queue
  imports Write_Behind
begin

text \<open>
  The queue half of \<open>src/src/store/link-sync-worker.ts\<close>: the interface \<open>SyncQueue\<close> as a record of operations
  with its contract as the locale \<open>sync_service\<close>, and \<open>RedisSyncQueue\<close> with its two scripts, which meets
  that contract on every Redis server that behaves as documented.  A call answers \<open>None\<close> when it
  throws.
\<close>

section \<open>The interface\<close>

record sync_completion =
  consumed :: nat
  persisted :: "string list"
  conflicts :: "string list"
  deadLetters :: "string list"
  cacheTtlSeconds :: int

record 's sync_queue =
  sq_length :: "int \<Rightarrow> 's \<Rightarrow> 's \<times> nat option"
  sq_acquire :: "int \<Rightarrow> string \<Rightarrow> int \<Rightarrow> 's \<Rightarrow> 's \<times> bool option"
  sq_peek :: "int \<Rightarrow> int \<Rightarrow> 's \<Rightarrow> 's \<times> string list option"
  sq_complete :: "int \<Rightarrow> string \<Rightarrow> sync_completion \<Rightarrow> 's \<Rightarrow> 's \<times> bool option"
  sq_release :: "int \<Rightarrow> string \<Rightarrow> 's \<Rightarrow> 's \<times> unit option"

section \<open>The scripts\<close>

definition keep_persisted :: "'r redis \<Rightarrow> int \<Rightarrow> string \<Rightarrow> 'r \<Rightarrow> 'r" where
  "keep_persisted R ttlMs key r =
     (if redis_hget R key ''pending'' r = Some ''1''
      then let r1 = redis_hdel R key ''pending'' r;
               current = redis_pttl R key r1
           in if current = - 1 \<or> ttlMs < current then redis_pexpire R key ttlMs r1 else r1
      else r)"

definition drop_conflict :: "'r redis \<Rightarrow> string \<Rightarrow> 'r \<Rightarrow> 'r" where
  "drop_conflict R key r = (if redis_hget R key ''pending'' r = Some ''1'' then redis_del R key r else r)"

definition COMPLETE_SYNC ::
  "'r redis \<Rightarrow> string \<Rightarrow> string \<Rightarrow> string \<Rightarrow> string list \<Rightarrow> string list \<Rightarrow> string \<Rightarrow> nat \<Rightarrow> int \<Rightarrow> string list \<Rightarrow>
   'r \<Rightarrow> 'r \<times> int" where
  "COMPLETE_SYNC R queue lock deadKey persistedKeys conflictKeys token count ttlSeconds letters r =
     (if redis_get R lock r \<noteq> Some token then (r, 0)
      else let r1 = fold (keep_persisted R (ttlSeconds * 1000)) persistedKeys r;
               r2 = fold (drop_conflict R) conflictKeys r1;
               r3 = fold (redis_rpush R deadKey) letters r2;
               r4 = (if 0 < length letters then redis_ltrim R deadKey (- 10000) (- 1) r3 else r3);
               r5 = redis_ltrim R queue (int count) (- 1) r4;
               r6 = redis_del R lock r5
           in (r6, 1))"

definition RELEASE_LOCK :: "'r redis \<Rightarrow> string \<Rightarrow> string \<Rightarrow> 'r \<Rightarrow> 'r" where
  "RELEASE_LOCK R lock token r = (if redis_get R lock r = Some token then redis_del R lock r else r)"

section \<open>\<open>RedisSyncQueue\<close>\<close>

definition rq_length :: "'r redis \<Rightarrow> int \<Rightarrow> 'r \<Rightarrow> 'r \<times> nat option" where
  "rq_length R shard r =
     (case syncQueueKey shard of Inl _ \<Rightarrow> (r, None) | Inr queue \<Rightarrow> (r, Some (redis_llen R queue r)))"

definition rq_acquire :: "'r redis \<Rightarrow> int \<Rightarrow> string \<Rightarrow> int \<Rightarrow> 'r \<Rightarrow> 'r \<times> bool option" where
  "rq_acquire R shard token ttlMs r =
     (case syncLockKey shard of
        Inl _ \<Rightarrow> (r, None)
      | Inr lock \<Rightarrow> (let (r', ok) = redis_set_nx_px R lock token ttlMs r in (r', Some ok)))"

definition rq_peek :: "'r redis \<Rightarrow> int \<Rightarrow> int \<Rightarrow> 'r \<Rightarrow> 'r \<times> string list option" where
  "rq_peek R shard count r =
     (case syncQueueKey shard of
        Inl _ \<Rightarrow> (r, None) | Inr queue \<Rightarrow> (r, Some (redis_lrange R queue 0 (count - 1) r)))"

fun all_keys :: "string list \<Rightarrow> key_error + string list" where
  "all_keys [] = Inr []"
| "all_keys (c # cs) =
     (case linkKey c of
        Inl e \<Rightarrow> Inl e
      | Inr k \<Rightarrow> (case all_keys cs of Inl e \<Rightarrow> Inl e | Inr ks \<Rightarrow> Inr (k # ks)))"

definition rq_complete :: "'r redis \<Rightarrow> int \<Rightarrow> string \<Rightarrow> sync_completion \<Rightarrow> 'r \<Rightarrow> 'r \<times> bool option" where
  "rq_complete R shard token c r =
     (case (syncQueueKey shard, syncLockKey shard, syncDeadLetterKey shard, all_keys (persisted c),
            all_keys (conflicts c)) of
        (Inr queue, Inr lock, Inr deadKey, Inr pks, Inr cks) \<Rightarrow>
          (let (r', result) = COMPLETE_SYNC R queue lock deadKey pks cks token (consumed c) (cacheTtlSeconds c)
                                (deadLetters c) r
           in (r', Some (result = 1)))
      | _ \<Rightarrow> (r, None))"

definition rq_release :: "'r redis \<Rightarrow> int \<Rightarrow> string \<Rightarrow> 'r \<Rightarrow> 'r \<times> unit option" where
  "rq_release R shard token r =
     (case syncLockKey shard of Inl _ \<Rightarrow> (r, None) | Inr lock \<Rightarrow> (RELEASE_LOCK R lock token r, Some ()))"

definition RedisSyncQueue :: "'r redis \<Rightarrow> 'r sync_queue" where
  "RedisSyncQueue R = \<lparr>sq_length = rq_length R, sq_acquire = rq_acquire R, sq_peek = rq_peek R,
     sq_complete = rq_complete R, sq_release = rq_release R\<rparr>"

section \<open>The contract\<close>

text \<open>
  What a worker relies on, for the shards that exist: the queue of a shard, the token that owns
  its lock and its dead letters are readable from the state, and every operation
  acts on them as the interface says; only the owner of the lock completes.
\<close>

abbreviation last_letters :: "'a list \<Rightarrow> 'a list" where
  "last_letters ls \<equiv> drop (length ls - 10000) ls"

locale sync_service =
  fixes Q :: "'s sync_queue"
    and inv :: "'s \<Rightarrow> bool"
    and ent :: "'s \<Rightarrow> int \<Rightarrow> string list"
    and own :: "'s \<Rightarrow> int \<Rightarrow> string option"
    and ded :: "'s \<Rightarrow> int \<Rightarrow> string list"
  assumes length_ok: "inv s \<Longrightarrow> valid_shard k \<Longrightarrow> sq_length Q k s = (s, Some (length (ent s k)))"
    and peek_ok: "inv s \<Longrightarrow> valid_shard k \<Longrightarrow> 1 \<le> n \<Longrightarrow> sq_peek Q k n s = (s, Some (take (nat n) (ent s k)))"
    and acquire_ok: "inv s \<Longrightarrow> valid_shard k \<Longrightarrow> 0 < ttl \<Longrightarrow> sq_acquire Q k t ttl s = (s', r) \<Longrightarrow>
       r = Some (own s k = None) \<and> inv s' \<and> (\<forall>j. valid_shard j \<longrightarrow> ent s' j = ent s j \<and> ded s' j = ded s j) \<and>
       (\<forall>j. valid_shard j \<longrightarrow> own s' j = (if j = k \<and> own s k = None then Some t else own s j))"
    and complete_ok: "inv s \<Longrightarrow> valid_shard k \<Longrightarrow> sq_complete Q k t c s = (s', r) \<Longrightarrow>
       r = Some (own s k = Some t) \<and> inv s' \<and>
       (own s k \<noteq> Some t \<longrightarrow> s' = s) \<and>
       (own s k = Some t \<longrightarrow> (\<forall>j. valid_shard j \<longrightarrow>
          ent s' j = (if j = k then drop (consumed c) (ent s k) else ent s j) \<and>
          own s' j = (if j = k then None else own s j) \<and>
          ded s' j = (if j = k \<and> deadLetters c \<noteq> [] then last_letters (ded s k @ deadLetters c) else ded s j)))"
    and release_ok: "inv s \<Longrightarrow> valid_shard k \<Longrightarrow> sq_release Q k t s = (s', u) \<Longrightarrow>
       u = Some () \<and> inv s' \<and> (\<forall>j. valid_shard j \<longrightarrow> ent s' j = ent s j \<and> ded s' j = ded s j) \<and>
       (\<forall>j. valid_shard j \<longrightarrow> own s' j = (if j = k \<and> own s k = Some t then None else own s j))"

section \<open>The Redis queue meets the contract\<close>

lemma all_keys_eq: "all_keys cs = Inr (map link_key cs)"
  by (induction cs) (simp_all add: linkKey_eq)

text \<open>The two loops over link keys leave the queues, locks and dead letters alone.\<close>

definition same_sync :: "keyspace \<Rightarrow> keyspace \<Rightarrow> bool" where
  "same_sync v v' \<longleftrightarrow> typed v' \<and> (\<forall>j. entries v' j = entries v j \<and> owner v' j = owner v j \<and> dead v' j = dead v j)"

context redis_server
begin

lemma same_sync_keep:
  assumes "typed (view r)"
  shows "same_sync (view r) (view (keep_persisted R ttl (link_key c) r))"
    and "same_sync (view r) (view (drop_conflict R (link_key c) r))"
  using assms by (auto simp: same_sync_def keep_persisted_def drop_conflict_def Let_def hdel_law del_law pexpire_law)

lemma same_sync_fold:
  assumes "typed (view r)" "\<And>c r. typed (view r) \<Longrightarrow> same_sync (view r) (view (f (link_key c) r))"
  shows "same_sync (view r) (view (fold f (map link_key cs) r))"
  using assms(1)
proof (induction cs arbitrary: r)
  case (Cons c cs)
  have 1: "same_sync (view r) (view (f (link_key c) r))" by (rule assms(2) [OF Cons.prems])
  then have "same_sync (view (f (link_key c) r)) (view (fold f (map link_key cs) (f (link_key c) r)))"
    by (intro Cons.IH) (simp add: same_sync_def)
  with 1 show ?case by (simp add: same_sync_def)
qed (simp add: same_sync_def)

lemma push_letters:
  assumes "typed (view r)"
  shows "view (fold (redis_rpush R (dead_key k)) ls r) =
    (if ls = [] then view r else put_list (dead_key k) (dead (view r) k @ ls) (view r))"
  using assms
proof (induction ls arbitrary: r)
  case (Cons l ls)
  have v: "view (redis_rpush R (dead_key k) l r) = put_list (dead_key k) (dead (view r) k @ [l]) (view r)"
    using Cons.prems by (simp add: rpush_law dead_def)
  have "typed (view (redis_rpush R (dead_key k) l r))" using Cons.prems by (simp add: v)
  note IH = Cons.IH [OF this]
  have pp: "put_list d l2 (put_list d l1 v) = put_list d l2 v" if "l1 \<noteq> []" for d l1 l2 and v :: keyspace
    using that by (auto simp: put_list_def)
  show ?case
    by (auto simp: IH v dead_def pp)
qed simp

lemma get_owner: "typed (view r) \<Longrightarrow> redis_get R (lock_key k) r = owner (view r) k"
  by (simp add: get_law owner_def)

lemma lock_free: "typed (view r) \<Longrightarrow> view r (lock_key k) = None \<longleftrightarrow> owner (view r) k = None"
  using typedD(4) [of "view r" k] by (cases "view r (lock_key k)" rule: string_at.cases) (auto simp: owner_def)

lemma acquire_effect:
  assumes "typed (view r)" "valid_shard k" "0 < ttl" "rq_acquire R k t ttl r = (r', ok)"
  shows "ok = Some (owner (view r) k = None) \<and> typed (view r') \<and>
     (\<forall>j. valid_shard j \<longrightarrow> entries (view r') j = entries (view r) j \<and> dead (view r') j = dead (view r) j) \<and>
     (\<forall>j. valid_shard j \<longrightarrow>
        owner (view r') j = (if j = k \<and> owner (view r) k = None then Some t else owner (view r) j))"
proof -
  have eq: "ok = Some (owner (view r) k = None)"
    "view r' = (if owner (view r) k = None then (view r)(lock_key k \<mapsto> (RString t, Some ttl)) else view r)"
    using assms lock_free [OF assms(1), of k] set_law [OF assms(3), of "lock_key k" t r]
    by (auto simp: rq_acquire_def sync_keys_eq case_prod_beta)
  show ?thesis using assms(1,2) unfolding eq by (auto simp: key_simps)
qed

lemma release_effect:
  assumes "typed (view r)" "valid_shard k" "rq_release R k t r = (r', u)"
  shows "u = Some () \<and> typed (view r') \<and>
     (\<forall>j. valid_shard j \<longrightarrow> entries (view r') j = entries (view r) j \<and> dead (view r') j = dead (view r) j) \<and>
     (\<forall>j. valid_shard j \<longrightarrow> owner (view r') j = (if j = k \<and> owner (view r) k = Some t then None else owner (view r) j))"
proof -
  have eq: "u = Some ()"
    "view r' = (if owner (view r) k = Some t then (view r)(lock_key k := None) else view r)"
    using assms get_owner [OF assms(1), of k] by (auto simp: rq_release_def sync_keys_eq RELEASE_LOCK_def del_law)
  show ?thesis using assms(1,2) unfolding eq by auto
qed

lemma trim_letters:
  assumes "typed (view r)" "ls \<noteq> []"
  shows "view (redis_ltrim R (dead_key k) (- 10000) (- 1) (fold (redis_rpush R (dead_key k)) ls r)) =
    put_list (dead_key k) (last_letters (dead (view r) k @ ls)) (view r)"
proof -
  let ?r = "fold (redis_rpush R (dead_key k)) ls r"
  have v: "view ?r = put_list (dead_key k) (dead (view r) k @ ls) (view r)"
    using push_letters [OF assms(1)] assms(2) by simp
  then have "typed (view ?r)" using assms(1) by simp
  from ltrim_law [OF typedD(3) [OF this, of k], of "- 10000" "- 1"] show ?thesis
    using assms(2) by (simp add: v list_range_last) (auto simp: put_list_def)
qed

lemma complete_effect:
  assumes "typed (view r)" "valid_shard k" "rq_complete R k t c r = (r', ok)"
  shows "ok = Some (owner (view r) k = Some t) \<and> typed (view r') \<and>
     (owner (view r) k \<noteq> Some t \<longrightarrow> r' = r) \<and>
     (owner (view r) k = Some t \<longrightarrow> (\<forall>j. valid_shard j \<longrightarrow>
        entries (view r') j = (if j = k then drop (consumed c) (entries (view r) k) else entries (view r) j) \<and>
        owner (view r') j = (if j = k then None else owner (view r) j) \<and>
        dead (view r') j = (if j = k \<and> deadLetters c \<noteq> [] then last_letters (dead (view r) k @ deadLetters c)
                            else dead (view r) j)))"
proof (cases "owner (view r) k = Some t")
  case False
  then show ?thesis using assms get_owner [OF assms(1), of k]
    by (auto simp: rq_complete_def sync_keys_eq all_keys_eq COMPLETE_SYNC_def case_prod_beta)
next
  case True
  define r1 where "r1 = fold (keep_persisted R (cacheTtlSeconds c * 1000)) (map link_key (persisted c)) r"
  define r2 where "r2 = fold (drop_conflict R) (map link_key (conflicts c)) r1"
  define r4 where "r4 = (if 0 < length (deadLetters c)
      then redis_ltrim R (dead_key k) (- 10000) (- 1) (fold (redis_rpush R (dead_key k)) (deadLetters c) r2)
      else fold (redis_rpush R (dead_key k)) (deadLetters c) r2)"
  have s1: "same_sync (view r) (view r1)"
    unfolding r1_def using assms(1) same_sync_keep(1) by (rule same_sync_fold)
  have s2: "same_sync (view r1) (view r2)"
    unfolding r2_def using s1 same_sync_keep(2) by (intro same_sync_fold) (auto simp: same_sync_def)
  have v2: "typed (view r2)" "entries (view r2) = entries (view r)" "owner (view r2) = owner (view r)"
    "dead (view r2) = dead (view r)"
    using s1 s2 by (auto simp: same_sync_def)
  have v4: "view r4 = (if deadLetters c = [] then view r2
      else put_list (dead_key k) (last_letters (dead (view r) k @ deadLetters c)) (view r2))"
    using trim_letters [OF v2(1), of "deadLetters c" k] by (simp add: r4_def v2)
  then have t4: "typed (view r4)" using v2(1) by simp
  have e4: "entries (view r4) k = entries (view r) k" by (simp add: v4 v2)
  have eq: "r' = redis_del R (lock_key k) (redis_ltrim R (queue_key k) (int (consumed c)) (- 1) r4)" "ok = Some True"
    using assms get_owner [OF assms(1), of k] True
    by (auto simp: rq_complete_def sync_keys_eq all_keys_eq COMPLETE_SYNC_def case_prod_beta Let_def
        r1_def [symmetric] r2_def [symmetric] r4_def)
  have "view r' = (put_list (queue_key k) (drop (consumed c) (entries (view r) k)) (view r4))(lock_key k := None)"
    using t4 by (simp add: eq(1) del_law ltrim_law list_range_from e4 [unfolded entries_def] entries_def)
  then show ?thesis using True eq(2) t4 assms(2) v2 by (auto simp: v4)
qed

end

sublocale redis_server \<subseteq> queue: sync_service "RedisSyncQueue R" "\<lambda>r. typed (view r)"
  "\<lambda>r. entries (view r)" "\<lambda>r. owner (view r)" "\<lambda>r. dead (view r)"
proof
  show "sq_length (RedisSyncQueue R) k r = (r, Some (length (entries (view r) k)))"
    if "typed (view r)" "valid_shard k" for r k
    using that by (simp add: RedisSyncQueue_def rq_length_def sync_keys_eq llen_law entries_def)
  show "sq_peek (RedisSyncQueue R) k n r = (r, Some (take (nat n) (entries (view r) k)))"
    if "typed (view r)" "valid_shard k" "1 \<le> n" for r k n
    using that by (simp add: RedisSyncQueue_def rq_peek_def sync_keys_eq lrange_law entries_def list_range_first)
next
  fix s k ttl t s' r
  assume "typed (view s)" "valid_shard k" "(0 :: int) < ttl" "sq_acquire (RedisSyncQueue R) k t ttl s = (s', r)"
  then show "r = Some (owner (view s) k = None) \<and> typed (view s') \<and>
     (\<forall>j. valid_shard j \<longrightarrow> entries (view s') j = entries (view s) j \<and> dead (view s') j = dead (view s) j) \<and>
     (\<forall>j. valid_shard j \<longrightarrow>
        owner (view s') j = (if j = k \<and> owner (view s) k = None then Some t else owner (view s) j))"
    by (intro acquire_effect) (simp_all add: RedisSyncQueue_def)
next
  fix s k t c s' r
  assume "typed (view s)" "valid_shard k" "sq_complete (RedisSyncQueue R) k t c s = (s', r)"
  then show "r = Some (owner (view s) k = Some t) \<and> typed (view s') \<and>
     (owner (view s) k \<noteq> Some t \<longrightarrow> s' = s) \<and>
     (owner (view s) k = Some t \<longrightarrow> (\<forall>j. valid_shard j \<longrightarrow>
        entries (view s') j = (if j = k then drop (consumed c) (entries (view s) k) else entries (view s) j) \<and>
        owner (view s') j = (if j = k then None else owner (view s) j) \<and>
        dead (view s') j = (if j = k \<and> deadLetters c \<noteq> [] then last_letters (dead (view s) k @ deadLetters c)
                            else dead (view s) j)))"
    by (intro complete_effect) (simp_all add: RedisSyncQueue_def)
next
  fix s k t s' u
  assume "typed (view s)" "valid_shard k" "sq_release (RedisSyncQueue R) k t s = (s', u)"
  then show "u = Some () \<and> typed (view s') \<and>
     (\<forall>j. valid_shard j \<longrightarrow> entries (view s') j = entries (view s) j \<and> dead (view s') j = dead (view s) j) \<and>
     (\<forall>j. valid_shard j \<longrightarrow> owner (view s') j = (if j = k \<and> owner (view s) k = Some t then None else owner (view s) j))"
    by (intro release_effect) (simp_all add: RedisSyncQueue_def)
qed

end
