(* ===== verification/Sync_Worker.thy ===== *)
theory Sync_Worker
  imports Sync_Queue Postgres_Store
begin

text \<open>
  The worker half of \<open>src/src/store/link-sync-worker.ts\<close>.  A call of \<open>syncShard\<close> is a machine with one phase
  per \<open>await\<close>; \<open>sync_step\<close> is what happens when the awaited call settles.  The queue is the record of
  operations of \<open>Sync_Queue\<close>, the sink a function.  \<open>syncShard\<close> runs the machine to its end,
  \<open>processShards\<close>, \<open>tick\<close>, \<open>drain\<close> and \<open>backlog\<close> (here \<open>worker_backlog\<close>) are built on it the way the class does; the
  fleet of workers is a step relation that interleaves machines of several workers
  with crashes, lock expiry, new links and other clients of the database.
\<close>

section \<open>Options and results\<close>

record sync_options =
  opt_shards :: "int list"
  opt_batchSize :: int
  opt_cacheTtlSeconds :: int
  opt_lockTtlMs :: int
  opt_maxBatchesPerShard :: int

datatype worker_error = OptionNotPositive string | WorkerClosed

definition LinkSyncWorker ::
  "int list \<Rightarrow> js_number \<Rightarrow> js_number \<Rightarrow> js_number \<Rightarrow> int option \<Rightarrow> int option \<Rightarrow> worker_error + sync_options" where
  "LinkSyncWorker shards intervalMs batchSize cacheTtl lockTtl maxBatches =
     (case (intervalMs, batchSize, cacheTtl) of
        (IntNum i, IntNum b, IntNum c) \<Rightarrow>
          if \<not> isSafeInteger i \<or> i < 1 then Inl (OptionNotPositive ''intervalMs'')
          else if \<not> isSafeInteger b \<or> b < 1 then Inl (OptionNotPositive ''batchSize'')
          else if \<not> isSafeInteger c \<or> c < 1 then Inl (OptionNotPositive ''cacheTtlSeconds'')
          else Inr \<lparr>opt_shards = shards, opt_batchSize = b, opt_cacheTtlSeconds = c,
                    opt_lockTtlMs = (case lockTtl of None \<Rightarrow> 30000 | Some t \<Rightarrow> t),
                    opt_maxBatchesPerShard = (case maxBatches of None \<Rightarrow> 10 | Some m \<Rightarrow> m)\<rparr>
      | (i, b, c) \<Rightarrow>
          if \<not> positiveSafeInteger i then Inl (OptionNotPositive ''intervalMs'')
          else if \<not> positiveSafeInteger b then Inl (OptionNotPositive ''batchSize'')
          else Inl (OptionNotPositive ''cacheTtlSeconds''))"

record sync_result =
  res_synced :: nat
  res_conflicts :: nat
  res_poison :: nat

definition emptyResult :: sync_result where
  "emptyResult = \<lparr>res_synced = 0, res_conflicts = 0, res_poison = 0\<rparr>"

definition addResult :: "sync_result \<Rightarrow> sync_result \<Rightarrow> sync_result" where
  "addResult target source =
     \<lparr>res_synced = res_synced target + res_synced source,
      res_conflicts = res_conflicts target + res_conflicts source,
      res_poison = res_poison target + res_poison source\<rparr>"

definition result_total :: "sync_result \<Rightarrow> nat" where
  "result_total r = res_synced r + res_conflicts r + res_poison r"

definition deadLetter :: "int \<Rightarrow> string \<Rightarrow> string \<Rightarrow> string" where
  "deadLetter now reason payload = stringify (JObj
     [(''reason'', JStr reason), (''payload'', JStr payload), (''at'', JStr (toISOString now))])"

section \<open>One shard\<close>

text \<open>The phases of \<open>syncShard\<close>; \<open>Releasing\<close> and \<open>Finished\<close> say whether it ends with an error.\<close>

datatype phase =
    Checking
  | Acquiring nat
  | Peeking nat
  | Inserting nat "string list"
  | Completing nat "string list" batch_result "string list" nat
  | Releasing bool
  | Finished bool

record sync_task =
  task_shard :: int
  task_token :: string
  task_phase :: phase
  task_result :: sync_result

definition start_task :: "int \<Rightarrow> string \<Rightarrow> sync_task" where
  "start_task shard token =
     \<lparr>task_shard = shard, task_token = token, task_phase = Checking, task_result = emptyResult\<rparr>"

text \<open>An awaited call: it fails if the connection does or if the operation throws.\<close>

definition await :: "net \<Rightarrow> ('s \<Rightarrow> 's \<times> 'a option) \<Rightarrow> 's \<Rightarrow> 's \<times> 'a option" where
  "await n f s = (let (s', r) = remote n f s in (s', Option.bind r id))"

fun classify :: "(string \<Rightarrow> int option) \<Rightarrow> int \<Rightarrow> string list \<Rightarrow> pending_link list \<times> string list" where
  "classify other now [] = ([], [])"
| "classify other now (entry # raw) =
     (let (valid, letters) = classify other now raw
      in case parsePendingLink other entry of
           Some link \<Rightarrow> (link # valid, letters)
         | None \<Rightarrow> (valid, deadLetter now ''invalid'' entry # letters))"

type_synonym 'p sink = "pending_link list \<Rightarrow> 'p \<Rightarrow> 'p \<times> (store_error + batch_result)"

definition sync_step ::
  "'s sync_queue \<Rightarrow> 'p sink \<Rightarrow> sync_options \<Rightarrow> (string \<Rightarrow> int option) \<Rightarrow> net \<Rightarrow> int \<Rightarrow>
   's \<times> 'p \<Rightarrow> sync_task \<Rightarrow> ('s \<times> 'p) \<times> sync_task" where
  "sync_step Q sink opts other n now w t =
     (let (s, p) = w; shard = task_shard t; token = task_token t
      in case task_phase t of
           Checking \<Rightarrow>
             (let (s', r) = await n (sq_length Q shard) s
              in ((s', p), t\<lparr>task_phase :=
                   case r of None \<Rightarrow> Finished True
                   | Some len \<Rightarrow> if len = 0 then Finished False else Acquiring 0\<rparr>))
         | Acquiring i \<Rightarrow>
             (let (s', r) = await n (sq_acquire Q shard token (opt_lockTtlMs opts)) s
              in ((s', p), t\<lparr>task_phase :=
                   case r of None \<Rightarrow> Finished True
                   | Some held \<Rightarrow>
                       if \<not> held then Finished False
                       else if int i < opt_maxBatchesPerShard opts then Peeking i
                       else Releasing False\<rparr>))
         | Peeking i \<Rightarrow>
             (let (s', r) = await n (sq_peek Q shard (opt_batchSize opts)) s
              in ((s', p), t\<lparr>task_phase :=
                   case r of None \<Rightarrow> Releasing True
                   | Some raw \<Rightarrow> if length raw = 0 then Releasing False else Inserting i raw\<rparr>))
         | Inserting i raw \<Rightarrow>
             (let (valid, letters) = classify other now raw;
                  (p', r) = (if 0 < length valid then sink valid p
                             else (p, Inr \<lparr>persisted_codes = [], conflict_links = []\<rparr>))
              in ((s, p'), t\<lparr>task_phase :=
                   case r of Inl _ \<Rightarrow> Releasing True
                   | Inr inserted \<Rightarrow>
                       Completing i raw inserted
                         (letters @ map (\<lambda>c. deadLetter now ''conflict'' (serializePendingLink c))
                                      (conflict_links inserted))
                         (length letters)\<rparr>))
         | Completing i raw inserted letters poison \<Rightarrow>
             (let (s', r) = await n (sq_complete Q shard token
                    \<lparr>consumed = length raw, persisted = persisted_codes inserted,
                     conflicts = map pending_code (conflict_links inserted), deadLetters = letters,
                     cacheTtlSeconds = opt_cacheTtlSeconds opts\<rparr>) s
              in ((s', p),
                  case r of None \<Rightarrow> t\<lparr>task_phase := Releasing True\<rparr>
                  | Some completed \<Rightarrow>
                      if \<not> completed then t\<lparr>task_phase := Finished False\<rparr>
                      else t\<lparr>task_result := addResult (task_result t)
                               \<lparr>res_synced = length (persisted_codes inserted),
                                res_conflicts = length (conflict_links inserted), res_poison = poison\<rparr>,
                             task_phase :=
                               (if int (length raw) < opt_batchSize opts then Finished False
                                else if int (Suc i) < opt_maxBatchesPerShard opts then Acquiring (Suc i)
                                else Finished False)\<rparr>))
         | Releasing err \<Rightarrow>
             (let (s', r) = await n (sq_release Q shard token) s
              in ((s', p), t\<lparr>task_phase := Finished err\<rparr>))
         | Finished err \<Rightarrow> (w, t))"

definition finished :: "sync_task \<Rightarrow> bool" where
  "finished t \<longleftrightarrow> (\<exists>err. task_phase t = Finished err)"

text \<open>
  The whole of \<open>syncShard\<close>: the outcomes of its awaited calls are given as a list (how the connection
  behaved, the clock, the sink as it behaved); a machine that has finished ignores the rest.
\<close>

type_synonym 'p outcomes = "(net \<times> int \<times> 'p sink) list"

definition run_task ::
  "'s sync_queue \<Rightarrow> sync_options \<Rightarrow> (string \<Rightarrow> int option) \<Rightarrow> 'p outcomes \<Rightarrow> 's \<times> 'p \<Rightarrow> sync_task \<Rightarrow>
   ('s \<times> 'p) \<times> sync_task" where
  "run_task Q opts other outs w t =
     foldl (\<lambda>(w, t) (n, now, sink). sync_step Q sink opts other n now w t) (w, t) outs"

definition syncShard ::
  "'s sync_queue \<Rightarrow> sync_options \<Rightarrow> (string \<Rightarrow> int option) \<Rightarrow> 'p outcomes \<Rightarrow> string \<Rightarrow> int \<Rightarrow> 's \<times> 'p \<Rightarrow>
   ('s \<times> 'p) \<times> sync_task" where
  "syncShard Q opts other outs token shard w = run_task Q opts other outs w (start_task shard token)"

section \<open>Ticks\<close>

text \<open>
  \<open>processShards\<close> in the order of its shards, each with the token and the outcomes of its
  \<open>syncShard\<close>; a shard that fails counts as empty.  The number of failed shards goes to the
  \<open>link_sync_errors\<close> counter.
\<close>

type_synonym 'p tick_plan = "(int \<times> string \<times> 'p outcomes) list"

fun processShards ::
  "'s sync_queue \<Rightarrow> sync_options \<Rightarrow> (string \<Rightarrow> int option) \<Rightarrow> 'p tick_plan \<Rightarrow> 's \<times> 'p \<Rightarrow>
   ('s \<times> 'p) \<times> sync_result \<times> nat" where
  "processShards Q opts other [] w = (w, emptyResult, 0)"
| "processShards Q opts other ((shard, token, outs) # plan) w =
     (let (w1, t) = syncShard Q opts other outs token shard w;
          (w2, acc, failed) = processShards Q opts other plan w1
      in if task_phase t = Finished True then (w2, acc, failed + 1)
         else (w2, addResult (task_result t) acc, failed))"

fun drain ::
  "'s sync_queue \<Rightarrow> sync_options \<Rightarrow> (string \<Rightarrow> int option) \<Rightarrow> 'p tick_plan list \<Rightarrow> sync_result \<Rightarrow> 's \<times> 'p \<Rightarrow>
   ('s \<times> 'p) \<times> sync_result" where
  "drain Q opts other [] acc w = (w, acc)"
| "drain Q opts other (plan # plans) acc w =
     (let (w', result, failed) = processShards Q opts other plan w;
          acc' = addResult acc result
      in if result_total result = 0 then (w', acc') else drain Q opts other plans acc' w')"

definition syncBacklog :: "'s sync_queue \<Rightarrow> int list \<Rightarrow> 's \<Rightarrow> nat option" where
  "syncBacklog Q shards s =
     (if \<exists>k \<in> set shards. snd (sq_length Q k s) = None then None
      else Some (sum_list (map (\<lambda>k. the (snd (sq_length Q k s))) shards)))"

definition worker_backlog :: "'s sync_queue \<Rightarrow> sync_options \<Rightarrow> 's \<Rightarrow> nat option" where
  "worker_backlog Q opts s = syncBacklog Q (opt_shards opts) s"

section \<open>\<open>syncShard\<close> ends\<close>

text \<open>How many more calls a machine can await.\<close>

fun rank :: "nat \<Rightarrow> phase \<Rightarrow> nat" where
  "rank M Checking = 4 * (M - 1) + 6"
| "rank M (Acquiring i) = 4 * (M - 1 - i) + 5"
| "rank M (Peeking i) = 4 * (M - 1 - i) + 4"
| "rank M (Inserting i raw) = 4 * (M - 1 - i) + 3"
| "rank M (Completing i raw ins ls n) = 4 * (M - 1 - i) + 2"
| "rank M (Releasing e) = 1"
| "rank M (Finished e) = 0"

lemma rank_step:
  assumes "sync_step Q sink opts other n now w t = (w', t')"
  shows "rank (nat (opt_maxBatchesPerShard opts)) (task_phase t') \<le>
           rank (nat (opt_maxBatchesPerShard opts)) (task_phase t) - 1"
  using assms
  by (cases "task_phase t")
    (auto simp: sync_step_def Let_def case_prod_beta split: option.splits sum.splits if_splits)

lemma run_task_Nil [simp]: "run_task Q opts other [] w t = (w, t)"
  by (simp add: run_task_def)

lemma run_task_Cons:
  "run_task Q opts other ((n, now, sink) # outs) w t =
     (let (w', t') = sync_step Q sink opts other n now w t in run_task Q opts other outs w' t')"
  by (simp add: run_task_def split: prod.split)

lemma run_task_append:
  "run_task Q opts other (xs @ ys) w t = (let (w', t') = run_task Q opts other xs w t in run_task Q opts other ys w' t')"
  by (simp add: run_task_def split: prod.split)

lemma rank_run:
  "rank (nat (opt_maxBatchesPerShard opts)) (task_phase (snd (run_task Q opts other outs w t))) \<le>
     rank (nat (opt_maxBatchesPerShard opts)) (task_phase t) - length outs"
proof (induction outs arbitrary: w t)
  case (Cons x outs)
  obtain n now sink where x: "x = (n, now, sink)" by (cases x)
  obtain w' t' where st: "sync_step Q sink opts other n now w t = (w', t')" by fastforce
  show ?case using Cons.IH [of w' t'] rank_step [OF st] by (simp add: x run_task_Cons st)
qed simp

lemma rank_0: "rank M ph = 0 \<longleftrightarrow> (\<exists>err. ph = Finished err)"
  by (cases ph) auto

text \<open>C26: \<open>syncShard\<close> always ends: whatever the queue, the sink and the connection do, after at most
  four awaited calls for each batch and six more it has settled.\<close>

theorem syncShard_terminates:
  assumes "4 * nat (opt_maxBatchesPerShard opts) + 6 \<le> length outs"
  shows "finished (snd (syncShard Q opts other outs token shard w))"
proof -
  have "rank (nat (opt_maxBatchesPerShard opts)) (task_phase (snd (syncShard Q opts other outs token shard w))) \<le>
      rank (nat (opt_maxBatchesPerShard opts)) Checking - length outs"
    unfolding syncShard_def using rank_run [of opts Q other outs w "start_task shard token"]
    by (simp add: start_task_def)
  also have "\<dots> = 0" using assms by simp
  finally show ?thesis by (simp add: finished_def rank_0)
qed

definition one_batch_opts :: sync_options where
  "one_batch_opts = \<lparr>opt_shards = [7], opt_batchSize = 100, opt_cacheTtlSeconds = 60, opt_lockTtlMs = 30000,
     opt_maxBatchesPerShard = 1\<rparr>"

theorem syncShard_terminates_witness:
  "finished (snd (syncShard (RedisSyncQueue ref_redis) one_batch_opts (\<lambda>_. None)
     (replicate 10 (LostReply, 0, \<lambda>ls p. (p, Inl QueryFailed))) ''t1'' 7 (ref_empty, ())))"
proof -
  have "4 * nat (opt_maxBatchesPerShard one_batch_opts) + 6 \<le> length (replicate 10 (LostReply, 0 :: int,
      (\<lambda>ls p. (p, Inl QueryFailed)) :: unit sink))" by (simp add: one_batch_opts_def)
  then show ?thesis by (rule syncShard_terminates)
qed

section \<open>What a batch does\<close>

lemma await_cases:
  "await NetOk f s = f s" "await LostRequest f s = (s, None)" "await LostReply f s = (fst (f s), None)"
  by (simp_all add: await_def case_prod_beta)

lemma await_Some: "await n f s = (s', Some r) \<Longrightarrow> f s = (s', Some r)"
  by (cases n) (auto simp: await_cases)

lemma classify_parts:
  "set (fst (classify other now raw)) = {l. \<exists>e \<in> set raw. parsePendingLink other e = Some l}"
  "length (fst (classify other now raw)) + length (snd (classify other now raw)) = length raw"
  by (induction raw) (auto simp: Let_def case_prod_beta split: option.splits)

lemma parse_row_ok: "parsePendingLink other e = Some l \<Longrightarrow> row_ok (pending_row l)"
  by (auto simp: parsePendingLink_def row_ok_def pending_row_def Suc_le_eq
      split: option.splits json.splits if_splits)

lemma classify_rows_ok: "list_all row_ok (map pending_row (fst (classify other now raw)))"
  using parse_row_ok by (auto simp: list_all_iff classify_parts(1))

definition healthy_sink :: "'p pg_engine \<Rightarrow> 'p sink" where
  "healthy_sink E = insertPendingBatch E NetOk NetOk id"

lemma addResult_total: "result_total (addResult a b) = result_total a + result_total b"
  by (simp add: result_total_def addResult_def)

locale sync_fleet = sync_service Q inv ent own ded + postgres E
  for Q :: "'s sync_queue" and inv ent own ded and E :: "'p pg_engine" +
  fixes opts :: sync_options and other :: "string \<Rightarrow> int option"
  assumes batch_pos: "1 \<le> opt_batchSize opts" and lock_pos: "0 < opt_lockTtlMs opts"
begin

lemma healthy_insert:
  assumes "valid \<noteq> []" "list_all row_ok (map pending_row valid)"
  obtains p' res where "healthy_sink E valid p = (p', Inr res)"
    "0 < length (persisted_codes res) + length (conflict_links res)"
proof -
  obtain p' r where call: "insertPendingBatch E NetOk NetOk id valid p = (p', r)" by fastforce
  from insertPendingBatch_spec [OF assms _ call] obtain res where
    res: "r = Inr res" "conflict_links res = filter (\<lambda>l. \<not> stored E p' l) (unique_links valid)"
      "set (persisted_codes res) = pending_code ` {l \<in> set (unique_links valid). stored E p' l}"
    by auto
  obtain l where l: "l \<in> set (unique_links valid)"
    using unique_links_props(4) [OF assms(1)] by (cases "unique_links valid") auto
  have "persisted_codes res \<noteq> [] \<or> conflict_links res \<noteq> []"
  proof (cases "stored E p' l")
    case True
    with l res(3) have "pending_code l \<in> set (persisted_codes res)" by blast
    then show ?thesis by auto
  next
    case False
    with l res(2) show ?thesis by (auto simp: filter_empty_conv)
  qed
  with call res(1) that show thesis by (auto simp: healthy_sink_def)
qed

abbreviation healthy_step :: "int \<Rightarrow> 's \<times> 'p \<Rightarrow> sync_task \<Rightarrow> ('s \<times> 'p) \<times> sync_task" where
  "healthy_step now \<equiv> sync_step Q (healthy_sink E) opts other NetOk now"

abbreviation at_phase :: "int \<Rightarrow> string \<Rightarrow> phase \<Rightarrow> sync_result \<Rightarrow> sync_task" where
  "at_phase k tok ph res \<equiv> \<lparr>task_shard = k, task_token = tok, task_phase = ph, task_result = res\<rparr>"

lemma healthy_acquire:
  assumes "inv s" "valid_shard k" "own s k = None"
  obtains s' where "healthy_step now (s, p) (at_phase k tok (Acquiring i) res) =
      ((s', p), at_phase k tok (if int i < opt_maxBatchesPerShard opts then Peeking i else Releasing False) res)"
    and "inv s'" "\<And>j. valid_shard j \<Longrightarrow> ent s' j = ent s j"
    and "\<And>j. valid_shard j \<Longrightarrow> own s' j = (if j = k then Some tok else own s j)"
proof -
  obtain s' r where a: "sq_acquire Q k tok (opt_lockTtlMs opts) s = (s', r)" by fastforce
  from acquire_ok [OF assms(1,2) lock_pos a] assms(3) that [of s'] show thesis
    by (auto simp: sync_step_def await_cases a)
qed

lemma healthy_peek:
  assumes "inv s" "valid_shard k"
  shows "healthy_step now (s, p) (at_phase k tok (Peeking i) res) =
      ((s, p), at_phase k tok (if ent s k = [] then Releasing False
                               else Inserting i (take (nat (opt_batchSize opts)) (ent s k))) res)"
  using batch_pos by (auto simp: sync_step_def await_cases peek_ok [OF assms batch_pos] min_def)

lemma healthy_release:
  assumes "inv s" "valid_shard k" "own s k = Some tok"
  obtains s' where "healthy_step now (s, p) (at_phase k tok (Releasing e) res) =
      ((s', p), at_phase k tok (Finished e) res)"
    and "inv s'" "\<And>j. valid_shard j \<Longrightarrow> ent s' j = ent s j"
    and "\<And>j. valid_shard j \<Longrightarrow> own s' j = (if j = k then None else own s j)"
proof -
  obtain s' u where a: "sq_release Q k tok s = (s', u)" by fastforce
  from release_ok [OF assms(1,2) a] assms(3) that [of s'] show thesis
    by (auto simp: sync_step_def await_cases a)
qed

lemma healthy_write:
  assumes "inv s" "valid_shard k" "own s k = Some tok" "raw \<noteq> []"
  obtains s' p' res' where
    "run_task Q opts other [(NetOk, now, healthy_sink E), (NetOk, now', healthy_sink E)] (s, p)
       (at_phase k tok (Inserting i raw) res) =
     ((s', p'), at_phase k tok
        (if int (length raw) < opt_batchSize opts then Finished False
         else if int (Suc i) < opt_maxBatchesPerShard opts then Acquiring (Suc i) else Finished False) res')"
    and "inv s'" "result_total res < result_total res'"
    and "\<And>j. valid_shard j \<Longrightarrow> ent s' j = (if j = k then drop (length raw) (ent s k) else ent s j)"
    and "\<And>j. valid_shard j \<Longrightarrow> own s' j = (if j = k then None else own s j)"
proof -
  obtain valid letters where c: "classify other now raw = (valid, letters)" by fastforce
  have ok: "list_all row_ok (map pending_row valid)" and len: "length valid + length letters = length raw"
    using classify_rows_ok [of other now raw] classify_parts(2) [of other now raw] by (simp_all add: c)
  obtain p' ins where ins: "(if 0 < length valid then healthy_sink E valid p
        else (p, Inr \<lparr>persisted_codes = [], conflict_links = []\<rparr>)) = (p', Inr ins)"
      "0 < length (persisted_codes ins) + length (conflict_links ins) + length letters"
  proof (cases "valid = []")
    case True
    then show thesis using len assms(4) that [of p] by auto
  next
    case False
    then show thesis using healthy_insert [OF False ok, of p] that by fastforce
  qed
  define ls where "ls = letters @ map (\<lambda>c. deadLetter now ''conflict'' (serializePendingLink c)) (conflict_links ins)"
  have st1: "healthy_step now (s, p) (at_phase k tok (Inserting i raw) res) =
      ((s, p'), at_phase k tok (Completing i raw ins ls (length letters)) res)"
    using ins(1) by (simp add: sync_step_def c ls_def Let_def)
  obtain s' r where comp: "sq_complete Q k tok
       \<lparr>consumed = length raw, persisted = persisted_codes ins,
        conflicts = map pending_code (conflict_links ins), deadLetters = ls,
        cacheTtlSeconds = opt_cacheTtlSeconds opts\<rparr> s = (s', r)" by fastforce
  note ok2 = complete_ok [OF assms(1,2) comp]
  define res' where "res' = addResult res \<lparr>res_synced = length (persisted_codes ins),
     res_conflicts = length (conflict_links ins), res_poison = length letters\<rparr>"
  have st2: "healthy_step now' (s, p') (at_phase k tok (Completing i raw ins ls (length letters)) res) =
      ((s', p'), at_phase k tok
        (if int (length raw) < opt_batchSize opts then Finished False
         else if int (Suc i) < opt_maxBatchesPerShard opts then Acquiring (Suc i) else Finished False) res')"
    using ok2 assms(3) by (simp add: sync_step_def await_cases comp res'_def)
  show thesis
  proof (rule that)
    show "result_total res < result_total res'"
      using ins(2) by (simp add: res'_def addResult_total) (simp add: result_total_def)
    show "inv s'" using ok2 by blast
    show "ent s' j = (if j = k then drop (length raw) (ent s k) else ent s j)"
      "own s' j = (if j = k then None else own s j)" if "valid_shard j" for j
      using ok2 assms(3) that by auto
  qed (simp add: run_task_Cons st1 st2)
qed

text \<open>A machine that does not meet errors, from an attempt to acquire a free lock to its end.\<close>

abbreviation healthy :: "int \<Rightarrow> nat \<Rightarrow> 'p outcomes" where
  "healthy now m \<equiv> replicate m (NetOk, now, healthy_sink E)"

lemma step_finished: "healthy_step now (s, p) (at_phase k tok (Finished e) res) = ((s, p), at_phase k tok (Finished e) res)"
  by (simp add: sync_step_def)

lemma run_finished: "run_task Q opts other outs w (at_phase k tok (Finished e) res) = (w, at_phase k tok (Finished e) res)"
proof (induction outs)
  case (Cons x outs)
  obtain n now sink where "x = (n, now, sink)" by (cases x)
  with Cons show ?case by (simp add: run_task_Cons sync_step_def split: prod.split)
qed simp

lemma healthy_Suc:
  "run_task Q opts other (healthy now (Suc m)) w t =
     (let (w', t') = healthy_step now w t in run_task Q opts other (healthy now m) w' t')"
  by (simp add: run_task_Cons)

text \<open>One round: up to four calls, after which the machine has finished or is about to acquire again.\<close>

lemma healthy_round:
  assumes "inv s" "valid_shard k" "own s k = None" "int i < opt_maxBatchesPerShard opts"
  obtains s' p' res' ph where
    "run_task Q opts other (healthy now 4) (s, p) (at_phase k tok (Acquiring i) res) = ((s', p'), at_phase k tok ph res')"
    and "ph = (if int (length (ent s k)) < opt_batchSize opts then Finished False
               else if int (Suc i) < opt_maxBatchesPerShard opts then Acquiring (Suc i) else Finished False)"
    and "inv s'" "\<And>j. valid_shard j \<Longrightarrow> own s' j = own s j"
    and "\<And>j. valid_shard j \<Longrightarrow>
           ent s' j = (if j = k then drop (nat (opt_batchSize opts)) (ent s k) else ent s j)"
    and "if ent s k = [] then res' = res else result_total res < result_total res'"
proof -
  have four: "healthy now 4 = (NetOk, now, healthy_sink E) # (NetOk, now, healthy_sink E) #
      [(NetOk, now, healthy_sink E), (NetOk, now, healthy_sink E)]"
    by (simp add: numeral_eq_Suc)
  obtain s1 where a: "healthy_step now (s, p) (at_phase k tok (Acquiring i) res) =
      ((s1, p), at_phase k tok (Peeking i) res)"
    and i1: "inv s1" and e1: "\<And>j. valid_shard j \<Longrightarrow> ent s1 j = ent s j"
    and o1: "\<And>j. valid_shard j \<Longrightarrow> own s1 j = (if j = k then Some tok else own s j)"
    using healthy_acquire [OF assms(1-3), of now p tok i res] assms(4) by auto
  note pk = healthy_peek [OF i1 assms(2), of now p tok i res]
  have own1: "own s1 k = Some tok" using o1 assms(2) by simp
  show thesis
  proof (cases "ent s k = []")
    case True
    obtain s2 where r: "healthy_step now (s1, p) (at_phase k tok (Releasing False) res) =
        ((s2, p), at_phase k tok (Finished False) res)"
      and 2: "inv s2" "\<And>j. valid_shard j \<Longrightarrow> ent s2 j = ent s1 j"
        "\<And>j. valid_shard j \<Longrightarrow> own s2 j = (if j = k then None else own s1 j)"
      using healthy_release [OF i1 assms(2) own1] by metis
    show thesis
    proof (rule that)
      show "run_task Q opts other (healthy now 4) (s, p) (at_phase k tok (Acquiring i) res) =
          ((s2, p), at_phase k tok (Finished False) res)"
        unfolding four using True e1 assms(2) by (simp add: run_task_Cons a pk r step_finished)
    qed (use True 2 e1 o1 assms(2,3) batch_pos in auto)
  next
    case False
    let ?raw = "take (nat (opt_batchSize opts)) (ent s k)"
    have raw: "?raw \<noteq> []" using False batch_pos by (simp add: take_eq_Nil)
    obtain s2 p2 res2 where w: "run_task Q opts other [(NetOk, now, healthy_sink E), (NetOk, now, healthy_sink E)]
         (s1, p) (at_phase k tok (Inserting i ?raw) res) =
       ((s2, p2), at_phase k tok
          (if int (length ?raw) < opt_batchSize opts then Finished False
           else if int (Suc i) < opt_maxBatchesPerShard opts then Acquiring (Suc i) else Finished False) res2)"
      and 2: "inv s2" "result_total res < result_total res2"
        "\<And>j. valid_shard j \<Longrightarrow> ent s2 j = (if j = k then drop (length ?raw) (ent s1 k) else ent s1 j)"
        "\<And>j. valid_shard j \<Longrightarrow> own s2 j = (if j = k then None else own s1 j)"
      using healthy_write [OF i1 assms(2) own1 raw] by metis
    have len: "int (length ?raw) < opt_batchSize opts \<longleftrightarrow> int (length (ent s k)) < opt_batchSize opts"
      using batch_pos by auto
    have dr: "drop (length ?raw) (ent s k) = drop (nat (opt_batchSize opts)) (ent s k)"
      by (auto simp: min_def)
    show thesis
    proof (rule that)
      show "run_task Q opts other (healthy now 4) (s, p) (at_phase k tok (Acquiring i) res) =
        ((s2, p2), at_phase k tok
          (if int (length (ent s k)) < opt_batchSize opts then Finished False
           else if int (Suc i) < opt_maxBatchesPerShard opts then Acquiring (Suc i) else Finished False) res2)"
        unfolding four using False e1 assms(2) w len by (simp add: run_task_Cons [of _ _ _ NetOk now "healthy_sink E" "[_, _]"] run_task_Cons [of _ _ _ NetOk now "healthy_sink E" "[_, _, _]"] a pk)
    qed (use False 2 e1 o1 dr assms(2,3) in auto)
  qed
qed

lemma healthy_loop:
  assumes "inv s" "valid_shard k" "own s k = None" "i < nat (opt_maxBatchesPerShard opts)"
    and "4 * (nat (opt_maxBatchesPerShard opts) - i) \<le> m"
  shows "\<exists>s' p' res'. run_task Q opts other (healthy now m) (s, p) (at_phase k tok (Acquiring i) res) =
      ((s', p'), at_phase k tok (Finished False) res') \<and> inv s' \<and>
      (\<forall>j. valid_shard j \<longrightarrow> own s' j = own s j \<and>
         ent s' j = (if j = k then drop ((nat (opt_maxBatchesPerShard opts) - i) * nat (opt_batchSize opts)) (ent s k)
                     else ent s j)) \<and>
      (if ent s k = [] then res' = res else result_total res < result_total res')"
  using assms(1,3,4,5)
proof (induction "nat (opt_maxBatchesPerShard opts) - i" arbitrary: i m s p res)
  case (Suc d)
  let ?M = "nat (opt_maxBatchesPerShard opts)" and ?B = "nat (opt_batchSize opts)"
  obtain m0 where m: "m = 4 + m0" using Suc.prems(3,4) by (metis Suc_diff_Suc less_eqE mult_Suc_right add.assoc)
  obtain s1 p1 res1 ph where
    run: "run_task Q opts other (healthy now 4) (s, p) (at_phase k tok (Acquiring i) res) =
        ((s1, p1), at_phase k tok ph res1)"
    and ph: "ph = (if int (length (ent s k)) < opt_batchSize opts then Finished False
               else if int (Suc i) < opt_maxBatchesPerShard opts then Acquiring (Suc i) else Finished False)"
    and i1: "inv s1" and o1: "\<And>j. valid_shard j \<Longrightarrow> own s1 j = own s j"
    and e1: "\<And>j. valid_shard j \<Longrightarrow> ent s1 j = (if j = k then drop ?B (ent s k) else ent s j)"
    and r1: "if ent s k = [] then res1 = res else result_total res < result_total res1"
    by (rule healthy_round [OF Suc.prems(1) assms(2) Suc.prems(2), of i now p tok res])
      (use Suc.prems(3) in simp, rule that)
  have all: "run_task Q opts other (healthy now m) (s, p) (at_phase k tok (Acquiring i) res) =
      run_task Q opts other (healthy now m0) (s1, p1) (at_phase k tok ph res1)"
    unfolding m replicate_add run_task_append run by simp
  show ?case
  proof (cases "int (length (ent s k)) < opt_batchSize opts \<or> \<not> Suc i < ?M")
    case True
    then have "ph = Finished False" using ph by auto
    moreover have "drop ?B (ent s k) = drop ((?M - i) * ?B) (ent s k)"
    proof (cases "Suc i < ?M")
      case True
      with \<open>int (length (ent s k)) < opt_batchSize opts \<or> \<not> Suc i < ?M\<close>
      have "length (ent s k) \<le> ?B" by auto
      moreover have "?B \<le> (?M - i) * ?B" using Suc.prems(3) by (cases "?M - i") auto
      ultimately have "length (ent s k) \<le> (?M - i) * ?B" by (rule le_trans)
      with \<open>length (ent s k) \<le> ?B\<close> show ?thesis by simp
    next
      case False
      then have "?M - i = 1" using Suc.prems(3) by simp
      then show ?thesis by simp
    qed
    ultimately show ?thesis using i1 o1 e1 r1 unfolding all by (auto simp: run_finished)
  next
    case False
    then have ph2: "ph = Acquiring (Suc i)" and lt: "Suc i < ?M" using ph by auto
    have dM: "d = ?M - Suc i" using Suc.hyps(2) by simp
    have m0: "4 * (?M - Suc i) \<le> m0" using Suc.prems(4) lt m by (simp add: Suc_diff_Suc [symmetric])
    have own1: "own s1 k = None" using o1 assms(2) Suc.prems(2) by simp
    have mult: "(?M - Suc i) * ?B + ?B = (?M - i) * ?B"
      using lt by (metis Suc_diff_Suc Suc_lessD add.commute mult_Suc)
    have "ent s k \<noteq> []" using False batch_pos by auto
    then have r1': "result_total res < result_total res1" using r1 by simp
    from Suc.hyps(1) [OF dM i1 own1 lt m0, of p1 res1] o1 e1 mult assms(2) \<open>ent s k \<noteq> []\<close> r1'
    show ?thesis unfolding all ph2 by (fastforce split: if_splits)
  qed
qed simp

abbreviation tick_size :: nat where
  "tick_size \<equiv> nat (opt_maxBatchesPerShard opts) * nat (opt_batchSize opts)"

lemma healthy_shard:
  assumes "inv s" "valid_shard k" "own s k = None" "1 \<le> opt_maxBatchesPerShard opts"
    and "4 * nat (opt_maxBatchesPerShard opts) + 1 \<le> m"
  shows "\<exists>s' p' t. syncShard Q opts other (healthy now m) tok k (s, p) = ((s', p'), t) \<and>
      task_phase t = Finished False \<and> inv s' \<and>
      (\<forall>j. valid_shard j \<longrightarrow> own s' j = own s j \<and>
         ent s' j = (if j = k then drop tick_size (ent s k) else ent s j)) \<and>
      (result_total (task_result t) = 0 \<longleftrightarrow> ent s k = [])"
proof -
  obtain m0 where m: "m = Suc m0" using assms(5) by (cases m) auto
  have check: "healthy_step now (s, p) (start_task k tok) =
      ((s, p), at_phase k tok (if ent s k = [] then Finished False else Acquiring 0) emptyResult)"
    by (simp add: sync_step_def start_task_def await_cases length_ok [OF assms(1,2)])
  show ?thesis
  proof (cases "ent s k = []")
    case True
    then show ?thesis using assms(1)
      unfolding syncShard_def m healthy_Suc check
      by (auto simp: run_finished result_total_def emptyResult_def)
  next
    case False
    have "4 * (nat (opt_maxBatchesPerShard opts) - 0) \<le> m0" "0 < nat (opt_maxBatchesPerShard opts)"
      using assms(4,5) m by simp_all
    from healthy_loop [OF assms(1-3) this(2,1), of now p tok emptyResult] False
    show ?thesis unfolding syncShard_def m healthy_Suc check by (auto simp: result_total_def)
  qed
qed

abbreviation healthy_plan :: "int \<Rightarrow> (int \<Rightarrow> string) \<Rightarrow> int list \<Rightarrow> 'p tick_plan" where
  "healthy_plan now tok shards \<equiv>
     map (\<lambda>k. (k, tok k, healthy now (4 * nat (opt_maxBatchesPerShard opts) + 1))) shards"

lemma healthy_tick:
  assumes "1 \<le> opt_maxBatchesPerShard opts"
  shows "inv s \<Longrightarrow> \<forall>k \<in> set shards. valid_shard k \<and> own s k = None \<Longrightarrow> distinct shards \<Longrightarrow>
    \<exists>s' p' res. processShards Q opts other (healthy_plan now tok shards) (s, p) = ((s', p'), res, 0) \<and> inv s' \<and>
      (\<forall>j. valid_shard j \<longrightarrow> own s' j = own s j \<and>
         ent s' j = (if j \<in> set shards then drop tick_size (ent s j) else ent s j)) \<and>
      (result_total res = 0 \<longleftrightarrow> (\<forall>k \<in> set shards. ent s k = []))"
proof (induction shards arbitrary: s p)
  case Nil
  then show ?case by (simp add: result_total_def emptyResult_def)
next
  case (Cons k ks)
  have k: "valid_shard k" "own s k = None" using Cons.prems(2) by auto
  obtain s1 p1 t where
    1: "syncShard Q opts other (healthy now (4 * nat (opt_maxBatchesPerShard opts) + 1)) (tok k) k (s, p) = ((s1, p1), t)"
      "task_phase t = Finished False" "inv s1"
      "\<forall>j. valid_shard j \<longrightarrow> own s1 j = own s j \<and> ent s1 j = (if j = k then drop tick_size (ent s k) else ent s j)"
      "result_total (task_result t) = 0 \<longleftrightarrow> ent s k = []"
    using healthy_shard [OF Cons.prems(1) k assms order_refl, of now "tok k" p] by (elim exE conjE) (rule that)
  have "\<forall>k \<in> set ks. valid_shard k \<and> own s1 k = None" using Cons.prems(2) 1(4) by auto
  then obtain s2 p2 res where
    2: "processShards Q opts other (healthy_plan now tok ks) (s1, p1) = ((s2, p2), res, 0)" "inv s2"
      "\<forall>j. valid_shard j \<longrightarrow> own s2 j = own s1 j \<and> ent s2 j = (if j \<in> set ks then drop tick_size (ent s1 j) else ent s1 j)"
      "result_total res = 0 \<longleftrightarrow> (\<forall>k \<in> set ks. ent s1 k = [])"
    using Cons.IH [OF 1(3)] Cons.prems(3) by fastforce
  have same: "ent s1 j = ent s j" if "j \<in> set ks" for j
    using that Cons.prems(2,3) 1(4) by auto
  have "processShards Q opts other (healthy_plan now tok (k # ks)) (s, p) = ((s2, p2), addResult (task_result t) res, 0)"
    using 1(1,2) 2(1) by simp
  moreover have "\<forall>j. valid_shard j \<longrightarrow> own s2 j = own s j \<and>
      ent s2 j = (if j \<in> set (k # ks) then drop tick_size (ent s j) else ent s j)"
    using 1(4) 2(3) same Cons.prems(3) by auto
  moreover have "result_total (addResult (task_result t) res) = 0 \<longleftrightarrow> (\<forall>k \<in> set (k # ks). ent s k = [])"
    using 1(5) 2(4) same by (simp add: addResult_total)
  ultimately show ?case using 2(2) by (intro exI conjI)
qed

lemma healthy_drain:
  assumes "1 \<le> opt_maxBatchesPerShard opts" "distinct shards"
  shows "inv s \<Longrightarrow> \<forall>k \<in> set shards. valid_shard k \<and> own s k = None \<Longrightarrow>
    (\<Sum>k \<leftarrow> shards. length (ent s k)) < length ticks \<Longrightarrow>
    \<exists>s' p' res. drain Q opts other (map (\<lambda>(now, tok). healthy_plan now tok shards) ticks) acc (s, p) = ((s', p'), res) \<and>
      inv s' \<and> (\<forall>k \<in> set shards. ent s' k = [])"
proof (induction ticks arbitrary: s p acc)
  case (Cons x ticks)
  obtain now tok where x: "x = (now, tok)" by (cases x)
  obtain s1 p1 res where
    1: "processShards Q opts other (healthy_plan now tok shards) (s, p) = ((s1, p1), res, 0)" "inv s1"
      "\<forall>j. valid_shard j \<longrightarrow> own s1 j = own s j \<and> ent s1 j = (if j \<in> set shards then drop tick_size (ent s j) else ent s j)"
      "result_total res = 0 \<longleftrightarrow> (\<forall>k \<in> set shards. ent s k = [])"
    using healthy_tick [where now = now and tok = tok and p = p, OF assms(1) Cons.prems(1,2) assms(2)] by (elim exE conjE) (rule that)
  have own1: "\<forall>k \<in> set shards. valid_shard k \<and> own s1 k = None" using 1(3) Cons.prems(2) by auto
  have e1: "ent s1 k = drop tick_size (ent s k)" if "k \<in> set shards" for k using that 1(3) Cons.prems(2) by auto
  show ?case
  proof (cases "\<forall>k \<in> set shards. ent s k = []")
    case True
    then show ?thesis using 1 e1 by (simp add: x)
  next
    case False
    have pos: "0 < tick_size" using assms(1) batch_pos by simp
    have le: "length (ent s1 k) \<le> length (ent s k)" if "k \<in> set shards" for k using e1 [OF that] by simp
    obtain k where k: "k \<in> set shards" "ent s k \<noteq> []" using False by blast
    have "length (ent s1 k) < length (ent s k)"
      unfolding e1 [OF k(1)] length_drop using pos k(2) by (intro diff_less) simp_all
    then have "(\<Sum>k \<leftarrow> shards. length (ent s1 k)) < (\<Sum>k \<leftarrow> shards. length (ent s k))"
      using k(1) le assms(2) by (simp add: sum_list_distinct_conv_sum_set) (intro sum_strict_mono_ex1, auto)
    then have "(\<Sum>k \<leftarrow> shards. length (ent s1 k)) < length ticks" using Cons.prems(3) by simp
    from Cons.IH [OF 1(2) own1 this, of "addResult acc res" p1] show ?thesis
      using 1(1,4) False by (simp add: x)
  qed
qed simp

end

end
