(* ===== verification/Sync_Fleet.thy ===== *)
theory Sync_Fleet
  imports Sync_Worker
begin

text \<open>
  Many sync workers at once.  The steps below interleave the machines of \<open>Sync_Worker\<close> with everything
  else that can happen: calls whose request or reply is lost, locks that expire, links that are
  queued, other clients writing to the database.  A worker that crashes is a machine that makes no
  further step.  Three fields are bookkeeping: the records ever queued, the records
  removed from the queues, and the codes that rows got from elsewhere.
\<close>

record ('s, 'p) sync_fleet_state =
  fl_queue :: 's
  fl_db :: 'p
  fl_tasks :: "sync_task list"
  fl_tokens :: "string set"
  fl_accepted :: "int \<Rightarrow> string list"
  fl_removed :: "int \<Rightarrow> string list"
  fl_foreign :: "string set"

definition link_of :: "(string \<Rightarrow> int option) \<Rightarrow> string list \<Rightarrow> pending_link set" where
  "link_of other raw = {l. \<exists>e \<in> set raw. parsePendingLink other e = Some l}"

text \<open>The codes a machine is about to insert.\<close>

definition own_codes :: "(string \<Rightarrow> int option) \<Rightarrow> sync_task \<Rightarrow> string set" where
  "own_codes other t = (case task_phase t of Inserting i raw \<Rightarrow> pending_code ` link_of other raw | _ \<Rightarrow> {})"

inductive sync_fleet_step ::
  "'s sync_queue \<Rightarrow> ('s \<Rightarrow> bool) \<Rightarrow> ('s \<Rightarrow> int \<Rightarrow> string list) \<Rightarrow> ('s \<Rightarrow> int \<Rightarrow> string option) \<Rightarrow>
   'p pg_engine \<Rightarrow> sync_options \<Rightarrow> (string \<Rightarrow> int option) \<Rightarrow>
   ('s, 'p) sync_fleet_state \<Rightarrow> ('s, 'p) sync_fleet_state \<Rightarrow> bool"
  for Q inv ent own E opts other where
  start: "valid_shard k \<Longrightarrow> tok \<notin> fl_tokens f \<Longrightarrow>
     sync_fleet_step Q inv ent own E opts other f
       (f\<lparr>fl_tasks := fl_tasks f @ [start_task k tok], fl_tokens := insert tok (fl_tokens f)\<rparr>)"
| work: "i < length (fl_tasks f) \<Longrightarrow> t = fl_tasks f ! i \<Longrightarrow> (\<And>q. rows_kept E q (between q)) \<Longrightarrow>
     sync_step Q (insertPendingBatch E n1 n2 between) opts other n now (fl_queue f, fl_db f) t = ((s', p'), t') \<Longrightarrow>
     sync_fleet_step Q inv ent own E opts other f
       (f\<lparr>fl_queue := s', fl_db := p', fl_tasks := (fl_tasks f)[i := t'],
          fl_removed := (\<lambda>k. fl_removed f k @ take (length (ent (fl_queue f) k) - length (ent s' k)) (ent (fl_queue f) k)),
          fl_foreign := fl_foreign f \<union> (codes_in E p' - codes_in E (fl_db f) - own_codes other t)\<rparr>)"
| traffic: "inv s' \<Longrightarrow>
     (\<And>k. valid_shard k \<Longrightarrow> (\<exists>new. ent s' k = ent (fl_queue f) k @ new) \<and>
        (own s' k = own (fl_queue f) k \<or> own s' k = None)) \<Longrightarrow>
     sync_fleet_step Q inv ent own E opts other f
       (f\<lparr>fl_queue := s',
          fl_accepted := (\<lambda>k. fl_accepted f k @ drop (length (ent (fl_queue f) k)) (ent s' k))\<rparr>)"
| client: "rows_kept E (fl_db f) p' \<Longrightarrow>
     sync_fleet_step Q inv ent own E opts other f
       (f\<lparr>fl_db := p', fl_foreign := fl_foreign f \<union> (codes_in E p' - codes_in E (fl_db f))\<rparr>)"

definition fleet_start ::
  "('s \<Rightarrow> int \<Rightarrow> string list) \<Rightarrow> ('s \<Rightarrow> int \<Rightarrow> string option) \<Rightarrow> 'p pg_engine \<Rightarrow> 's \<Rightarrow> 'p \<Rightarrow> ('s, 'p) sync_fleet_state" where
  "fleet_start ent own E s p =
     \<lparr>fl_queue = s, fl_db = p, fl_tasks = [], fl_tokens = {t. \<exists>k. own s k = Some t},
      fl_accepted = ent s, fl_removed = (\<lambda>_. []), fl_foreign = codes_in E p\<rparr>"

inductive sync_fleet_reachable ::
  "'s sync_queue \<Rightarrow> ('s \<Rightarrow> bool) \<Rightarrow> ('s \<Rightarrow> int \<Rightarrow> string list) \<Rightarrow> ('s \<Rightarrow> int \<Rightarrow> string option) \<Rightarrow>
   'p pg_engine \<Rightarrow> sync_options \<Rightarrow> (string \<Rightarrow> int option) \<Rightarrow> ('s, 'p) sync_fleet_state \<Rightarrow> bool"
  for Q inv ent own E opts other where
  init: "inv s \<Longrightarrow> sync_fleet_reachable Q inv ent own E opts other (fleet_start ent own E s p)"
| step: "sync_fleet_reachable Q inv ent own E opts other f \<Longrightarrow>
     sync_fleet_step Q inv ent own E opts other f g \<Longrightarrow> sync_fleet_reachable Q inv ent own E opts other g"

section \<open>What one step of a machine changes\<close>

lemma insertPendingBatch_lost: "fst (insertPendingBatch E LostRequest n2 between ls p) = p"
  by (simp add: insertPendingBatch_def Let_def)

text \<open>A record is settled when the worker may remove it: unreadable, or its code is in the table.\<close>

definition settled :: "'p pg_engine \<Rightarrow> (string \<Rightarrow> int option) \<Rightarrow> 'p \<Rightarrow> string \<Rightarrow> bool" where
  "settled E other p e \<longleftrightarrow> (\<forall>l. parsePendingLink other e = Some l \<longrightarrow> pending_code l \<in> codes_in E p)"

lemma settled_kept: "settled E other p e \<Longrightarrow> rows_kept E p q \<Longrightarrow> settled E other q e"
  using codes_kept unfolding settled_def by (metis subsetD)

fun batch_of :: "phase \<Rightarrow> string list option" where
  "batch_of (Inserting i raw) = Some raw"
| "batch_of (Completing i raw ins ls n) = Some raw"
| "batch_of _ = None"

context sync_fleet
begin

lemma step_identity:
  assumes "sync_step Q sink opts other n now (s, p) t = ((s', p'), t')"
  shows "task_shard t' = task_shard t" "task_token t' = task_token t"
  using assms
  by (auto simp: sync_step_def Let_def case_prod_beta split: phase.splits option.splits if_splits)

lemma await_state: "fst (await n f s) = s \<or> fst (await n f s) = fst (f s)"
  by (cases n) (simp_all add: await_cases)

text \<open>The call a step makes that can change the queue.\<close>

abbreviation completion_of :: "string list \<Rightarrow> batch_result \<Rightarrow> string list \<Rightarrow> sync_completion" where
  "completion_of raw ins ls \<equiv> \<lparr>consumed = length raw, persisted = persisted_codes ins,
     conflicts = map pending_code (conflict_links ins), deadLetters = ls,
     cacheTtlSeconds = opt_cacheTtlSeconds opts\<rparr>"

lemma step_call:
  assumes st: "sync_step Q sink opts other n now (s, p) t = ((s', p'), t')"
    and s: "inv s" "valid_shard (task_shard t)"
  obtains "s' = s"
  | "s' = fst (sq_acquire Q (task_shard t) (task_token t) (opt_lockTtlMs opts) s)" "batch_of (task_phase t') = None"
  | i raw ins ls m where "task_phase t = Completing i raw ins ls m"
      "s' = fst (sq_complete Q (task_shard t) (task_token t) (completion_of raw ins ls) s)"
  | "s' = fst (sq_release Q (task_shard t) (task_token t) s)"
proof (cases "task_phase t")
  case Checking
  then have "s' = fst (await n (sq_length Q (task_shard t)) s)"
    using st by (auto simp: sync_step_def Let_def case_prod_beta)
  then show thesis using await_state [of n "sq_length Q (task_shard t)" s] length_ok [OF s] that(1) by auto
next
  case (Acquiring i)
  then have "s' = fst (await n (sq_acquire Q (task_shard t) (task_token t) (opt_lockTtlMs opts)) s)"
    and "batch_of (task_phase t') = None"
    using st by (auto simp: sync_step_def Let_def case_prod_beta split: option.splits if_splits)
  then show thesis
    using await_state [of n "sq_acquire Q (task_shard t) (task_token t) (opt_lockTtlMs opts)" s] that(1,2) by auto
next
  case (Peeking i)
  then have "s' = fst (await n (sq_peek Q (task_shard t) (opt_batchSize opts)) s)"
    using st by (auto simp: sync_step_def Let_def case_prod_beta)
  then show thesis using await_state [of n "sq_peek Q (task_shard t) (opt_batchSize opts)" s] peek_ok [OF s batch_pos] that(1) by auto
next
  case (Inserting i raw)
  then show thesis using st that(1) by (auto simp: sync_step_def Let_def case_prod_beta)
next
  case (Completing i raw ins ls m)
  then have "s' = fst (await n (sq_complete Q (task_shard t) (task_token t) (completion_of raw ins ls)) s)"
    using st by (auto simp: sync_step_def Let_def case_prod_beta)
  then show thesis
    using await_state [of n "sq_complete Q (task_shard t) (task_token t) (completion_of raw ins ls)" s]
      that(1,3) Completing by metis
next
  case (Releasing e)
  then have "s' = fst (await n (sq_release Q (task_shard t) (task_token t)) s)"
    using st by (auto simp: sync_step_def Let_def case_prod_beta)
  then show thesis using await_state [of n "sq_release Q (task_shard t) (task_token t)" s] that(1,4) by auto
next
  case (Finished e)
  then show thesis using st that(1) by (simp add: sync_step_def)
qed

text \<open>The queue: only the machine's own shard, only its own lock; the queue shrinks only when the machine
  completes a batch while it owns the lock, and then by that batch.\<close>

lemma step_queue:
  assumes st: "sync_step Q sink opts other n now (s, p) t = ((s', p'), t')"
    and s: "inv s" "valid_shard (task_shard t)"
  shows "inv s' \<and> (\<forall>j. valid_shard j \<longrightarrow> j \<noteq> task_shard t \<longrightarrow> ent s' j = ent s j \<and> own s' j = own s j) \<and>
    (ent s' (task_shard t) = ent s (task_shard t) \<and>
       (own s' (task_shard t) = own s (task_shard t) \<or>
        own s' (task_shard t) = None \<and> own s (task_shard t) = Some (task_token t) \<or>
        own s' (task_shard t) = Some (task_token t) \<and> own s (task_shard t) = None \<and> batch_of (task_phase t') = None) \<or>
     (\<exists>i raw ins ls m. task_phase t = Completing i raw ins ls m \<and> own s (task_shard t) = Some (task_token t) \<and>
        own s' (task_shard t) = None \<and> ent s' (task_shard t) = drop (length raw) (ent s (task_shard t))))"
  using st s
proof (cases rule: step_call)
  case 1
  then show ?thesis using s by simp
next
  case 2
  from acquire_ok [OF s lock_pos surjective_pairing] 2 s show ?thesis
    by (cases "own s (task_shard t) = None") auto
next
  case (3 i raw ins ls m)
  from complete_ok [OF s surjective_pairing] 3 s show ?thesis
    by (cases "own s (task_shard t) = Some (task_token t)") auto
next
  case 4
  from release_ok [OF s surjective_pairing] 4 s show ?thesis
    by (cases "own s (task_shard t) = Some (task_token t)") auto
qed

text \<open>The batch is read from the head of the queue, and settled when it is about to be completed; the
  rows a step adds are the batch's own or come from other clients.\<close>

lemma step_to_inserting:
  assumes st: "sync_step Q sink opts other n now (s, p) t = ((s', p'), t')"
    and s: "inv s" "valid_shard (task_shard t)" and ph: "task_phase t' = Inserting i raw"
  shows "raw = take (nat (opt_batchSize opts)) (ent s (task_shard t))" "s' = s" "p' = p"
proof -
  obtain r where "task_phase t = Peeking i" "await n (sq_peek Q (task_shard t) (opt_batchSize opts)) s = (s', Some raw)"
    and p: "p' = p"
    using st ph by (auto simp: sync_step_def Let_def case_prod_beta prod_eq_iff
        split: phase.splits option.splits sum.splits if_splits)
  then have "sq_peek Q (task_shard t) (opt_batchSize opts) s = (s', Some raw)" by (intro await_Some)
  with peek_ok [OF s batch_pos] p
  show "raw = take (nat (opt_batchSize opts)) (ent s (task_shard t))" "s' = s" "p' = p" by auto
qed

lemma step_db:
  assumes st: "sync_step Q sink opts other n now (s, p) t = ((s', p'), t')"
  shows "p' = p \<or> (\<exists>i raw. task_phase t = Inserting i raw \<and> fst (classify other now raw) \<noteq> [] \<and>
           p' = fst (sink (fst (classify other now raw)) p))"
  using st by (auto simp: sync_step_def Let_def case_prod_beta split: phase.splits option.splits if_splits)

lemma step_rows:
  assumes st: "sync_step Q (insertPendingBatch E n1 n2 between) opts other n now (s, p) t = ((s', p'), t')"
    and between: "\<And>q. rows_kept E q (between q)"
  shows "rows_kept E p p'"
    and "c \<in> own_codes other t \<Longrightarrow> c \<in> codes_in E p' \<Longrightarrow> c \<notin> codes_in E p \<Longrightarrow>
      \<exists>i raw l. task_phase t = Inserting i raw \<and> l \<in> link_of other raw \<and> pending_code l = c \<and> stored E p' l"
proof -
  note db = step_db [OF st]
  show "rows_kept E p p'"
    using db insertPendingBatch_lost [of E n2 between]
      insertPendingBatch_kept(1) [OF classify_rows_ok between surjective_pairing]
    by (cases "n1 = LostRequest") auto
  assume c: "c \<in> own_codes other t" "c \<in> codes_in E p'" "c \<notin> codes_in E p"
  then obtain i raw where raw: "task_phase t = Inserting i raw" "fst (classify other now raw) \<noteq> []"
    "p' = fst (insertPendingBatch E n1 n2 between (fst (classify other now raw)) p)"
    using db by blast
  let ?v = "fst (classify other now raw)"
  have v: "set ?v = link_of other raw" by (simp add: link_of_def classify_parts(1))
  have "c \<in> pending_code ` set (unique_links ?v)"
    using c(1) raw(1) unique_links_props(2) [of ?v] by (simp add: own_codes_def v)
  then obtain l where l: "l \<in> set (unique_links ?v)" "pending_code l = c" by blast
  have "n1 \<noteq> LostRequest" using c(2,3) raw(3) insertPendingBatch_lost [of E n2 between ?v p] by auto
  then have "stored E p' l"
    using insertPendingBatch_kept(3) [OF classify_rows_ok between surjective_pairing] l c(3) raw(3) by blast
  then show "\<exists>i raw l. task_phase t = Inserting i raw \<and> l \<in> link_of other raw \<and> pending_code l = c \<and> stored E p' l"
    using raw(1) l unique_links_props(3) [of ?v] v by blast
qed

lemma step_to_completing:
  assumes st: "sync_step Q (insertPendingBatch E n1 n2 between) opts other n now (s, p) t = ((s', p'), t')"
    and between: "\<And>q. rows_kept E q (between q)" and ph: "task_phase t' = Completing i raw ins ls m"
  shows "task_phase t = Inserting i raw" "s' = s" "\<forall>e \<in> set raw. settled E other p' e"
proof -
  let ?v = "fst (classify other now raw)"
  show t: "task_phase t = Inserting i raw" and "s' = s"
    using st ph by (auto simp: sync_step_def Let_def case_prod_beta
        split: phase.splits option.splits sum.splits if_splits)
  have "?v = [] \<or> (\<exists>r. insertPendingBatch E n1 n2 between ?v p = (p', Inr r))"
    using st ph t by (auto simp: sync_step_def Let_def case_prod_beta prod_eq_iff split: sum.splits if_splits)
  then have "pending_code ` set ?v \<subseteq> codes_in E p'"
  proof
    assume "\<exists>r. insertPendingBatch E n1 n2 between ?v p = (p', Inr r)"
    then obtain r where r: "insertPendingBatch E n1 n2 between ?v p = (p', Inr r)" by blast
    then have "n1 \<noteq> LostRequest \<or> ?v = []" by (auto simp: insertPendingBatch_def split: if_splits)
    then show ?thesis using insertPendingBatch_kept(2) [OF classify_rows_ok between r] by auto
  qed simp
  then show "\<forall>e \<in> set raw. settled E other p' e"
    by (auto simp: settled_def classify_parts(1))
qed

section \<open>The invariant of the fleet\<close>

definition task_ok :: "('s, 'p) sync_fleet_state \<Rightarrow> sync_task \<Rightarrow> bool" where
  "task_ok f t \<longleftrightarrow> valid_shard (task_shard t) \<and> task_token t \<in> fl_tokens f \<and>
     (\<forall>raw. batch_of (task_phase t) = Some raw \<longrightarrow> set raw \<subseteq> set (fl_accepted f (task_shard t)) \<and>
        (own (fl_queue f) (task_shard t) = Some (task_token t) \<longrightarrow>
           take (length raw) (ent (fl_queue f) (task_shard t)) = raw)) \<and>
     (\<forall>i raw ins ls m. task_phase t = Completing i raw ins ls m \<longrightarrow> (\<forall>e \<in> set raw. settled E other (fl_db f) e))"

definition rows_ok :: "('s, 'p) sync_fleet_state \<Rightarrow> bool" where
  "rows_ok f \<longleftrightarrow> (\<forall>c \<in> codes_in E (fl_db f) - fl_foreign f. \<exists>k e l. valid_shard k \<and> e \<in> set (fl_accepted f k) \<and>
     parsePendingLink other e = Some l \<and> pending_code l = c \<and> stored E (fl_db f) l)"

definition ledger_ok :: "('s, 'p) sync_fleet_state \<Rightarrow> bool" where
  "ledger_ok f \<longleftrightarrow> (\<forall>k. valid_shard k \<longrightarrow> fl_accepted f k = fl_removed f k @ ent (fl_queue f) k \<and>
     (\<forall>e \<in> set (fl_removed f k). settled E other (fl_db f) e))"

definition fleet_ok :: "('s, 'p) sync_fleet_state \<Rightarrow> bool" where
  "fleet_ok f \<longleftrightarrow> inv (fl_queue f) \<and> distinct (map task_token (fl_tasks f)) \<and>
     (\<forall>k tok. valid_shard k \<longrightarrow> own (fl_queue f) k = Some tok \<longrightarrow> tok \<in> fl_tokens f) \<and>
     (\<forall>t \<in> set (fl_tasks f). task_ok f t) \<and> ledger_ok f \<and> rows_ok f"

lemma fleet_okD:
  assumes "fleet_ok f"
  shows "inv (fl_queue f)" "distinct (map task_token (fl_tasks f))" "ledger_ok f" "rows_ok f"
    "valid_shard k \<Longrightarrow> own (fl_queue f) k = Some tok \<Longrightarrow> tok \<in> fl_tokens f"
    "t \<in> set (fl_tasks f) \<Longrightarrow> task_ok f t"
  using assms by (auto simp: fleet_ok_def)

lemma prefix_append: "take (length raw) xs = raw \<Longrightarrow> take (length raw) (xs @ ys) = raw"
  by (metis append.assoc append_eq_conv_conj append_take_drop_id)

lemma fleet_ok_start:
  assumes f: "fleet_ok f" and k: "valid_shard k" and tok: "tok \<notin> fl_tokens f"
  shows "fleet_ok (f\<lparr>fl_tasks := fl_tasks f @ [start_task k tok], fl_tokens := insert tok (fl_tokens f)\<rparr>)"
    (is "fleet_ok ?g")
proof -
  have "task_token t \<noteq> tok" if "t \<in> set (fl_tasks f)" for t
    using fleet_okD(6) [OF f that] tok by (auto simp: task_ok_def)
  then have "distinct (map task_token (fl_tasks ?g))" using fleet_okD(2) [OF f] by (auto simp: start_task_def)
  moreover have "task_ok ?g t" if "t \<in> set (fl_tasks f)" for t
    using fleet_okD(6) [OF f that] by (simp add: task_ok_def)
  moreover have "task_ok ?g (start_task k tok)" using k by (simp add: task_ok_def start_task_def)
  moreover have "ledger_ok ?g" "rows_ok ?g" using fleet_okD(3,4) [OF f] by (simp_all add: ledger_ok_def rows_ok_def)
  ultimately show ?thesis using fleet_okD(1,5) [OF f] by (auto simp: fleet_ok_def)
qed

lemma fleet_ok_client:
  assumes f: "fleet_ok f" and p': "rows_kept E (fl_db f) p'"
  shows "fleet_ok (f\<lparr>fl_db := p', fl_foreign := fl_foreign f \<union> (codes_in E p' - codes_in E (fl_db f))\<rparr>)"
    (is "fleet_ok ?g")
proof -
  have "task_ok ?g t" if "t \<in> set (fl_tasks f)" for t
    using fleet_okD(6) [OF f that] settled_kept [OF _ p'] by (auto simp: task_ok_def)
  moreover have "ledger_ok ?g"
    using fleet_okD(3) [OF f] settled_kept [OF _ p'] by (auto simp: ledger_ok_def)
  moreover have "rows_ok ?g"
    unfolding rows_ok_def
  proof
    fix c
    assume "c \<in> codes_in E (fl_db ?g) - fl_foreign ?g"
    then have "c \<in> codes_in E (fl_db f) - fl_foreign f" by auto
    then obtain k e l where "valid_shard k" "e \<in> set (fl_accepted f k)" "parsePendingLink other e = Some l"
      "pending_code l = c" "stored E (fl_db f) l"
      using fleet_okD(4) [OF f] unfolding rows_ok_def by blast
    then show "\<exists>k e l. valid_shard k \<and> e \<in> set (fl_accepted ?g k) \<and> parsePendingLink other e = Some l \<and>
        pending_code l = c \<and> stored E (fl_db ?g) l"
      using stored_kept [OF _ p'] by fastforce
  qed
  ultimately show ?thesis using f by (simp add: fleet_ok_def)
qed

lemma fleet_ok_traffic:
  assumes f: "fleet_ok f" and s': "inv s'"
    and env: "\<And>k. valid_shard k \<Longrightarrow> (\<exists>new. ent s' k = ent (fl_queue f) k @ new) \<and>
        (own s' k = own (fl_queue f) k \<or> own s' k = None)"
  shows "fleet_ok (f\<lparr>fl_queue := s',
          fl_accepted := (\<lambda>k. fl_accepted f k @ drop (length (ent (fl_queue f) k)) (ent s' k))\<rparr>)" (is "fleet_ok ?g")
proof -
  have own: "own (fl_queue f) k = Some tok" if "valid_shard k" "own s' k = Some tok" for k tok
    using env [OF that(1)] that(2) by auto
  have "task_ok ?g t" if "t \<in> set (fl_tasks f)" for t
  proof -
    have t: "task_ok f t" "valid_shard (task_shard t)" using fleet_okD(6) [OF f that] by (auto simp: task_ok_def)
    obtain new where new: "ent s' (task_shard t) = ent (fl_queue f) (task_shard t) @ new"
      using env [OF t(2)] by blast
    show ?thesis
      using t own [OF t(2)] prefix_append unfolding task_ok_def by (fastforce simp: new)
  qed
  moreover have "ledger_ok ?g"
    unfolding ledger_ok_def
  proof (intro allI impI)
    fix k
    assume k: "valid_shard k"
    obtain new where "ent s' k = ent (fl_queue f) k @ new" using env [OF k] by blast
    then show "fl_accepted ?g k = fl_removed ?g k @ ent (fl_queue ?g) k \<and>
        (\<forall>e \<in> set (fl_removed ?g k). settled E other (fl_db ?g) e)"
      using fleet_okD(3) [OF f] k by (simp add: ledger_ok_def)
  qed
  moreover have "rows_ok ?g" using fleet_okD(4) [OF f] by (fastforce simp: rows_ok_def)
  ultimately show ?thesis using f s' own by (auto simp: fleet_ok_def)
qed

text \<open>The step of a machine: the machine itself, the other machines, the ledger and the rows.\<close>

lemma work_self:
  assumes t: "task_ok f t" and acc: "ledger_ok f" and inv: "inv (fl_queue f)"
    and between: "\<And>q. rows_kept E q (between q)"
    and st: "sync_step Q (insertPendingBatch E n1 n2 between) opts other n now (fl_queue f, fl_db f) t = ((s', p'), t')"
    and g: "fl_queue g = s'" "fl_db g = p'" "fl_tokens g = fl_tokens f" "fl_accepted g = fl_accepted f"
  shows "task_ok g t'"
proof -
  have v: "valid_shard (task_shard t)" using t by (simp add: task_ok_def)
  note id = step_identity [OF st]
  have "set (ent (fl_queue f) (task_shard t)) \<subseteq> set (fl_accepted f (task_shard t))"
    using acc v by (simp add: ledger_ok_def)
  then have "set raw \<subseteq> set (fl_accepted f (task_shard t)) \<and> take (length raw) (ent s' (task_shard t)) = raw"
    if "task_phase t' = Inserting i raw" for i raw
    using step_to_inserting [OF st inv v that] set_take_subset [of "nat (opt_batchSize opts)" "ent (fl_queue f) (task_shard t)"]
    by (auto simp: min_def)
  moreover have "set raw \<subseteq> set (fl_accepted f (task_shard t)) \<and>
      (own s' (task_shard t) = Some (task_token t) \<longrightarrow> take (length raw) (ent s' (task_shard t)) = raw) \<and>
      (\<forall>e \<in> set raw. settled E other p' e)"
    if "task_phase t' = Completing i raw ins ls m" for i raw ins ls m
    using step_to_completing [OF st between that] t by (simp add: task_ok_def)
  ultimately show ?thesis
    using t id by (cases "task_phase t'") (auto simp: task_ok_def g)
qed

lemma work_other:
  assumes u: "task_ok f u" and t: "task_ok f t" and neq: "task_token u \<noteq> task_token t" and inv: "inv (fl_queue f)"
    and between: "\<And>q. rows_kept E q (between q)"
    and st: "sync_step Q (insertPendingBatch E n1 n2 between) opts other n now (fl_queue f, fl_db f) t = ((s', p'), t')"
    and g: "fl_queue g = s'" "fl_db g = p'" "fl_tokens g = fl_tokens f" "fl_accepted g = fl_accepted f"
  shows "task_ok g u"
proof -
  have v: "valid_shard (task_shard t)" "valid_shard (task_shard u)" using t u by (simp_all add: task_ok_def)
  have "own (fl_queue f) (task_shard u) = Some (task_token u) \<and> ent s' (task_shard u) = ent (fl_queue f) (task_shard u)"
    if "own s' (task_shard u) = Some (task_token u)"
    using step_queue [OF st inv v(1)] v(2) neq that by (cases "task_shard u = task_shard t") auto
  moreover have "settled E other p' e" if "settled E other (fl_db f) e" for e
    using settled_kept [OF that step_rows(1) [OF st between]] .
  ultimately show ?thesis using u by (auto simp: task_ok_def g)
qed

lemma work_ledger:
  assumes t: "task_ok f t" and acc: "ledger_ok f" and inv: "inv (fl_queue f)"
    and between: "\<And>q. rows_kept E q (between q)"
    and st: "sync_step Q (insertPendingBatch E n1 n2 between) opts other n now (fl_queue f, fl_db f) t = ((s', p'), t')"
    and g: "fl_queue g = s'" "fl_db g = p'" "fl_accepted g = fl_accepted f"
      "fl_removed g = (\<lambda>k. fl_removed f k @ take (length (ent (fl_queue f) k) - length (ent s' k)) (ent (fl_queue f) k))"
  shows "ledger_ok g"
  unfolding ledger_ok_def
proof (intro allI impI)
  fix k
  assume k: "valid_shard k"
  have v: "valid_shard (task_shard t)" using t by (simp add: task_ok_def)
  have settled: "settled E other p' e" if "settled E other (fl_db f) e" for e
    using settled_kept [OF that step_rows(1) [OF st between]] .
  have a: "fl_accepted f k = fl_removed f k @ ent (fl_queue f) k" "\<forall>e \<in> set (fl_removed f k). settled E other p' e"
    using acc k settled by (auto simp: ledger_ok_def)
  consider "ent s' k = ent (fl_queue f) k"
    | i raw ins ls m where "task_phase t = Completing i raw ins ls m" "k = task_shard t"
        "own (fl_queue f) (task_shard t) = Some (task_token t)" "ent s' k = drop (length raw) (ent (fl_queue f) k)"
    using step_queue [OF st inv v] k by (cases "k = task_shard t") auto
  then show "fl_accepted g k = fl_removed g k @ ent (fl_queue g) k \<and> (\<forall>e \<in> set (fl_removed g k). settled E other (fl_db g) e)"
  proof cases
    case 1
    then show ?thesis using a by (simp add: g)
  next
    case (2 i raw ins ls m)
    then have raw: "take (length raw) (ent (fl_queue f) k) = raw" "\<forall>e \<in> set raw. settled E other p' e"
      using t settled by (auto simp: task_ok_def)
    then have "length raw \<le> length (ent (fl_queue f) k)" by (metis length_take min.cobounded1)
    then have "take (length (ent (fl_queue f) k) - length (ent s' k)) (ent (fl_queue f) k) = raw"
      using raw(1) by (simp add: 2(4))
    moreover have "ent (fl_queue f) k = raw @ ent s' k" using raw(1) 2(4) by (metis append_take_drop_id)
    ultimately show ?thesis using a raw(2) by (auto simp: g)
  qed
qed

lemma work_rows:
  assumes t: "task_ok f t" and rows: "rows_ok f"
    and between: "\<And>q. rows_kept E q (between q)"
    and st: "sync_step Q (insertPendingBatch E n1 n2 between) opts other n now (fl_queue f, fl_db f) t = ((s', p'), t')"
    and g: "fl_db g = p'" "fl_accepted g = fl_accepted f"
      "fl_foreign g = fl_foreign f \<union> (codes_in E p' - codes_in E (fl_db f) - own_codes other t)"
  shows "rows_ok g"
  unfolding rows_ok_def
proof
  fix c
  assume c: "c \<in> codes_in E (fl_db g) - fl_foreign g"
  show "\<exists>k e l. valid_shard k \<and> e \<in> set (fl_accepted g k) \<and> parsePendingLink other e = Some l \<and>
      pending_code l = c \<and> stored E (fl_db g) l"
  proof (cases "c \<in> codes_in E (fl_db f)")
    case True
    with c have "c \<in> codes_in E (fl_db f) - fl_foreign f" by (simp add: g)
    then obtain k e l where "valid_shard k" "e \<in> set (fl_accepted f k)" "parsePendingLink other e = Some l"
      "pending_code l = c" "stored E (fl_db f) l"
      using rows unfolding rows_ok_def by blast
    then show ?thesis using stored_kept [OF _ step_rows(1) [OF st between]] g by metis
  next
    case False
    with c have "c \<in> own_codes other t" "c \<in> codes_in E p'" by (simp_all add: g)
    from step_rows(2) [OF st between this False] obtain i raw l where
      l: "task_phase t = Inserting i raw" "l \<in> link_of other raw" "pending_code l = c" "stored E p' l" by blast
    then have "valid_shard (task_shard t)" "set raw \<subseteq> set (fl_accepted f (task_shard t))"
      using t by (auto simp: task_ok_def)
    with l show ?thesis unfolding link_of_def g by blast
  qed
qed

lemma fleet_ok_work:
  assumes f: "fleet_ok f" and i: "i < length (fl_tasks f)" "t = fl_tasks f ! i"
    and between: "\<And>q. rows_kept E q (between q)"
    and st: "sync_step Q (insertPendingBatch E n1 n2 between) opts other n now (fl_queue f, fl_db f) t = ((s', p'), t')"
    and g: "g = f\<lparr>fl_queue := s', fl_db := p', fl_tasks := (fl_tasks f)[i := t'],
          fl_removed := (\<lambda>k. fl_removed f k @ take (length (ent (fl_queue f) k) - length (ent s' k)) (ent (fl_queue f) k)),
          fl_foreign := fl_foreign f \<union> (codes_in E p' - codes_in E (fl_db f) - own_codes other t)\<rparr>"
  shows "fleet_ok g"
proof -
  have t: "t \<in> set (fl_tasks f)" "task_ok f t" using i fleet_okD(6) [OF f] by simp_all
  have v: "valid_shard (task_shard t)" using t(2) by (simp add: task_ok_def)
  note q = step_queue [OF st fleet_okD(1) [OF f] v]
  have sel: "fl_queue g = s'" "fl_db g = p'" "fl_tokens g = fl_tokens f" "fl_accepted g = fl_accepted f"
    by (simp_all add: g)
  have tokens: "map task_token ((fl_tasks f)[i := t']) = map task_token (fl_tasks f)"
    using step_identity(2) [OF st] i by (simp add: map_update list_update_same_conv)
  have other: "task_ok g u" if "u \<in> set ((fl_tasks f)[i := t'])" for u
  proof -
    from that obtain j where j: "j < length (fl_tasks f)" "u = (fl_tasks f)[i := t'] ! j"
      by (auto simp: in_set_conv_nth)
    show ?thesis
    proof (cases "j = i")
      case True
      then show ?thesis using work_self [OF t(2) fleet_okD(3,1) [OF f] between st sel] j i by simp
    next
      case False
      then have u: "u = fl_tasks f ! j" using j by simp
      then have "task_token u \<noteq> task_token t"
        using fleet_okD(2) [OF f] j(1) i False by (auto simp: distinct_conv_nth)
      moreover have "task_ok f u" using fleet_okD(6) [OF f] u j(1) by simp
      ultimately show ?thesis using work_other [OF _ t(2) _ fleet_okD(1) [OF f] between st sel] by simp
    qed
  qed
  have "tok \<in> fl_tokens f" if "valid_shard k" "own s' k = Some tok" for k tok
    using q that fleet_okD(5) [OF f that(1)] t(2) by (cases "k = task_shard t") (auto simp: task_ok_def)
  moreover have "ledger_ok g"
    by (rule work_ledger [OF t(2) fleet_okD(3,1) [OF f] between st sel(1,2,4)]) (simp add: g)
  moreover have "rows_ok g"
    by (rule work_rows [OF t(2) fleet_okD(4) [OF f] between st sel(2,4)]) (simp add: g)
  ultimately show ?thesis using q other tokens fleet_okD(2) [OF f] unfolding fleet_ok_def
    by (simp add: g map_update)
qed

lemma reachable_ok:
  "sync_fleet_reachable Q inv ent own E opts other f \<Longrightarrow> fleet_ok f"
proof (induction rule: sync_fleet_reachable.induct)
  case (init s p)
  then show ?case by (auto simp: fleet_ok_def fleet_start_def ledger_ok_def rows_ok_def)
next
  case (step f g)
  from step.hyps(2) show ?case
  proof (cases rule: sync_fleet_step.cases)
    case (start k tok)
    then show ?thesis using fleet_ok_start [OF step.IH] by simp
  next
    case (work i t between n1 n2 n now s' p' t')
    then show ?thesis by (intro fleet_ok_work [OF step.IH])
  next
    case (traffic s')
    then show ?thesis using fleet_ok_traffic [OF step.IH] by simp
  next
    case (client p')
    then show ?thesis using fleet_ok_client [OF step.IH] by simp
  qed
qed

lemma stored_if_unique:
  assumes "sync_fleet_reachable Q inv ent own E opts other f" "valid_shard k" "e \<in> set (fl_removed f k)"
    and "parsePendingLink other e = Some l" "pending_code l \<notin> fl_foreign f"
    and "\<And>k' e' l'. valid_shard k' \<Longrightarrow> e' \<in> set (fl_accepted f k') \<Longrightarrow> parsePendingLink other e' = Some l' \<Longrightarrow>
           pending_code l' = pending_code l \<Longrightarrow> l' = l"
  shows "stored E (fl_db f) l"
proof -
  note ok = reachable_ok [OF assms(1)]
  have "pending_code l \<in> codes_in E (fl_db f)"
    using fleet_okD(3) [OF ok] assms(2-4) by (auto simp: ledger_ok_def settled_def)
  then obtain k' e' l' where l': "valid_shard k'" "e' \<in> set (fl_accepted f k')" "parsePendingLink other e' = Some l'"
    "pending_code l' = pending_code l" "stored E (fl_db f) l'"
    using fleet_okD(4) [OF ok] assms(5) unfolding rows_ok_def by blast
  with assms(6) [OF l'(1-4)] show ?thesis by simp
qed

lemma own_rows_only:
  assumes "sync_step Q (insertPendingBatch E n1 n2 id) opts other n now (s, p) t = ((s', p'), t')"
  shows "codes_in E p' - codes_in E p - own_codes other t = {}"
proof -
  have "codes_in E p' \<subseteq> codes_in E p \<union> own_codes other t"
  proof (cases "p' = p")
    case False
    then obtain i raw where raw: "task_phase t = Inserting i raw"
      "p' = fst (insertPendingBatch E n1 n2 id (fst (classify other now raw)) p)"
      using step_db [OF assms] by blast
    then have "own_codes other t = pending_code ` set (fst (classify other now raw))"
      by (simp add: own_codes_def link_of_def classify_parts(1))
    then show ?thesis unfolding raw(2) using insertPendingBatch_codes [OF classify_rows_ok] by simp
  qed simp
  then show ?thesis by blast
qed

text \<open>A machine run to its end without interruption is one behaviour of the fleet.\<close>

lemma run_reachable:
  assumes "sync_fleet_reachable Q inv ent own E opts other f" "i < length (fl_tasks f)"
    and "run_task Q opts other (replicate m (NetOk, now, healthy_sink E)) (fl_queue f, fl_db f) (fl_tasks f ! i) = ((s', p'), t')"
  shows "\<exists>g. sync_fleet_reachable Q inv ent own E opts other g \<and> fl_queue g = s' \<and> fl_db g = p' \<and>
     fl_tasks g = (fl_tasks f)[i := t'] \<and> fl_accepted g = fl_accepted f \<and> fl_foreign g = fl_foreign f \<and>
     fl_tokens g = fl_tokens f \<and> rows_kept E (fl_db f) p'"
  using assms
proof (induction m arbitrary: f)
  case 0
  then show ?case by auto
next
  case (Suc m)
  let ?t = "fl_tasks f ! i"
  obtain s1 p1 t1 where st: "sync_step Q (insertPendingBatch E NetOk NetOk id) opts other NetOk now (fl_queue f, fl_db f) ?t =
      ((s1, p1), t1)" by (metis prod.exhaust)
  define g where "g = f\<lparr>fl_queue := s1, fl_db := p1, fl_tasks := (fl_tasks f)[i := t1],
      fl_removed := (\<lambda>k. fl_removed f k @ take (length (ent (fl_queue f) k) - length (ent s1 k)) (ent (fl_queue f) k)),
      fl_foreign := fl_foreign f \<union> (codes_in E p1 - codes_in E (fl_db f) - own_codes other ?t)\<rparr>"
  have "codes_in E p1 - codes_in E (fl_db f) - own_codes other ?t = {}" by (rule own_rows_only [OF st])
  then have g_foreign: "fl_foreign g = fl_foreign f" unfolding g_def by auto
  have "sync_fleet_step Q inv ent own E opts other f g"
    unfolding g_def by (rule sync_fleet_step.work [OF Suc.prems(2) refl _ st]) simp
  with Suc.prems(1) have "sync_fleet_reachable Q inv ent own E opts other g" by (rule sync_fleet_reachable.step)
  moreover have "run_task Q opts other (replicate m (NetOk, now, healthy_sink E)) (fl_queue g, fl_db g) (fl_tasks g ! i) =
      ((s', p'), t')"
    using Suc.prems(2,3) st by (simp add: run_task_Cons healthy_sink_def g_def)
  moreover have "rows_kept E (fl_db f) p1" by (rule step_rows(1) [OF st]) simp
  moreover have "fl_db g = p1" "fl_tokens g = fl_tokens f" by (simp_all add: g_def)
  ultimately show ?case using Suc.IH [of g] Suc.prems(2) g_foreign rows_kept_trans [of E "fl_db f" p1 p']
    by (auto simp: g_def)
qed

text \<open>A whole tick without interruption is one, too.\<close>

lemma tick_reachable:
  "sync_fleet_reachable Q inv ent own E opts other f \<Longrightarrow> distinct shards \<Longrightarrow>
   \<forall>k \<in> set shards. valid_shard k \<and> tok k \<notin> fl_tokens f \<Longrightarrow> inj_on tok (set shards) \<Longrightarrow>
   processShards Q opts other (healthy_plan now tok shards) (fl_queue f, fl_db f) = ((s', p'), res, failed) \<Longrightarrow>
   \<exists>g. sync_fleet_reachable Q inv ent own E opts other g \<and> fl_queue g = s' \<and> fl_db g = p' \<and>
     fl_accepted g = fl_accepted f \<and> rows_kept E (fl_db f) p'"
proof (induction shards arbitrary: f res failed)
  case Nil
  then show ?case by auto
next
  case (Cons k ks)
  obtain s1 p1 t where 1: "syncShard Q opts other (healthy now (4 * nat (opt_maxBatchesPerShard opts) + 1)) (tok k) k
      (fl_queue f, fl_db f) = ((s1, p1), t)" by (metis prod.exhaust)
  obtain res2 failed2 where 2: "processShards Q opts other (healthy_plan now tok ks) (s1, p1) = ((s', p'), res2, failed2)"
    using Cons.prems(5) 1 by (auto split: prod.splits if_splits)
  define f1 where "f1 = f\<lparr>fl_tasks := fl_tasks f @ [start_task k (tok k)], fl_tokens := insert (tok k) (fl_tokens f)\<rparr>"
  have "sync_fleet_step Q inv ent own E opts other f f1"
    unfolding f1_def using Cons.prems(3) by (intro sync_fleet_step.start) auto
  with Cons.prems(1) have r1: "sync_fleet_reachable Q inv ent own E opts other f1" by (rule sync_fleet_reachable.step)
  have run: "run_task Q opts other (healthy now (4 * nat (opt_maxBatchesPerShard opts) + 1)) (fl_queue f1, fl_db f1)
      (fl_tasks f1 ! length (fl_tasks f)) = ((s1, p1), t)"
  proof -
    have "fl_queue f1 = fl_queue f" "fl_db f1 = fl_db f" "fl_tasks f1 ! length (fl_tasks f) = start_task k (tok k)"
      by (simp_all add: f1_def)
    with 1 show ?thesis unfolding syncShard_def by simp
  qed
  obtain g where g: "sync_fleet_reachable Q inv ent own E opts other g" "fl_queue g = s1" "fl_db g = p1"
    "fl_accepted g = fl_accepted f1" "fl_tokens g = fl_tokens f1" "rows_kept E (fl_db f1) p1"
    using run_reachable [OF r1 _ run] by (auto simp: f1_def)
  have "\<forall>j \<in> set ks. valid_shard j \<and> tok j \<notin> fl_tokens g"
    using Cons.prems(2-4) by (auto simp: g(5) f1_def inj_on_def)
  from Cons.IH [OF g(1) _ this, of res2 failed2] 2 Cons.prems(2,4) g(2-4,6) show ?case
    using rows_kept_trans [of E "fl_db f" p1 p'] by (auto simp: f1_def)
qed

lemma batch_in_hand:
  assumes "inv s" "valid_shard k" "own s k = None" "1 \<le> opt_maxBatchesPerShard opts" "ent s k \<noteq> []"
  obtains s' where "run_task Q opts other (replicate 3 (NetOk, now, healthy_sink E)) (s, p) (start_task k tok) =
      ((s', p), at_phase k tok (Inserting 0 (take (nat (opt_batchSize opts)) (ent s k))) emptyResult)"
    and "own s' k = Some tok"
proof -
  obtain s' where a: "healthy_step now (s, p) (at_phase k tok (Acquiring 0) emptyResult) =
      ((s', p), at_phase k tok (Peeking 0) emptyResult)"
    and s': "inv s'" and parts: "\<And>j. valid_shard j \<Longrightarrow> ent s' j = ent s j"
      "\<And>j. valid_shard j \<Longrightarrow> own s' j = (if j = k then Some tok else own s j)"
    using healthy_acquire [OF assms(1-3), of now p tok 0 emptyResult] assms(4) by auto
  have check: "healthy_step now (s, p) (start_task k tok) = ((s, p), at_phase k tok (Acquiring 0) emptyResult)"
    using assms(5) by (simp add: sync_step_def start_task_def await_cases length_ok [OF assms(1,2)])
  have three: "replicate 3 x = [x, x, x]" for x :: "net \<times> int \<times> 'p sink" by (simp add: numeral_eq_Suc)
  show thesis
    using that [of s'] parts [OF assms(2)] assms(5)
    by (simp add: three run_task_Cons check a healthy_peek [OF s' assms(2)])
qed

end

section \<open>The deployment: Redis and PostgreSQL\<close>

locale redis_fleet = redis_server R view + postgres E
  for R :: "'r redis" and view and E :: "'p pg_engine" +
  fixes opts :: sync_options and other :: "string \<Rightarrow> int option"
  assumes batch_pos: "1 \<le> opt_batchSize opts" and lock_pos: "0 < opt_lockTtlMs opts"

sublocale redis_fleet \<subseteq> fleet: sync_fleet "RedisSyncQueue R" "\<lambda>r. typed (view r)"
  "\<lambda>r. entries (view r)" "\<lambda>r. owner (view r)" "\<lambda>r. dead (view r)" E opts other
  by unfold_locales (rule batch_pos, rule lock_pos)

abbreviation redis_fleet_reachable ::
  "'r redis \<Rightarrow> ('r \<Rightarrow> keyspace) \<Rightarrow> 'p pg_engine \<Rightarrow> sync_options \<Rightarrow> (string \<Rightarrow> int option) \<Rightarrow>
   ('r, 'p) sync_fleet_state \<Rightarrow> bool" where
  "redis_fleet_reachable R view \<equiv> sync_fleet_reachable (RedisSyncQueue R) (\<lambda>r. typed (view r))
     (\<lambda>r. entries (view r)) (\<lambda>r. owner (view r))"

context redis_fleet
begin

lemma ledger:
  assumes "redis_fleet_reachable R view E opts other f" "valid_shard k"
  shows "fl_accepted f k = fl_removed f k @ entries (view (fl_queue f)) k"
    and "\<forall>e \<in> set (fl_removed f k). settled E other (fl_db f) e"
  using fleet.fleet_okD(3) [OF fleet.reachable_ok [OF assms(1)]] assms(2)
  by (simp_all add: fleet.ledger_ok_def)

lemma reachable_typed: "redis_fleet_reachable R view E opts other f \<Longrightarrow> typed (view (fl_queue f))"
  by (rule fleet.fleet_okD(1) [OF fleet.reachable_ok])

lemmas removed_stored = fleet.stored_if_unique
lemmas queue_length = queue.length_ok

lemma batch_at_head:
  assumes "redis_fleet_reachable R view E opts other f" "t \<in> set (fl_tasks f)"
    and "batch_of (task_phase t) = Some raw" "owner (view (fl_queue f)) (task_shard t) = Some (task_token t)"
  shows "take (length raw) (entries (view (fl_queue f)) (task_shard t)) = raw"
  using fleet.fleet_okD(6) [OF fleet.reachable_ok [OF assms(1)] assms(2)] assms(3,4)
  by (simp add: fleet.task_ok_def)

lemma one_owner:
  assumes "redis_fleet_reachable R view E opts other f" "t \<in> set (fl_tasks f)" "u \<in> set (fl_tasks f)"
    and "task_token t = task_token u"
  shows "t = u"
  using fleet.fleet_okD(2) [OF fleet.reachable_ok [OF assms(1)]] assms(2-4)
  by (auto simp: distinct_map dest: inj_onD)

lemmas run_is_reachable = fleet.run_reachable
lemmas shard_run = fleet.healthy_shard
lemmas tick_run = fleet.healthy_tick
lemmas tick_is_reachable = fleet.tick_reachable
lemmas batch_run = fleet.batch_in_hand
lemmas drain_run = fleet.healthy_drain

end

section \<open>A run on the reference servers\<close>

definition demo_opts :: sync_options where
  "demo_opts = \<lparr>opt_shards = [shardOf ''aB3dE6gH9''], opt_batchSize = 2, opt_cacheTtlSeconds = 60,
     opt_lockTtlMs = 30000, opt_maxBatchesPerShard = 10\<rparr>"

abbreviation no_date :: "string \<Rightarrow> int option" where
  "no_date \<equiv> \<lambda>_. None"

interpretation ref_fleet: redis_fleet ref_redis ref_view ref_pg demo_opts no_date
  by unfold_locales (simp_all add: demo_opts_def)

abbreviation demo_link :: pending_link where
  "demo_link \<equiv> input_pending 5000 generated_input"

abbreviation demo_shard :: int where
  "demo_shard \<equiv> shardOf ''aB3dE6gH9''"

lemma demo_code: "pending_code demo_link = ''aB3dE6gH9''"
  by (simp add: input_pending_def generated_input_def)

definition demo_queue :: ref_redis where
  "demo_queue = fst (enqueue ref_redis 1 demo_link ref_empty)"

lemma demo_view: "ref_view demo_queue = enqueued demo_link (\<lambda>_. None)"
  using ref_server.enqueue_spec(3) [of ref_empty demo_link 1] by (simp add: demo_queue_def entries_def)

lemma no_entries: "entries (\<lambda>_. None) k = []" "owner (\<lambda>_. None) k = None"
  by (simp_all add: entries_def owner_def)

lemma demo_parts:
  "typed (ref_view demo_queue)" "owner (ref_view demo_queue) k = None"
  "valid_shard k \<Longrightarrow> entries (ref_view demo_queue) k = (if k = demo_shard then [serializePendingLink demo_link] else [])"
  by (simp_all add: demo_view enqueued_parts demo_code no_entries)

text \<open>A link is queued, one worker starts.\<close>

definition demo_start :: "(ref_redis, ref_db) sync_fleet_state" where
  "demo_start = \<lparr>fl_queue = demo_queue, fl_db = ref_db_empty, fl_tasks = [start_task demo_shard ''t1''],
     fl_tokens = {''t1''}, fl_accepted = (\<lambda>k. entries (ref_view demo_queue) k), fl_removed = (\<lambda>_. []), fl_foreign = {}\<rparr>"

lemma demo_start_reachable: "redis_fleet_reachable ref_redis ref_view ref_pg demo_opts no_date demo_start"
proof -
  let ?r = "redis_fleet_reachable ref_redis ref_view ref_pg demo_opts no_date"
  define f0 where "f0 = fleet_start (\<lambda>r. entries (ref_view r)) (\<lambda>r. owner (ref_view r)) ref_pg ref_empty ref_db_empty"
  define f1 where "f1 = f0\<lparr>fl_queue := demo_queue, fl_accepted := (\<lambda>k. fl_accepted f0 k @
      drop (length (entries (ref_view (fl_queue f0)) k)) (entries (ref_view demo_queue) k))\<rparr>"
  have "?r f0" unfolding f0_def by (rule sync_fleet_reachable.init) simp
  then have "?r f1" unfolding f1_def
    by (rule sync_fleet_reachable.step)
      (rule sync_fleet_step.traffic, auto simp: demo_parts f0_def fleet_start_def no_entries)
  then have "?r (f1\<lparr>fl_tasks := fl_tasks f1 @ [start_task demo_shard ''t1''],
      fl_tokens := insert ''t1'' (fl_tokens f1)\<rparr>)"
    by (rule sync_fleet_reachable.step)
      (rule sync_fleet_step.start, auto simp: f1_def f0_def fleet_start_def no_entries)
  also have "f1\<lparr>fl_tasks := fl_tasks f1 @ [start_task demo_shard ''t1''],
      fl_tokens := insert ''t1'' (fl_tokens f1)\<rparr> = demo_start"
    by (simp add: demo_start_def f1_def f0_def fleet_start_def no_entries)
  finally show ?thesis .
qed

lemma demo_start_parts:
  "fl_queue demo_start = demo_queue" "fl_db demo_start = ref_db_empty" "fl_foreign demo_start = {}"
  "fl_tasks demo_start = [start_task demo_shard ''t1'']"
  "valid_shard k \<Longrightarrow> fl_accepted demo_start k = (if k = demo_shard then [serializePendingLink demo_link] else [])"
  by (simp_all add: demo_start_def demo_parts)

lemma demo_max: "4 * nat (opt_maxBatchesPerShard demo_opts) + 1 = 41" "1 \<le> opt_maxBatchesPerShard demo_opts"
  by (simp_all add: demo_opts_def)

lemma demo_end:
  obtains f where "redis_fleet_reachable ref_redis ref_view ref_pg demo_opts no_date f"
    "fl_accepted f = fl_accepted demo_start" "fl_foreign f = {}" "entries (ref_view (fl_queue f)) demo_shard = []"
proof -
  have len: "4 * nat (opt_maxBatchesPerShard demo_opts) + 1 \<le> 41" unfolding demo_max(1) by (rule order_refl)
  from ref_fleet.shard_run [where now = 9000 and tok = "''t1''" and p = ref_db_empty,
      OF demo_parts(1) valid_shardOf demo_parts(2) demo_max(2) len, of "''aB3dE6gH9''"]
  obtain s' p' t where run: "syncShard (RedisSyncQueue ref_redis) demo_opts no_date
       (replicate 41 (NetOk, 9000, healthy_sink ref_pg)) ''t1'' demo_shard (demo_queue, ref_db_empty) = ((s', p'), t)"
    and empty: "entries (ref_view s') demo_shard = []"
    by (auto simp: demo_parts(3) demo_opts_def)
  have "run_task (RedisSyncQueue ref_redis) demo_opts no_date (replicate 41 (NetOk, 9000, healthy_sink ref_pg))
      (fl_queue demo_start, fl_db demo_start) (fl_tasks demo_start ! 0) = ((s', p'), t)"
    using run by (simp add: demo_start_parts syncShard_def)
  from ref_fleet.run_is_reachable [OF demo_start_reachable _ this] that empty show thesis
    by (auto simp: demo_start_parts)
qed

text \<open>C1: At least once, in order: in every reachable state of any number of workers, whatever calls
  fail, locks expire or workers stop, the records ever queued for a shard are the records removed so far
  followed by the queue, and a removed record is unreadable or its code is in the
  table.\<close>

theorem sync_at_least_once:
  assumes "redis_fleet R view E opts" "redis_fleet_reachable R view E opts other f" "valid_shard k"
  shows "fl_accepted f k = fl_removed f k @ entries (view (fl_queue f)) k \<and>
     (\<forall>e \<in> set (fl_removed f k). settled E other (fl_db f) e)"
  using redis_fleet.ledger [OF assms] by blast

theorem sync_at_least_once_witness:
  "\<exists>f. redis_fleet_reachable ref_redis ref_view ref_pg demo_opts no_date f \<and>
     fl_removed f demo_shard = [serializePendingLink demo_link] \<and>
     settled ref_pg no_date (fl_db f) (serializePendingLink demo_link)"
proof -
  obtain f where f: "redis_fleet_reachable ref_redis ref_view ref_pg demo_opts no_date f"
    "fl_accepted f = fl_accepted demo_start" "fl_foreign f = {}" "entries (ref_view (fl_queue f)) demo_shard = []"
    by (rule demo_end)
  from sync_at_least_once [OF ref_fleet.redis_fleet_axioms f(1) valid_shardOf, of "''aB3dE6gH9''"] f(2,4)
  have "fl_removed f demo_shard = [serializePendingLink demo_link]"
    "\<forall>e \<in> set (fl_removed f demo_shard). settled ref_pg no_date (fl_db f) e" by (simp_all add: demo_start_parts)
  with f(1) show ?thesis by (intro exI [of _ f]) simp
qed

text \<open>C4: No accepted link is lost: a readable record that has left its queue is stored in
  PostgreSQL with its target and creation instant, provided its code was queued for one link only and no
  other client inserted a row with that code.\<close>

theorem removed_link_is_stored:
  assumes "redis_fleet R view E opts" "redis_fleet_reachable R view E opts other f"
    and "valid_shard k" "e \<in> set (fl_removed f k)" "parsePendingLink other e = Some l"
    and "pending_code l \<notin> fl_foreign f"
    and "\<And>k' e' l'. valid_shard k' \<Longrightarrow> e' \<in> set (fl_accepted f k') \<Longrightarrow> parsePendingLink other e' = Some l' \<Longrightarrow>
           pending_code l' = pending_code l \<Longrightarrow> l' = l"
  shows "stored E (fl_db f) l"
  by (rule redis_fleet.removed_stored [OF assms])

lemma demo_only_link:
  assumes "valid_shard k" "e \<in> set (fl_accepted demo_start k)" "parsePendingLink no_date e = Some l"
  shows "l = demo_link"
  using assms parse_serialize [OF generated_input_ok, of no_date]
  by (auto simp: demo_start_def demo_parts split: if_splits)

theorem removed_link_is_stored_witness:
  "\<exists>f. redis_fleet_reachable ref_redis ref_view ref_pg demo_opts no_date f \<and>
     stored ref_pg (fl_db f) demo_link"
proof -
  obtain f where f: "redis_fleet_reachable ref_redis ref_view ref_pg demo_opts no_date f"
    "fl_accepted f = fl_accepted demo_start" "fl_foreign f = {}" "entries (ref_view (fl_queue f)) demo_shard = []"
    by (rule demo_end)
  have "fl_removed f demo_shard = [serializePendingLink demo_link]"
    using ref_fleet.ledger(1) [OF f(1) valid_shardOf, of "''aB3dE6gH9''"] f(2,4) by (simp add: demo_start_parts)
  then have e: "serializePendingLink demo_link \<in> set (fl_removed f demo_shard)" by simp
  have "stored ref_pg (fl_db f) demo_link"
    by (rule removed_link_is_stored [OF ref_fleet.redis_fleet_axioms f(1) valid_shardOf e
        parse_serialize [OF generated_input_ok]]) (use f(2,3) demo_only_link in auto)
  with f(1) show ?thesis by blast
qed

text \<open>C13: Fencing: in every reachable state a worker that owns the lock of its shard holds a batch that is
  the head of the queue, so the records it removes are the ones it inserted; and no two workers share
  a token.\<close>

theorem lock_owner_holds_head:
  assumes "redis_fleet R view E opts" "redis_fleet_reachable R view E opts other f"
    and "t \<in> set (fl_tasks f)" "owner (view (fl_queue f)) (task_shard t) = Some (task_token t)"
  shows "(\<forall>raw. batch_of (task_phase t) = Some raw \<longrightarrow>
            take (length raw) (entries (view (fl_queue f)) (task_shard t)) = raw) \<and>
         (\<forall>u \<in> set (fl_tasks f). task_token u = task_token t \<longrightarrow> u = t)"
  using redis_fleet.batch_at_head [OF assms(1-3) _ assms(4)] redis_fleet.one_owner [OF assms(1,2) _ assms(3)] by blast

theorem lock_owner_holds_head_witness:
  "\<exists>f t. redis_fleet_reachable ref_redis ref_view ref_pg demo_opts no_date f \<and> t \<in> set (fl_tasks f) \<and>
     task_phase t = Inserting 0 [serializePendingLink demo_link] \<and>
     take 1 (entries (ref_view (fl_queue f)) demo_shard) = [serializePendingLink demo_link]"
proof -
  have e: "entries (ref_view demo_queue) demo_shard \<noteq> []" by (simp add: demo_parts)
  obtain s' where run: "run_task (RedisSyncQueue ref_redis) demo_opts no_date (replicate 3 (NetOk, 9000, healthy_sink ref_pg))
      (demo_queue, ref_db_empty) (start_task demo_shard ''t1'') =
      ((s', ref_db_empty), \<lparr>task_shard = demo_shard, task_token = ''t1'',
         task_phase = Inserting 0 [serializePendingLink demo_link], task_result = emptyResult\<rparr>)" (is "_ = (_, ?t)")
    and own: "owner (ref_view s') demo_shard = Some ''t1''"
    using ref_fleet.batch_run [where now = 9000 and tok = "''t1''" and p = ref_db_empty,
        OF demo_parts(1) valid_shardOf demo_parts(2) demo_max(2) e] by (auto simp: demo_parts demo_opts_def)
  have "run_task (RedisSyncQueue ref_redis) demo_opts no_date (replicate 3 (NetOk, 9000, healthy_sink ref_pg))
      (fl_queue demo_start, fl_db demo_start) (fl_tasks demo_start ! 0) = ((s', ref_db_empty), ?t)"
    using run by (simp add: demo_start_parts)
  from ref_fleet.run_is_reachable [OF demo_start_reachable _ this] obtain f where
    f: "redis_fleet_reachable ref_redis ref_view ref_pg demo_opts no_date f" "fl_queue f = s'" "fl_tasks f = [?t]"
    by (auto simp: demo_start_parts)
  have o: "owner (ref_view (fl_queue f)) (task_shard ?t) = Some (task_token ?t)" using own f(2) by simp
  have t: "?t \<in> set (fl_tasks f)" by (simp add: f(3))
  have ph: "task_phase ?t = Inserting 0 [serializePendingLink demo_link]" by simp
  have "take (length [serializePendingLink demo_link]) (entries (ref_view (fl_queue f)) (task_shard ?t)) =
      [serializePendingLink demo_link]"
    by (rule lock_owner_holds_head [OF ref_fleet.redis_fleet_axioms f(1) t o, THEN conjunct1, rule_format])
      (simp only: ph batch_of.simps)
  then have "take 1 (entries (ref_view (fl_queue f)) demo_shard) = [serializePendingLink demo_link]"
    by (simp only: sync_task.simps list.size One_nat_def plus_nat.simps)
  with f(1) t ph show ?thesis by (intro exI [of _ f] exI [of _ ?t] conjI)
qed



end
