(* ===== verification/Sync_Schedule.thy ===== *)
theory Sync_Schedule
  imports Sync_Worker
begin

text \<open>
  How \<open>LinkSyncWorker\<close> schedules its work: the lanes of \<open>mapShards\<close>, which share one counter and run
  interleaved, and the timer, the single-flight \<open>tick\<close> and \<open>close\<close>.
\<close>

section \<open>The lanes of \<open>mapShards\<close>\<close>

text \<open>
  A lane is between two tasks (\<open>None\<close>) or awaits the task for an index.  \<open>lane_started\<close> records the
  indices in the order in which their tasks were started.  Which value a task settles with is the
  relation \<open>yields\<close>; the tasks of \<open>processShards\<close> never reject, since they catch every error.
\<close>

record 'b lanes =
  lane_next :: nat
  lane_busy :: "nat option list"
  lane_results :: "'b option list"
  lane_started :: "nat list"

definition mapShards :: "int \<Rightarrow> 'a list \<Rightarrow> 'b lanes" where
  "mapShards concurrency shards =
     \<lparr>lane_next = 0, lane_busy = replicate (nat (min concurrency (int (length shards)))) None,
      lane_results = replicate (length shards) None, lane_started = []\<rparr>"

inductive lane_step :: "('a \<Rightarrow> 'b \<Rightarrow> bool) \<Rightarrow> 'a list \<Rightarrow> 'b lanes \<Rightarrow> 'b lanes \<Rightarrow> bool" for yields shards where
  take: "j < length (lane_busy l) \<Longrightarrow> lane_busy l ! j = None \<Longrightarrow> lane_next l < length shards \<Longrightarrow>
     lane_step yields shards l
       (l\<lparr>lane_busy := (lane_busy l)[j := Some (lane_next l)], lane_started := lane_started l @ [lane_next l],
          lane_next := Suc (lane_next l)\<rparr>)"
| settle: "j < length (lane_busy l) \<Longrightarrow> lane_busy l ! j = Some i \<Longrightarrow> yields (shards ! i) r \<Longrightarrow>
     lane_step yields shards l
       (l\<lparr>lane_busy := (lane_busy l)[j := None], lane_results := (lane_results l)[i := Some r]\<rparr>)"

inductive lanes_reachable :: "('a \<Rightarrow> 'b \<Rightarrow> bool) \<Rightarrow> int \<Rightarrow> 'a list \<Rightarrow> 'b lanes \<Rightarrow> bool" for yields concurrency shards where
  init: "lanes_reachable yields concurrency shards (mapShards concurrency shards)"
| step: "lanes_reachable yields concurrency shards l \<Longrightarrow> lane_step yields shards l l' \<Longrightarrow>
     lanes_reachable yields concurrency shards l'"

text \<open>Every index below the counter is with exactly one lane or has its result, the others are untouched.\<close>

definition lanes_inv :: "('a \<Rightarrow> 'b \<Rightarrow> bool) \<Rightarrow> int \<Rightarrow> 'a list \<Rightarrow> 'b lanes \<Rightarrow> bool" where
  "lanes_inv yields concurrency shards l \<longleftrightarrow>
     lane_started l = [0..<lane_next l] \<and> lane_next l \<le> length shards \<and>
     length (lane_busy l) = nat (min concurrency (int (length shards))) \<and>
     length (lane_results l) = length shards \<and>
     (\<forall>i. Some i \<in> set (lane_busy l) \<longrightarrow> i < lane_next l) \<and>
     (\<forall>i < lane_next l. Some i \<in> set (lane_busy l) \<or> lane_results l ! i \<noteq> None) \<and>
     (\<forall>i < length shards. \<forall>r. lane_results l ! i = Some r \<longrightarrow> yields (shards ! i) r)"

lemma set_update_new: "j < length xs \<Longrightarrow> x \<in> set (xs[j := y]) \<Longrightarrow> x \<noteq> y \<Longrightarrow> x \<in> set xs"
  by (meson insertE set_update_subset_insert subsetD)

lemma mem_update_other: "x \<in> set xs \<Longrightarrow> j < length xs \<Longrightarrow> xs ! j \<noteq> x \<Longrightarrow> x \<in> set (xs[j := y])"
  by (metis in_set_conv_nth length_list_update nth_list_update_neq)

lemma lanes_inv_step:
  assumes "lane_step yields shards l l'" "lanes_inv yields concurrency shards l"
  shows "lanes_inv yields concurrency shards l'"
  using assms(1)
proof (cases rule: lane_step.cases)
  case (take j)
  let ?b = "(lane_busy l)[j := Some (lane_next l)]"
  have "i < Suc (lane_next l)" if "Some i \<in> set ?b" for i
    using set_update_new [OF take(2) that] assms(2) by (cases "i = lane_next l") (auto simp: lanes_inv_def)
  moreover have "Some i \<in> set ?b \<or> lane_results l ! i \<noteq> None" if "i < Suc (lane_next l)" for i
  proof (cases "i = lane_next l")
    case True
    then show ?thesis using take(2) set_update_memI by fast
  next
    case False
    with that have "i < lane_next l" by simp
    then have "Some i \<in> set (lane_busy l) \<or> lane_results l ! i \<noteq> None" using assms(2) by (simp add: lanes_inv_def)
    then show ?thesis using mem_update_other [of "Some i" "lane_busy l" j] take(2,3) by auto
  qed
  ultimately show ?thesis using assms(2) take(1,4) by (auto simp: lanes_inv_def)
next
  case (settle j i r)
  let ?b = "(lane_busy l)[j := None]" and ?r = "(lane_results l)[i := Some r]"
  have i: "i < lane_next l" "i < length (lane_results l)"
    using assms(2) settle(2,3) nth_mem [of j "lane_busy l"] by (auto simp: lanes_inv_def)
  have "k < lane_next l" if "Some k \<in> set ?b" for k
    using set_update_new [OF settle(2) that] assms(2) by (simp add: lanes_inv_def)
  moreover have "Some k \<in> set ?b \<or> ?r ! k \<noteq> None" if "k < lane_next l" for k
    using that i assms(2) settle(2,3) mem_update_other [of "Some k" "lane_busy l" j None]
    by (cases "k = i") (auto simp: lanes_inv_def)
  moreover have "yields (shards ! k) x" if "k < length shards" "?r ! k = Some x" for k x
    using that i assms(2) settle(4) by (cases "k = i") (auto simp: lanes_inv_def)
  ultimately show ?thesis using assms(2) settle(1) by (auto simp: lanes_inv_def)
qed

lemma lanes_reachable_inv: "lanes_reachable yields concurrency shards l \<Longrightarrow> lanes_inv yields concurrency shards l"
proof (induction rule: lanes_reachable.induct)
  case init
  show ?case by (simp add: lanes_inv_def mapShards_def)
qed (rule lanes_inv_step)

text \<open>Every step uses up work: a bound on the steps that remain.\<close>

definition lanes_left :: "'a list \<Rightarrow> 'b lanes \<Rightarrow> nat" where
  "lanes_left shards l = 2 * (length shards - lane_next l) + length (filter (\<lambda>b. b \<noteq> None) (lane_busy l))"

lemma filter_update_length:
  "j < length xs \<Longrightarrow> length (filter P (xs[j := y])) + (if P (xs ! j) then 1 else 0) =
     length (filter P xs) + (if P y then 1 else 0)"
proof (induction xs arbitrary: j)
  case (Cons x xs)
  then show ?case by (cases j) auto
qed simp

lemma lanes_left_step: "lane_step yields shards l l' \<Longrightarrow> lanes_left shards l' < lanes_left shards l"
proof (induction rule: lane_step.induct)
  case (take j l)
  with filter_update_length [of j "lane_busy l" "\<lambda>b. b \<noteq> None" "Some (lane_next l)"] show ?case
    by (simp add: lanes_left_def)
next
  case (settle j l i r)
  with filter_update_length [of j "lane_busy l" "\<lambda>b. b \<noteq> None" None] show ?case
    by (simp add: lanes_left_def)
qed



section \<open>Timer, ticks and closing\<close>

record worker =
  wk_timer :: bool
  wk_running :: bool
  wk_closed :: bool

definition worker_start :: "worker \<Rightarrow> worker_error + worker" where
  "worker_start w = (if wk_closed w then Inl WorkerClosed else Inr (w\<lparr>wk_timer := True\<rparr>))"

text \<open>\<open>tick\<close>: the second component says whether a new pass over the shards begins; otherwise the caller
  shares the running one.\<close>

definition worker_tick :: "worker \<Rightarrow> worker \<times> bool" where
  "worker_tick w = (if wk_running w then (w, False) else (w\<lparr>wk_running := True\<rparr>, True))"

definition tick_settled :: "worker \<Rightarrow> worker" where
  "tick_settled w = w\<lparr>wk_running := False\<rparr>"

definition timer_fires :: "worker \<Rightarrow> worker \<times> bool" where
  "timer_fires w = (if wk_running w then (w, False) else worker_tick w)"

text \<open>\<open>close\<close>, up to the settling of the running pass and of the last one, whose errors it ignores.\<close>

definition worker_close :: "worker \<Rightarrow> worker \<times> bool" where
  "worker_close w =
     (if wk_closed w then (w, False)
      else let w1 = w\<lparr>wk_closed := True, wk_timer := False\<rparr>;
               w2 = (if wk_running w1 then tick_settled w1 else w1)
           in worker_tick w2)"

end
