(* ===== verification/Cached_Store.thy ===== *)
theory Cached_Store
  imports Js_Text Write_Behind Postgres_Store Click_Buffer
begin

text \<open>
  \<open>src/src/store/cached-link-store.ts\<close>: a Redis cache before another store, the source, which is an
  argument.  Reads and writes of the cache never fail a request: the sources catch every Redis error.  Each awaited Redis
  call takes how the connection behaves; \<open>dates\<close> and \<open>numbers\<close> read the texts that are neither an ISO
  date nor a plain decimal number.
\<close>

section \<open>Reading a cache entry\<close>

text \<open>A field that is present and not the empty text.\<close>

definition nonempty_field :: "(string, string) js_map \<Rightarrow> string \<Rightarrow> string option" where
  "nonempty_field values f = (case js_get values f of Some (c # cs) \<Rightarrow> Some (c # cs) | _ \<Rightarrow> None)"

text \<open>The link of a non-empty hash, or \<open>None\<close> where \<open>readSafely\<close> finds the entry invalid.\<close>

definition decode_cached ::
  "(string \<Rightarrow> int option) \<Rightarrow> (string \<Rightarrow> js_number) \<Rightarrow> (string, string) js_map \<Rightarrow> link option" where
  "decode_cached dates numbers values =
     (case (nonempty_field values ''code'', nonempty_field values ''targetUrl'',
            nonempty_field values ''createdAt'', js_get values ''clicks'') of
        (Some code, Some url, Some created, Some clicksText) \<Rightarrow>
          (let expires = (case nonempty_field values ''expiresAt'' of
                            None \<Rightarrow> Some None | Some e \<Rightarrow> map_option Some (new_Date dates e))
           in case (new_Date dates created, expires, js_Number numbers clicksText) of
                (Some c, Some e, IntNum k) \<Rightarrow>
                  if \<not> isSafeInteger k \<or> k < 0 then None
                  else Some \<lparr>link_code = code, link_targetUrl = url, link_createdAt = c, link_expiresAt = e,
                             link_clicks = k\<rparr>
              | _ \<Rightarrow> None)
      | _ \<Rightarrow> None)"

definition readSafely ::
  "'r redis \<Rightarrow> (string \<Rightarrow> int option) \<Rightarrow> (string \<Rightarrow> js_number) \<Rightarrow> bool \<Rightarrow> net \<Rightarrow> net \<Rightarrow> int \<Rightarrow> string \<Rightarrow> 'r \<Rightarrow>
   'r \<times> link option" where
  "readSafely R dates numbers isReady n1 n2 now code r =
     (if \<not> isReady then (r, None)
      else case linkKey code of
             Inl _ \<Rightarrow> (r, None)
           | Inr key \<Rightarrow>
               if n1 \<noteq> NetOk then (r, None)
               else let values = redis_hgetall R key r;
                        dropped = fst (remote n2 (\<lambda>r. (redis_del R key r, ())) r)
                    in if values = [] then (r, None)
                       else case decode_cached dates numbers values of
                              None \<Rightarrow> (dropped, None)
                            | Some l \<Rightarrow> if expired now (link_expiresAt l) then (dropped, None) else (r, Some l))"

section \<open>Writing a cache entry\<close>

definition link_hash :: "link \<Rightarrow> (string \<times> string) list" where
  "link_hash l = cache_fields (link_code l) (link_targetUrl l) (toISOString (link_createdAt l))
     (expiry_text (link_expiresAt l)) (int_text (link_clicks l))"

definition cache :: "'r redis \<Rightarrow> int \<Rightarrow> net \<Rightarrow> int \<Rightarrow> string \<Rightarrow> link \<Rightarrow> 'r \<Rightarrow> 'r" where
  "cache R ttlSeconds n now key l r =
     (let write = (\<lambda>ttl. fst (remote n (\<lambda>r. (redis_expire R key ttl (redis_hset R key (link_hash l) r), ())) r))
      in case link_expiresAt l of
           None \<Rightarrow> write ttlSeconds
         | Some e \<Rightarrow>
             (let remaining = (e - now) div 1000
              in if remaining \<le> 0 then fst (remote n (\<lambda>r. (redis_del R key r, ())) r)
                 else write (min ttlSeconds remaining)))"

definition cacheSafely :: "'r redis \<Rightarrow> int \<Rightarrow> bool \<Rightarrow> net \<Rightarrow> int \<Rightarrow> link \<Rightarrow> 'r \<Rightarrow> 'r" where
  "cacheSafely R ttlSeconds isReady n now l r =
     (if \<not> isReady then r
      else case linkKey (link_code l) of Inl _ \<Rightarrow> r | Inr key \<Rightarrow> cache R ttlSeconds n now key l r)"

section \<open>The store\<close>

definition cs_create ::
  "'r redis \<Rightarrow> (create_input \<Rightarrow> 's \<Rightarrow> 's \<times> ('e + link option)) \<Rightarrow> int \<Rightarrow> bool \<Rightarrow> net \<Rightarrow> int \<Rightarrow> create_input \<Rightarrow>
   'r \<times> 's \<Rightarrow> ('r \<times> 's) \<times> ('e + link option)" where
  "cs_create R source ttlSeconds isReady n now input w =
     (let (s', res) = source input (snd w)
      in case res of
           Inr (Some l) \<Rightarrow> ((cacheSafely R ttlSeconds isReady n now l (fst w), s'), res)
         | _ \<Rightarrow> ((fst w, s'), res))"

definition cs_find ::
  "'r redis \<Rightarrow> (string \<Rightarrow> 's \<Rightarrow> 's \<times> ('e + link option)) \<Rightarrow> (string \<Rightarrow> int option) \<Rightarrow> (string \<Rightarrow> js_number) \<Rightarrow> int \<Rightarrow>
   bool \<Rightarrow> net \<Rightarrow> net \<Rightarrow> net \<Rightarrow> int \<Rightarrow> string \<Rightarrow> 'r \<times> 's \<Rightarrow> ('r \<times> 's) \<times> ('e + link option)" where
  "cs_find R source dates numbers ttlSeconds isReady n1 n2 n3 now code w =
     (case readSafely R dates numbers isReady n1 n2 now code (fst w) of
        (r1, Some l) \<Rightarrow> ((r1, snd w), Inr (Some l))
      | (r1, None) \<Rightarrow>
          (let (s', res) = source code (snd w)
           in case res of
                Inr (Some l) \<Rightarrow> ((cacheSafely R ttlSeconds isReady n3 now l r1, s'), res)
              | _ \<Rightarrow> ((r1, s'), res)))"

definition INCREMENT_CACHED_CLICK :: "'r redis \<Rightarrow> string \<Rightarrow> 'r \<Rightarrow> 'r" where
  "INCREMENT_CACHED_CLICK R key r = (if redis_exists R key r then redis_hincrby R key ''clicks'' 1 r else r)"

text \<open>With a click buffer the click is recorded there; it may throw, and then Redis is not asked.\<close>

definition cs_recordClick ::
  "'r redis \<Rightarrow> (string \<Rightarrow> 's \<Rightarrow> 's \<times> ('e + unit)) \<Rightarrow> bool \<Rightarrow> net \<Rightarrow> string \<Rightarrow> 'r \<times> 's \<times> click_buffer option \<Rightarrow>
   ('r \<times> 's \<times> click_buffer option) \<times> ((buffer_error + 'e) + unit)" where
  "cs_recordClick R source isReady n code w =
     (let (r, s, buffer) = w;
          (s', buffer', err) =
            (case buffer of
               Some b \<Rightarrow> (case record_click code b of
                             Inl e \<Rightarrow> (s, buffer, Some (Inl e)) | Inr b' \<Rightarrow> (s, Some b', None))
             | None \<Rightarrow> (case source code s of
                            (s', Inl e) \<Rightarrow> (s', None, Some (Inr e)) | (s', Inr _) \<Rightarrow> (s', None, None)))
      in case err of
           Some e \<Rightarrow> ((r, s', buffer'), Inl e)
         | None \<Rightarrow>
             if \<not> isReady then ((r, s', buffer'), Inr ())
             else (case linkKey code of
                     Inl _ \<Rightarrow> ((r, s', buffer'), Inr ())
                   | Inr key \<Rightarrow> ((fst (remote n (\<lambda>r. (INCREMENT_CACHED_CLICK R key r, ())) r), s', buffer'), Inr ())))"

section \<open>A cache entry reads back as the link\<close>

definition link_ok :: "link \<Rightarrow> bool" where
  "link_ok l \<longleftrightarrow> link_code l \<noteq> [] \<and> link_targetUrl l \<noteq> [] \<and> valid_time (link_createdAt l) \<and>
     (case link_expiresAt l of None \<Rightarrow> True | Some e \<Rightarrow> valid_time e) \<and>
     isSafeInteger (link_clicks l) \<and> 0 \<le> link_clicks l"

lemma nonempty_field_iff: "js_get h f = Some x \<Longrightarrow> nonempty_field h f = (if x = [] then None else Some x)"
  by (cases x) (simp_all add: nonempty_field_def)

lemma link_hash_fields:
  "js_get (set_fields (link_hash l) h) ''code'' = Some (link_code l)"
  "js_get (set_fields (link_hash l) h) ''targetUrl'' = Some (link_targetUrl l)"
  "js_get (set_fields (link_hash l) h) ''createdAt'' = Some (toISOString (link_createdAt l))"
  "js_get (set_fields (link_hash l) h) ''expiresAt'' = Some (expiry_text (link_expiresAt l))"
  "js_get (set_fields (link_hash l) h) ''clicks'' = Some (int_text (link_clicks l))"
  "js_get (set_fields (link_hash l) h) ''pending'' = js_get h ''pending''"
  by (simp_all add: set_fields_def link_hash_def cache_fields_def)

lemma decode_link_hash:
  assumes "link_ok l"
  shows "decode_cached dates numbers (set_fields (link_hash l) h) = Some l"
proof -
  note f = link_hash_fields [of l h]
  have "nonempty_field (set_fields (link_hash l) h) ''code'' = Some (link_code l)"
    "nonempty_field (set_fields (link_hash l) h) ''targetUrl'' = Some (link_targetUrl l)"
    "nonempty_field (set_fields (link_hash l) h) ''createdAt'' = Some (toISOString (link_createdAt l))"
    "nonempty_field (set_fields (link_hash l) h) ''expiresAt'' =
       (case link_expiresAt l of None \<Rightarrow> None | Some e \<Rightarrow> Some (toISOString e))"
    using assms f(1-4) by (auto simp: nonempty_field_iff link_ok_def expiry_text_def split: option.split)
  with assms f(5) show ?thesis
    by (cases "link_expiresAt l") (auto simp: decode_cached_def link_ok_def js_Number_def)
qed

text \<open>The time to live \<open>cache\<close> gives the entry, in seconds; none when the link is about to expire.\<close>

definition cache_seconds :: "int \<Rightarrow> int \<Rightarrow> link \<Rightarrow> int option" where
  "cache_seconds ttlSeconds now l =
     (case link_expiresAt l of
        None \<Rightarrow> Some ttlSeconds
      | Some e \<Rightarrow> if (e - now) div 1000 \<le> 0 then None else Some (min ttlSeconds ((e - now) div 1000)))"

context redis_server
begin

lemma cache_effect:
  assumes "typed (view r)" "0 < ttlSeconds" "n \<noteq> LostRequest"
  shows "view (cacheSafely R ttlSeconds True n now l r) =
     (case cache_seconds ttlSeconds now l of
        None \<Rightarrow> (view r)(link_key (link_code l) := None)
      | Some t \<Rightarrow> (view r)(link_key (link_code l) \<mapsto>
          (RHash (set_fields (link_hash l) (link_fields (view r) (link_code l))), Some (t * 1000))))"
proof -
  let ?k = "link_key (link_code l)"
  have ne: "link_hash l \<noteq> []" "set_fields (link_hash l) h \<noteq> []" for h
    using link_hash_fields(1) [of l h] by (auto simp: link_hash_def cache_fields_def)
  have w: "view (redis_expire R ?k t (redis_hset R ?k (link_hash l) r)) = (view r)(?k \<mapsto>
      (RHash (set_fields (link_hash l) (link_fields (view r) (link_code l))), Some (t * 1000)))" if "0 < t" for t
    using assms(1) that ne
    by (simp add: redis_expire_def pexpire_law hset_law put_hash_def put_ttl_def link_fields_def)
  have pos: "0 < min ttlSeconds ((e - now) div 1000)" if "\<not> (e - now) div 1000 \<le> 0" for e
    using that assms(2) by simp
  show ?thesis using assms(2,3) w pos
    by (cases n; cases "link_expiresAt l")
      (auto simp: cacheSafely_def linkKey_eq cache_def cache_seconds_def Let_def del_law)
qed

lemma typed_cache:
  assumes "typed (view r)" "0 < ttlSeconds"
  shows "typed (view (cacheSafely R ttlSeconds isReady n now l r))"
proof (cases "isReady \<and> n \<noteq> LostRequest")
  case True
  have "typed ((view r)(link_key (link_code l) \<mapsto> (RHash h, t)))" for h t
    by (rule typed_upd [OF assms(1)]) (auto simp: key_kinds_distinct)
  with True cache_effect [OF assms, of n now l] assms(1) show ?thesis by (auto split: option.split)
next
  case False
  then have "cacheSafely R ttlSeconds isReady n now l r = r"
    by (auto simp: cacheSafely_def linkKey_eq cache_def Let_def split: option.split)
  with assms(1) show ?thesis by simp
qed

lemma read_effect:
  assumes "typed (view r)" "readSafely R dates numbers isReady n1 n2 now code r = (r', res)"
  shows "res = Some l \<Longrightarrow> r' = r \<and> decode_cached dates numbers (link_fields (view r) code) = Some l \<and>
           \<not> expired now (link_expiresAt l)"
    and "view r' = view r \<or> view r' = (view r)(link_key code := None)"
  using assms del_law [of "link_key code" r]
  by (cases n2; auto simp: readSafely_def linkKey_eq hgetall_law link_fields_def Let_def split: if_splits option.splits)+

lemma read_cached:
  assumes "typed (view r)" "decode_cached dates numbers (link_fields (view r) code) = Some l"
    and "\<not> expired now (link_expiresAt l)"
  shows "readSafely R dates numbers True NetOk n2 now code r = (r, Some l)"
proof -
  have "link_fields (view r) code \<noteq> []"
    using assms(2) by (auto simp: decode_cached_def nonempty_field_def)
  with assms show ?thesis by (simp add: readSafely_def linkKey_eq hgetall_law link_fields_def Let_def)
qed

end

text \<open>C23: What the cache keeps it gives back, and not too long: after a link was cached, a lookup before
  the link expires finds exactly that link; the entry lives no longer than the configured
  time to live and is gone by the instant the link expires.\<close>

theorem cached_link_roundtrip:
  assumes "redis_server R view" "typed (view r)" "link_ok l" "0 < ttlSeconds" "n \<noteq> LostRequest"
    and "cache_seconds ttlSeconds now l = Some t" "\<not> expired now' (link_expiresAt l)"
  shows "snd (readSafely R dates numbers True NetOk n2 now' (link_code l)
            (cacheSafely R ttlSeconds True n now l r)) = Some l \<and>
     link_ttl (view (cacheSafely R ttlSeconds True n now l r)) (link_code l) = Some (t * 1000) \<and>
     0 < t \<and> t \<le> ttlSeconds \<and> (\<forall>e. link_expiresAt l = Some e \<longrightarrow> now + t * 1000 \<le> e)"
proof -
  let ?r = "cacheSafely R ttlSeconds True n now l r"
  have v: "view ?r = (view r)(link_key (link_code l) \<mapsto>
      (RHash (set_fields (link_hash l) (link_fields (view r) (link_code l))), Some (t * 1000)))"
    using redis_server.cache_effect [OF assms(1,2,4,5), of now l] by (simp add: assms(6))
  have "typed (view ?r)" using redis_server.typed_cache [OF assms(1,2,4)] .
  moreover have "decode_cached dates numbers (link_fields (view ?r) (link_code l)) = Some l"
    using decode_link_hash [OF assms(3)] by (simp add: v link_fields_def)
  ultimately have "snd (readSafely R dates numbers True NetOk n2 now' (link_code l) ?r) = Some l"
    using redis_server.read_cached [OF assms(1)] assms(7) by simp
  moreover have "0 < t \<and> t \<le> ttlSeconds \<and> (\<forall>e. link_expiresAt l = Some e \<longrightarrow> now + t * 1000 \<le> e)"
  proof (cases "link_expiresAt l")
    case None
    then show ?thesis using assms(4,6) by (simp add: cache_seconds_def)
  next
    case (Some e)
    then have t: "0 < (e - now) div 1000" "t = min ttlSeconds ((e - now) div 1000)"
      using assms(6) by (auto simp: cache_seconds_def split: if_splits)
    have "(e - now) div 1000 * 1000 \<le> e - now" using div_bounds(1) [of 1000 "e - now"] by (simp add: mult.commute)
    moreover have "t \<le> (e - now) div 1000" using t(2) by simp
    ultimately show ?thesis using t assms(4) Some by simp
  qed
  ultimately show ?thesis by (simp add: v link_ttl_def)
qed

definition demo_cached :: link where
  "demo_cached = \<lparr>link_code = ''docs'', link_targetUrl = ''https://example.com/'', link_createdAt = 1000,
     link_expiresAt = Some 9999, link_clicks = 3\<rparr>"

theorem cached_link_roundtrip_witness:
  "snd (readSafely ref_redis (\<lambda>_. None) (\<lambda>_. NotInt) True NetOk NetOk 6000 ''docs''
      (cacheSafely ref_redis 300 True NetOk 4000 demo_cached ref_empty)) = Some demo_cached"
proof -
  have l: "link_ok demo_cached" "cache_seconds 300 4000 demo_cached = Some 5" "link_code demo_cached = ''docs''"
    "\<not> expired 6000 (link_expiresAt demo_cached)"
    by (simp_all add: link_ok_def demo_cached_def valid_time_def max_time_def isSafeInteger_def
        MAX_SAFE_INTEGER_def cache_seconds_def)
  from cached_link_roundtrip [OF ref_server.redis_server_axioms _ l(1) _ _ l(2) l(4), of ref_empty NetOk] l(3)
  show ?thesis by simp
qed

section \<open>The cache is transparent\<close>

definition agrees :: "link \<Rightarrow> link_row \<Rightarrow> bool" where
  "agrees l row \<longleftrightarrow> link_code l = row_code row \<and> link_targetUrl l = target_url row \<and>
     link_createdAt l = created_at row \<and> link_expiresAt l = expires_at row"

text \<open>Every readable entry of a code is the link of its row, except while it waits for PostgreSQL.\<close>

definition coherent ::
  "(string \<Rightarrow> int option) \<Rightarrow> (string \<Rightarrow> js_number) \<Rightarrow> 'p pg_engine \<Rightarrow> 'p \<Rightarrow> keyspace \<Rightarrow> bool" where
  "coherent dates numbers E p v \<longleftrightarrow> (\<forall>c l. decode_cached dates numbers (link_fields v c) = Some l \<longrightarrow>
     js_get (link_fields v c) ''pending'' = Some ''1'' \<or> (\<exists>row \<in> set (pg_scan E p). row_code row = c \<and> agrees l row))"

definition rows_readable :: "'p pg_engine \<Rightarrow> 'p \<Rightarrow> bool" where
  "rows_readable E p \<longleftrightarrow> (\<forall>row \<in> set (pg_scan E p). link_ok (mapLink row))"

lemma agrees_mapLink [simp]: "agrees (mapLink row) row"
  by (simp add: agrees_def mapLink_def)

lemma decode_Nil [simp]: "decode_cached dates numbers [] = None"
  by (simp add: decode_cached_def nonempty_field_def)

lemma coherent_del: "coherent dates numbers E p v \<Longrightarrow> coherent dates numbers E p (v(link_key c := None))"
  by (auto simp: coherent_def)

lemma coherent_cached:
  assumes "coherent dates numbers E p v" "row \<in> set (pg_scan E p)" "link_ok (mapLink row)"
  shows "coherent dates numbers E p (v(link_key (row_code row) \<mapsto>
     (RHash (set_fields (link_hash (mapLink row)) h), t)))"
  unfolding coherent_def
proof (intro allI impI)
  fix c l
  assume l: "decode_cached dates numbers (link_fields (v(link_key (row_code row) \<mapsto>
     (RHash (set_fields (link_hash (mapLink row)) h), t))) c) = Some l"
  show "js_get (link_fields (v(link_key (row_code row) \<mapsto> (RHash (set_fields (link_hash (mapLink row)) h), t))) c)
      ''pending'' = Some ''1'' \<or> (\<exists>row \<in> set (pg_scan E p). row_code row = c \<and> agrees l row)"
  proof (cases "c = row_code row")
    case True
    then have "l = mapLink row" using l decode_link_hash [OF assms(3)] by (simp add: link_fields_def)
    with assms(2) True show ?thesis by auto
  next
    case False
    then show ?thesis using l assms(1) by (simp add: coherent_def link_fields_def link_key_inj)
  qed
qed

context redis_server
begin

lemma coherent_cacheSafely:
  assumes "typed (view r)" "0 < ttlSeconds" "coherent dates numbers E p (view r)"
    and "row \<in> set (pg_scan E p)" "link_ok (mapLink row)"
  shows "coherent dates numbers E p (view (cacheSafely R ttlSeconds isReady n now (mapLink row) r))"
proof (cases "isReady \<and> n \<noteq> LostRequest")
  case True
  have c: "link_code (mapLink row) = row_code row" by (simp add: mapLink_def)
  show ?thesis using True cache_effect [OF assms(1,2), of n now "mapLink row"] assms(3)
      coherent_del [OF assms(3)] coherent_cached [OF assms(3-5)]
    by (auto simp: c split: option.split)
next
  case False
  then have "cacheSafely R ttlSeconds isReady n now (mapLink row) r = r"
    by (auto simp: cacheSafely_def linkKey_eq cache_def Let_def split: option.split)
  with assms(3) show ?thesis by simp
qed

end

abbreviation pg_source :: "'p pg_engine \<Rightarrow> net \<Rightarrow> int \<Rightarrow> string \<Rightarrow> 'p \<Rightarrow> 'p \<times> (store_error + link option)" where
  "pg_source E n now code p \<equiv> (p, pg_find E n now code p)"

lemma pg_find_row:
  assumes "postgres E"
  shows "pg_find E NetOk now code p = Inr (Some l) \<longleftrightarrow>
     (\<exists>row \<in> set (pg_scan E p). row_code row = code \<and> \<not> expired now (expires_at row) \<and> l = mapLink row)"
  using postgres.find_iff [OF assms, of now code p l] by (simp add: pg_find_ok_def pg_find_def)



end
