(* ===== verification/Rate_Limiter.thy ===== *)
theory Rate_Limiter
  imports Redis
begin

text \<open>
  \<open>src/src/security/rate-limiter.ts\<close>: a fixed-window counter per identity, kept in Redis by one Lua
  script.  \<open>sha256\<close>, the hexadecimal digest, is a parameter.
\<close>

datatype limit_error = InvalidMaximum | InvalidWindow | LimiterUnavailable | LimiterFailed | InvalidLimitValues

record rate_limit_result =
  allowed :: bool
  limit :: int
  remaining :: int
  retryAfterSeconds :: int

record rate_limiter =
  maximum :: int
  windowSeconds :: int
  limit_prefix :: string

definition RedisRateLimiter :: "int \<Rightarrow> int \<Rightarrow> string \<Rightarrow> limit_error + rate_limiter" where
  "RedisRateLimiter most window pre =
     (if \<not> isSafeInteger most \<or> most < 1 then Inl InvalidMaximum
      else if \<not> isSafeInteger window \<or> window < 1 then Inl InvalidWindow
      else Inr \<lparr>maximum = most, windowSeconds = window, limit_prefix = pre\<rparr>)"

definition limit_key :: "(string \<Rightarrow> string) \<Rightarrow> rate_limiter \<Rightarrow> string \<Rightarrow> string" where
  "limit_key sha256 L identity = limit_prefix L @ '':'' @ sha256 identity"

definition CONSUME_RATE_LIMIT :: "'r redis \<Rightarrow> string \<Rightarrow> int \<Rightarrow> 'r \<Rightarrow> 'r \<times> int \<times> int" where
  "CONSUME_RATE_LIMIT R key window r =
     (let (r1, current) = redis_incr R key r;
          r2 = (if current = 1 then redis_expire R key window r1 else r1);
          ttl = redis_ttl R key r2
      in if ttl < 0 then (redis_expire R key window r2, current, window) else (r2, current, ttl))"

definition consume ::
  "'r redis \<Rightarrow> (string \<Rightarrow> string) \<Rightarrow> rate_limiter \<Rightarrow> bool \<Rightarrow> net \<Rightarrow> string \<Rightarrow> 'r \<Rightarrow> 'r \<times> (limit_error + rate_limit_result)" where
  "consume R sha256 L isReady n identity r =
     (if \<not> isReady then (r, Inl LimiterUnavailable)
      else case remote n (CONSUME_RATE_LIMIT R (limit_key sha256 L identity) (windowSeconds L)) r of
             (r', None) \<Rightarrow> (r', Inl LimiterFailed)
           | (r', Some (count, ttl)) \<Rightarrow>
               if \<not> isSafeInteger count \<or> \<not> isSafeInteger ttl then (r', Inl InvalidLimitValues)
               else (r', Inr \<lparr>allowed = count \<le> maximum L, limit = maximum L,
                              remaining = max 0 (maximum L - count), retryAfterSeconds = max 1 ttl\<rparr>))"

section \<open>The script\<close>

text \<open>A counter of the limiter: absent, or a number from 1 with the rest of its window.\<close>

definition counter :: "int \<Rightarrow> redis_entry option \<Rightarrow> int \<Rightarrow> int \<Rightarrow> bool" where
  "counter window e n t \<longleftrightarrow> e = Some (RString (int_text n), Some t) \<and> 1 \<le> n \<and> 0 \<le> t \<and> t \<le> window * 1000"

lemma div_1000: "0 \<le> t \<Longrightarrow> t \<le> w * 1000 \<Longrightarrow> 0 \<le> (t + 500) div 1000 \<and> (t + 500) div 1000 \<le> (w :: int)"
  by linarith

context redis_server
begin

lemma script_first:
  assumes "view r k = None" "1 \<le> window" "CONSUME_RATE_LIMIT R k window r = (r', c, t)"
  shows "view r' = (view r)(k \<mapsto> (RString (int_text 1), Some (window * 1000))) \<and> c = 1 \<and> t = window"
proof -
  obtain r1 n where r1: "redis_incr R k r = (r1, n)" by fastforce
  have v1: "n = 1" "view r1 = (view r)(k \<mapsto> (RString (int_text 1), None))"
    using incr_law [of r k 0] assms(1) r1 by (simp_all add: number_at_def)
  have v2: "view (redis_expire R k window r1) = (view r)(k \<mapsto> (RString (int_text 1), Some (window * 1000)))"
    using assms(2) v1 by (simp add: redis_expire_def pexpire_law put_ttl_def)
  then have "redis_ttl R k (redis_expire R k window r1) = window"
    using assms(2) by (simp add: redis_ttl_def pttl_law pttl_reply_def)
  with assms(2,3) r1 v1 v2 show ?thesis by (auto simp: CONSUME_RATE_LIMIT_def)
qed

lemma script_next:
  assumes "counter window (view r k) n t" "CONSUME_RATE_LIMIT R k window r = (r', c, s)"
  shows "view r' = (view r)(k \<mapsto> (RString (int_text (n + 1)), Some t)) \<and> c = n + 1 \<and> 0 \<le> s \<and> s \<le> window"
proof -
  have e: "view r k = Some (RString (int_text n), Some t)" "1 \<le> n" "0 \<le> t" "t \<le> window * 1000"
    using assms(1) by (simp_all add: counter_def)
  obtain r1 m where r1: "redis_incr R k r = (r1, m)" by fastforce
  have v1: "m = n + 1" "view r1 = (view r)(k \<mapsto> (RString (int_text (n + 1)), Some t))"
    using incr_law [of r k n] e(1) r1 by (simp_all add: number_at_def)
  have "redis_ttl R k r1 = (t + 500) div 1000"
    using e(3) v1 by (simp add: redis_ttl_def pttl_law pttl_reply_def)
  with assms(2) r1 v1 e div_1000 [OF e(3,4)] show ?thesis
    by (auto simp: CONSUME_RATE_LIMIT_def split: if_splits)
qed

end

section \<open>Requests over time\<close>

text \<open>
  A run of the limiter: requests of any identities over connections that may fail, time that
  passes, and other traffic, which leaves the counters alone.  The run records when requests were allowed.
\<close>

type_synonym 'r limit_run = "'r \<times> int \<times> (int \<times> string) list"

definition admitted :: "limit_error + rate_limit_result \<Rightarrow> bool" where
  "admitted res \<longleftrightarrow> (case res of Inl _ \<Rightarrow> False | Inr a \<Rightarrow> allowed a)"

inductive limiter_step ::
  "'r redis \<Rightarrow> ('r \<Rightarrow> keyspace) \<Rightarrow> (string \<Rightarrow> string) \<Rightarrow> rate_limiter \<Rightarrow> 'r limit_run \<Rightarrow> 'r limit_run \<Rightarrow> bool"
  for R view sha256 L where
  request: "consume R sha256 L isReady n identity r = (r', res) \<Longrightarrow>
     limiter_step R view sha256 L (r, now, log)
       (r', now, log @ (if admitted res then [(now, identity)] else []))"
| wait: "0 \<le> d \<Longrightarrow> view r' = elapse d (view r) \<Longrightarrow> limiter_step R view sha256 L (r, now, log) (r', now + d, log)"
| other: "\<forall>identity. view r' (limit_key sha256 L identity) = view r (limit_key sha256 L identity) \<Longrightarrow>
     limiter_step R view sha256 L (r, now, log) (r', now, log)"

inductive limiter_run ::
  "'r redis \<Rightarrow> ('r \<Rightarrow> keyspace) \<Rightarrow> (string \<Rightarrow> string) \<Rightarrow> rate_limiter \<Rightarrow> 'r limit_run \<Rightarrow> bool"
  for R view sha256 L where
  start: "\<forall>identity. view r (limit_key sha256 L identity) = None \<Longrightarrow> limiter_run R view sha256 L (r, now, [])"
| more: "limiter_run R view sha256 L s \<Longrightarrow> limiter_step R view sha256 L s s' \<Longrightarrow> limiter_run R view sha256 L s'"

section \<open>The lives of a counter\<close>

text \<open>
  A counter lives from the request that created it for one window.  A life is its start and the
  times of the requests it admitted.
\<close>

type_synonym life = "int \<times> int list"

definition lives_ok :: "int \<Rightarrow> int \<Rightarrow> life list \<Rightarrow> bool" where
  "lives_ok W M lives \<longleftrightarrow>
     (\<forall>(s, ts) \<in> set lives. int (length ts) \<le> M \<and> (\<forall>t \<in> set ts. s \<le> t \<and> t \<le> s + W)) \<and>
     sorted_wrt (\<lambda>x y. fst x + W < fst y) lives"

abbreviation within :: "int \<Rightarrow> int \<Rightarrow> int list \<Rightarrow> int list" where
  "within a W \<equiv> filter (\<lambda>t. a \<le> t \<and> t \<le> a + W)"

lemma lives_ok_Cons:
  "lives_ok W M ((s, ts) # rest) \<longleftrightarrow> int (length ts) \<le> M \<and> (\<forall>t \<in> set ts. s \<le> t \<and> t \<le> s + W) \<and>
     (\<forall>y \<in> set rest. s + W < fst y) \<and> lives_ok W M rest"
  by (auto simp: lives_ok_def)

lemma lives_ok_snoc:
  "lives_ok W M (old @ [(s, ts)]) \<longleftrightarrow> lives_ok W M old \<and> int (length ts) \<le> M \<and>
     (\<forall>t \<in> set ts. s \<le> t \<and> t \<le> s + W) \<and> (\<forall>x \<in> set old. fst x + W < s)"
  by (auto simp: lives_ok_def sorted_wrt_append)

lemma no_later_life:
  "lives_ok W M lives \<Longrightarrow> \<forall>x \<in> set lives. a + W < fst x \<Longrightarrow> within a W (concat (map snd lives)) = []"
  by (induction lives) (fastforce simp: lives_ok_Cons filter_empty_conv)+

lemma one_life:
  assumes "lives_ok W M lives" "\<forall>x \<in> set lives. a \<le> fst x" "0 \<le> M"
  shows "int (length (within a W (concat (map snd lives)))) \<le> M"
proof (cases lives)
  case (Cons x rest)
  obtain s ts where x: "x = (s, ts)" by (cases x)
  have ok: "lives_ok W M rest" "int (length ts) \<le> M" "\<forall>y \<in> set rest. s + W < fst y"
    using assms(1) by (simp_all add: Cons x lives_ok_Cons)
  moreover have "a \<le> s" using assms(2) by (simp add: Cons x)
  ultimately have "within a W (concat (map snd rest)) = []" by (intro no_later_life [OF ok(1)]) fastforce
  moreover have "int (length (within a W ts)) \<le> M"
    using ok(2) length_filter_le [of "\<lambda>t. a \<le> t \<and> t \<le> a + W" ts] by linarith
  ultimately show ?thesis by (simp add: Cons x)
qed (use assms in simp)

lemma two_lives:
  assumes "lives_ok W M lives" "0 \<le> M"
  shows "int (length (within a W (concat (map snd lives)))) \<le> 2 * M"
  using assms(1)
proof (induction lives)
  case (Cons x rest)
  obtain s ts where x: "x = (s, ts)" by (cases x)
  have ok: "lives_ok W M rest" "int (length ts) \<le> M" "\<forall>y \<in> set rest. s + W < fst y" "\<forall>t \<in> set ts. t \<le> s + W"
    using Cons.prems by (simp_all add: x lives_ok_Cons)
  show ?case
  proof (cases "within a W ts")
    case Nil
    with Cons.IH [OF ok(1)] show ?thesis by (simp add: x)
  next
    case (Cons t ts')
    then have "t \<in> set (within a W ts)" by simp
    then have "a \<le> s + W" using ok(4) by force
    then have "int (length (within a W (concat (map snd rest)))) \<le> M"
      using ok(3) by (intro one_life [OF ok(1) _ assms(2)]) fastforce
    moreover have "int (length (within a W ts)) \<le> M"
      using ok(2) length_filter_le [of "\<lambda>t. a \<le> t \<and> t \<le> a + W" ts] by linarith
    ultimately show ?thesis by (simp add: x)
  qed
qed (use assms(2) in simp)

section \<open>The limit is enforced\<close>

definition times :: "(string \<Rightarrow> string) \<Rightarrow> rate_limiter \<Rightarrow> string \<Rightarrow> (int \<times> string) list \<Rightarrow> int list" where
  "times sha256 L k log = map fst (filter (\<lambda>(t, identity). limit_key sha256 L identity = k) log)"

lemma times_simps [simp]:
  "times sha256 L k [] = []"
  "times sha256 L k (log @ log') = times sha256 L k log @ times sha256 L k log'"
  "times sha256 L k [(t, identity)] = (if limit_key sha256 L identity = k then [t] else [])"
  by (simp_all add: times_def)

text \<open>
  The lives explain what was admitted; the last one is the life of the counter that Redis holds, with
  the rest of its window as time to live, unless every life is over.
\<close>

definition explained :: "int \<Rightarrow> int \<Rightarrow> int \<Rightarrow> redis_entry option \<Rightarrow> int list \<Rightarrow> bool" where
  "explained window M now e ts \<longleftrightarrow> (\<exists>lives. lives_ok (window * 1000) M lives \<and> concat (map snd lives) = ts \<and>
     (case e of
        None \<Rightarrow> \<forall>x \<in> set lives. fst x + window * 1000 < now
      | Some _ \<Rightarrow> \<exists>old s us n. lives = old @ [(s, us)] \<and> int (length us) \<le> n \<and>
          counter window e n (s + window * 1000 - now)))"

lemma explained_wait:
  assumes "explained window M now e ts" "0 \<le> d"
  shows "explained window M (now + d) (elapse d (\<lambda>_. e) k) ts"
proof (cases e)
  case None
  with assms show ?thesis by (fastforce simp: explained_def elapse_def)
next
  case (Some x)
  then obtain old s us n where l: "lives_ok (window * 1000) M (old @ [(s, us)])"
    "concat (map snd (old @ [(s, us)])) = ts" "int (length us) \<le> n" "counter window e n (s + window * 1000 - now)"
    using assms(1) by (auto simp: explained_def)
  then have e: "e = Some (RString (int_text n), Some (s + window * 1000 - now))" "s \<le> now" "1 \<le> n"
    by (simp_all add: counter_def)
  show ?thesis
  proof (cases "s + window * 1000 - now < d")
    case True
    moreover have "fst x + window * 1000 < now + d" if "x \<in> set old" for x
      using l(1) that e(2) assms(2) by (fastforce simp: lives_ok_snoc)
    ultimately show ?thesis using l(1,2) e(1)
      by (auto simp: explained_def elapse_def intro!: exI [of _ "old @ [(s, us)]"])
  next
    case False
    then have "counter window (Some (RString (int_text n), Some (s + window * 1000 - (now + d)))) n
        (s + window * 1000 - (now + d))" using e assms(2) by (simp add: counter_def)
    moreover have "elapse d (\<lambda>_. e) k = Some (RString (int_text n), Some (s + window * 1000 - (now + d)))"
      using False e(1) by (simp add: elapse_def)
    ultimately show ?thesis using l(1-3) unfolding explained_def
      by (intro exI [of _ "old @ [(s, us)]"] conjI) auto
  qed
qed

lemma explained_first:
  assumes "explained window M now None ts" "1 \<le> M" "1 \<le> window"
  shows "explained window M now (Some (RString (int_text 1), Some (window * 1000))) (ts @ (if ok then [now] else []))"
proof -
  obtain lives where l: "lives_ok (window * 1000) M lives" "concat (map snd lives) = ts"
    "\<forall>x \<in> set lives. fst x + window * 1000 < now" using assms(1) by (auto simp: explained_def)
  with assms(2,3) show ?thesis unfolding explained_def
    by (intro exI [of _ "lives @ [(now, if ok then [now] else [])]"] conjI)
      (auto simp: lives_ok_snoc counter_def intro!: exI [of _ 1])
qed

lemma explained_next:
  assumes "explained window M now e ts" "counter window e n t" "ok \<Longrightarrow> n + 1 \<le> M"
  shows "explained window M now (Some (RString (int_text (n + 1)), Some t)) (ts @ (if ok then [now] else []))"
proof -
  have e: "e = Some (RString (int_text n), Some t)" "1 \<le> n" using assms(2) by (simp_all add: counter_def)
  then obtain old s us m where l: "lives_ok (window * 1000) M (old @ [(s, us)])"
    "concat (map snd (old @ [(s, us)])) = ts" "int (length us) \<le> m" "counter window e m (s + window * 1000 - now)"
    using assms(1) by (auto simp: explained_def)
  have "int_text m = int_text n" "t = s + window * 1000 - now" using l(4) e(1) by (simp_all add: counter_def)
  then have m: "m = n" "t = s + window * 1000 - now" by (metis decimal_int_text option.inject)+
  have tm: "0 \<le> t" "t \<le> window * 1000" using assms(2) by (simp_all add: counter_def)
  show ?thesis unfolding explained_def
  proof (intro exI [of _ "old @ [(s, us @ (if ok then [now] else []))]"] conjI)
    show "lives_ok (window * 1000) M (old @ [(s, us @ (if ok then [now] else []))])"
      using l(1,3) m tm assms(3) by (auto simp: lives_ok_snoc)
  qed (use l m e tm in \<open>auto simp: counter_def intro!: exI [of _ "n + 1"]\<close>)
qed

definition live_count :: "int \<Rightarrow> redis_entry option \<Rightarrow> int \<Rightarrow> bool" where
  "live_count window e n \<longleftrightarrow> (e = None \<and> n = 0) \<or> (\<exists>t. counter window e n t)"

context redis_server
begin

lemma consume_effect:
  assumes "1 \<le> windowSeconds L" "live_count (windowSeconds L) (view r (limit_key sha256 L identity)) n"
    and "consume R sha256 L isReady net identity r = (r', res)"
  shows "(r' = r \<and> \<not> admitted res) \<or>
     (view r' = (view r)(limit_key sha256 L identity \<mapsto> (RString (int_text (n + 1)),
        Some (if n = 0 then windowSeconds L * 1000 else the (ttl_at (view r (limit_key sha256 L identity)))))) \<and>
      (admitted res \<longrightarrow> n + 1 \<le> maximum L))"
proof -
  let ?k = "limit_key sha256 L identity"
  obtain r1 c t where s: "CONSUME_RATE_LIMIT R ?k (windowSeconds L) r = (r1, c, t)" by (metis prod.exhaust)
  have v: "view r1 = (view r)(?k \<mapsto> (RString (int_text (n + 1)),
        Some (if n = 0 then windowSeconds L * 1000 else the (ttl_at (view r ?k)))))" "c = n + 1"
    using assms(2) script_first [OF _ assms(1) s] script_next [OF _ s]
    by (auto simp: live_count_def counter_def)
  show ?thesis using assms(3) s v
    by (cases net) (auto simp: consume_def admitted_def split: if_splits)
qed

lemma consume_reply:
  assumes "1 \<le> windowSeconds L" "isSafeInteger (windowSeconds L)" "n < MAX_SAFE_INTEGER"
    and "live_count (windowSeconds L) (view r (limit_key sha256 L identity)) n"
  shows "\<exists>res. snd (consume R sha256 L True NetOk identity r) = Inr res \<and> limit res = maximum L \<and>
     (allowed res \<longleftrightarrow> n < maximum L) \<and> remaining res = max 0 (maximum L - n - 1) \<and>
     1 \<le> retryAfterSeconds res \<and> retryAfterSeconds res \<le> windowSeconds L"
proof -
  let ?k = "limit_key sha256 L identity"
  obtain r1 c t where s: "CONSUME_RATE_LIMIT R ?k (windowSeconds L) r = (r1, c, t)" by (metis prod.exhaust)
  have v: "c = n + 1" "0 \<le> t" "t \<le> windowSeconds L"
    using assms(1,4) script_first [OF _ assms(1) s] script_next [OF _ s] by (auto simp: live_count_def)
  have "0 \<le> n" using assms(4) by (auto simp: live_count_def counter_def)
  then have "isSafeInteger c" "isSafeInteger t" using v assms(2,3) by (auto simp: isSafeInteger_def)
  with v s assms(1) show ?thesis by (auto simp: consume_def)
qed

lemma explained_consume:
  assumes "1 \<le> windowSeconds L" "1 \<le> maximum L" "consume R sha256 L isReady n identity r = (r', res)"
    and "\<forall>identity. explained (windowSeconds L) (maximum L) now (view r (limit_key sha256 L identity))
       (times sha256 L (limit_key sha256 L identity) log)"
  shows "explained (windowSeconds L) (maximum L) now (view r' (limit_key sha256 L i))
     (times sha256 L (limit_key sha256 L i) (log @ (if admitted res then [(now, identity)] else [])))"
proof (cases "limit_key sha256 L i = limit_key sha256 L identity")
  case True
  let ?k = "limit_key sha256 L identity"
  note ex = assms(4) [rule_format, of identity]
  show ?thesis
  proof (cases "view r ?k")
    case None
    then have "live_count (windowSeconds L) (view r ?k) 0" by (simp add: live_count_def)
    from consume_effect [OF assms(1) this assms(3)] show ?thesis
      using explained_first [of "windowSeconds L" "maximum L" now "times sha256 L ?k log" "admitted res"] ex assms(1,2) None True
      by auto
  next
    case (Some e)
    then obtain n' t where c: "counter (windowSeconds L) (view r ?k) n' t" using ex by (auto simp: explained_def)
    then have "live_count (windowSeconds L) (view r ?k) n'" "n' \<noteq> 0" "ttl_at (view r ?k) = Some t"
      by (auto simp: live_count_def counter_def)
    with consume_effect [OF assms(1) _ assms(3), of n'] show ?thesis
      using explained_next [OF ex c, of "admitted res"] ex True by auto
  qed
next
  case False
  let ?k = "limit_key sha256 L identity"
  have "view r' (limit_key sha256 L i) = view r (limit_key sha256 L i)"
  proof -
    obtain n' where "live_count (windowSeconds L) (view r ?k) n'"
      using assms(4) [rule_format, of identity] by (cases "view r ?k") (auto simp: live_count_def explained_def)
    from consume_effect [OF assms(1) this assms(3)] False show ?thesis by auto
  qed
  with False assms(4) show ?thesis by simp
qed

lemma limiter_run_explained:
  assumes "1 \<le> windowSeconds L" "1 \<le> maximum L" "limiter_run R view sha256 L s"
  shows "\<forall>i. explained (windowSeconds L) (maximum L) (fst (snd s)) (view (fst s) (limit_key sha256 L i))
     (times sha256 L (limit_key sha256 L i) (snd (snd s)))"
  using assms(3)
proof (induction rule: limiter_run.induct)
  case (start r now)
  then show ?case by (auto simp: explained_def lives_ok_def intro!: exI [of _ "[]"])
next
  case (more s s')
  from more.hyps(2) show ?case
  proof (cases rule: limiter_step.cases)
    case (request isReady n identity r r' res now log)
    with more.IH explained_consume [OF assms(1,2) request(3)] show ?thesis by simp
  next
    case (wait d r' r now log)
    have "explained (windowSeconds L) (maximum L) (now + d) (elapse d (view r) (limit_key sha256 L i))
        (times sha256 L (limit_key sha256 L i) log)" for i
      using explained_wait [OF more.IH [rule_format, of i] wait(3), of "limit_key sha256 L i"] wait(1)
      by (simp add: elapse_def)
    with wait show ?thesis by simp
  qed (use more.IH in simp)
qed

end

lemma limiter_valid: "RedisRateLimiter most window pre = Inr L \<Longrightarrow>
   maximum L = most \<and> windowSeconds L = window \<and> 1 \<le> most \<and> 1 \<le> window \<and> isSafeInteger window"
  by (auto simp: RedisRateLimiter_def split: if_splits)

lemma length_admitted_le:
  "length (filter (\<lambda>(t, i). i = identity \<and> a \<le> t \<and> t \<le> a + W) log) \<le>
     length (within a W (times sha256 L (limit_key sha256 L identity) log))"
  by (induction log) (auto simp: times_def)

text \<open>C11: The limit holds: whatever requests, failures and delays there were, in no interval of the
  length of the window did one identity have more than twice the maximum of its requests
  admitted; and for a healthy limiter the reply states the count: the request is allowed exactly
  if fewer than the maximum were counted, with a delay to retry between one second and the window.\<close>

theorem rate_limit_enforced:
  assumes "redis_server R view" "RedisRateLimiter most window pre = Inr L"
    and "limiter_run R view sha256 L (r, now, log)"
  shows "int (length (filter (\<lambda>(t, i). i = identity \<and> a \<le> t \<and> t \<le> a + window * 1000) log)) \<le> 2 * most \<and>
     (\<exists>n. live_count window (view r (limit_key sha256 L identity)) n \<and>
       (n < MAX_SAFE_INTEGER \<longrightarrow>
         (\<exists>res. snd (consume R sha256 L True NetOk identity r) = Inr res \<and> limit res = most \<and>
            (allowed res \<longleftrightarrow> n < most) \<and> remaining res = max 0 (most - n - 1) \<and>
            1 \<le> retryAfterSeconds res \<and> retryAfterSeconds res \<le> window)))"
proof -
  let ?k = "limit_key sha256 L identity"
  note L = limiter_valid [OF assms(2)]
  then have ex: "explained window most now (view r ?k) (times sha256 L ?k log)"
    using redis_server.limiter_run_explained [OF assms(1) _ _ assms(3)] by simp
  then obtain lives where "lives_ok (window * 1000) most lives" "concat (map snd lives) = times sha256 L ?k log"
    by (auto simp: explained_def)
  with L two_lives [of "window * 1000" most lives a]
  have "int (length (within a (window * 1000) (times sha256 L ?k log))) \<le> 2 * most" by simp
  with length_admitted_le [of identity a "window * 1000" log sha256 L]
  have "int (length (filter (\<lambda>(t, i). i = identity \<and> a \<le> t \<and> t \<le> a + window * 1000) log)) \<le> 2 * most"
    by linarith
  moreover obtain n where n: "live_count window (view r ?k) n"
    using ex by (cases "view r ?k") (auto simp: live_count_def explained_def)
  ultimately show ?thesis
    using redis_server.consume_reply [OF assms(1), of L n r sha256 identity] L by (intro conjI exI [of _ n]) auto
qed

definition demo_limiter :: rate_limiter where
  "demo_limiter = \<lparr>maximum = 1, windowSeconds = 60, limit_prefix = ''rate''\<rparr>"

theorem rate_limit_enforced_witness:
  "int (length (filter (\<lambda>(t, i). i = ''ip'' \<and> 0 \<le> t \<and> t \<le> 0 + 60 * 1000) [(5 :: int, ''ip'')])) \<le> 2 * 1 \<and>
   (\<exists>res. snd (consume ref_redis id demo_limiter True NetOk ''ip''
      (fst (consume ref_redis id demo_limiter True NetOk ''ip'' ref_empty))) = Inr res \<and> \<not> allowed res)"
proof -
  have L: "RedisRateLimiter 1 60 ''rate'' = Inr demo_limiter"
    by (simp add: RedisRateLimiter_def demo_limiter_def isSafeInteger_def MAX_SAFE_INTEGER_def)
  note valid = limiter_valid [OF L]
  obtain r1 res1 where c1: "consume ref_redis id demo_limiter True NetOk ''ip'' ref_empty = (r1, res1)" by fastforce
  have zero: "live_count 60 (ref_view ref_empty (limit_key id demo_limiter ''ip'')) 0" by (simp add: live_count_def)
  have "admitted res1"
    using ref_server.consume_reply [of demo_limiter 0 ref_empty id "''ip''"] valid zero c1
    by (auto simp: admitted_def MAX_SAFE_INTEGER_def)
  then have v: "ref_view r1 (limit_key id demo_limiter ''ip'') = Some (RString (int_text 1), Some 60000)"
    using ref_server.consume_effect [OF _ _ c1, of 0] valid zero by auto
  have "limiter_run ref_redis ref_view id demo_limiter (ref_empty, 5, [])" by (rule limiter_run.start) simp
  from limiter_run.more [OF this limiter_step.request [OF c1]] \<open>admitted res1\<close>
  have "limiter_run ref_redis ref_view id demo_limiter (r1, 5, [(5, ''ip'')])" by simp
  note enf = rate_limit_enforced [OF ref_server.redis_server_axioms L this, of "''ip''" 0]
  then obtain n where n: "live_count 60 (ref_view r1 (limit_key id demo_limiter ''ip'')) n"
    "n < MAX_SAFE_INTEGER \<Longrightarrow> \<exists>res. snd (consume ref_redis id demo_limiter True NetOk ''ip'' r1) = Inr res \<and> (allowed res \<longleftrightarrow> n < 1)"
    by blast
  have "int_text n = int_text 1" using n(1) v by (auto simp: live_count_def counter_def)
  then have "n = 1" by (metis decimal_int_text option.inject)
  with n(2) enf c1 show ?thesis by (auto simp: MAX_SAFE_INTEGER_def)
qed

end
