(* ===== verification/Api_Keys.thy ===== *)
theory Api_Keys
  imports Js_Text
begin

text \<open>
  \<open>src/src/security/api-key-authenticator.ts\<close>.  The hash, SHA-256, is a parameter; all its digests have one
  length, so \<open>timingSafeEqual\<close> does not throw.
\<close>

datatype auth_error = NoApiKeys | ShortApiKey

definition HashedApiKeyAuthenticator :: "(string \<Rightarrow> byte list) \<Rightarrow> string list \<Rightarrow> auth_error + byte list list" where
  "HashedApiKeyAuthenticator hashApiKey apiKeys =
     (if apiKeys = [] then Inl NoApiKeys
      else if \<exists>apiKey \<in> set apiKeys. length apiKey < 32 then Inl ShortApiKey
      else Inr (map hashApiKey apiKeys))"

text \<open>Every hash is compared, also after a match.\<close>

fun compare_all :: "byte list \<Rightarrow> byte list list \<Rightarrow> bool \<Rightarrow> bool" where
  "compare_all candidateHash [] authenticated = authenticated"
| "compare_all candidateHash (expectedHash # hashes) authenticated =
     compare_all candidateHash hashes (candidateHash = expectedHash \<or> authenticated)"

definition authenticate :: "(string \<Rightarrow> byte list) \<Rightarrow> byte list list \<Rightarrow> js_value \<Rightarrow> bool" where
  "authenticate hashApiKey hashes candidate =
     (case candidate of
        JsString s \<Rightarrow> if length s < 32 \<or> 256 < length s then False else compare_all (hashApiKey s) hashes False
      | _ \<Rightarrow> False)"

lemma compare_all_iff: "compare_all h hashes b \<longleftrightarrow> b \<or> h \<in> set hashes"
  by (induction hashes arbitrary: b) auto

lemma authenticator_keys:
  "HashedApiKeyAuthenticator hashApiKey apiKeys = Inr hashes \<Longrightarrow>
     hashes = map hashApiKey apiKeys \<and> apiKeys \<noteq> [] \<and> (\<forall>k \<in> set apiKeys. 32 \<le> length k)"
  by (auto simp: HashedApiKeyAuthenticator_def split: if_splits)

text \<open>C39: A text is accepted as API key exactly if it is one of the configured keys and at most 256
  characters long, provided that its digest is not that of another configured key; a missing or
  malformed key is never accepted.\<close>

theorem authenticate_iff:
  assumes "HashedApiKeyAuthenticator hashApiKey apiKeys = Inr hashes"
    and "\<And>k. k \<in> set apiKeys \<Longrightarrow> hashApiKey k = hashApiKey s \<Longrightarrow> k = s"
  shows "(authenticate hashApiKey hashes (JsString s) \<longleftrightarrow> s \<in> set apiKeys \<and> length s \<le> 256) \<and>
     \<not> authenticate hashApiKey hashes JsUndefined"
proof -
  note keys = authenticator_keys [OF assms(1)]
  then have "hashApiKey s \<in> set hashes \<longleftrightarrow> s \<in> set apiKeys" using assms(2) by force
  with keys show ?thesis by (auto simp: authenticate_def compare_all_iff)
qed

text \<open>A hash for the witness: the characters as bytes.\<close>

definition plain_hash :: "string \<Rightarrow> byte list" where
  "plain_hash s = map (\<lambda>c. word_of_nat (of_char c)) s"

lemma inj_plain_hash: "plain_hash k = plain_hash s \<Longrightarrow> k = s"
proof -
  have "inj (\<lambda>c. word_of_nat (of_char c) :: byte)"
  proof (rule injI)
    fix a b :: char
    assume "(word_of_nat (of_char a) :: byte) = word_of_nat (of_char b)"
    then have "unat (word_of_nat (of_char a) :: byte) = unat (word_of_nat (of_char b) :: byte)" by simp
    then show "a = b" by (simp add: unat_of_nat)
  qed
  moreover assume "plain_hash k = plain_hash s"
  ultimately show ?thesis by (simp add: plain_hash_def inj_map_eq_map)
qed

theorem authenticate_iff_witness:
  "\<exists>hashes. HashedApiKeyAuthenticator plain_hash [replicate 32 (CHR ''k'')] = Inr hashes \<and>
     authenticate plain_hash hashes (JsString (replicate 32 (CHR ''k''))) \<and>
     \<not> authenticate plain_hash hashes (JsString (replicate 32 (CHR ''j'')))"
proof -
  have ok: "HashedApiKeyAuthenticator plain_hash [replicate 32 (CHR ''k'')] = Inr [plain_hash (replicate 32 (CHR ''k''))]"
    by (simp add: HashedApiKeyAuthenticator_def)
  note auth = authenticate_iff [OF ok inj_plain_hash, THEN conjunct1]
  show ?thesis by (intro exI [of _ "[plain_hash (replicate 32 (CHR ''k''))]"] conjI) (simp_all add: ok auth)
qed

end
