(* ===== verification/Url_Policy.thy ===== *)
theory Url_Policy
  imports Js_Text
begin

text \<open>
  \<open>src/src/security/url-policy.ts\<close>: which destinations a link may have.  The URL parser of the
  platform (\<open>new URL\<close>) and the resolution of host names are parameters; \<open>isIP\<close> of \<open>node:net\<close> is
  defined by the textual forms of addresses it accepts.
\<close>

section \<open>Addresses as text\<close>

text \<open>An octet as \<open>isIP\<close> wants it: no leading zero, at most 255.\<close>

definition ipv4_octet :: "string \<Rightarrow> nat option" where
  "ipv4_octet s =
     (if s = [] \<or> 3 < length s \<or> (hd s = CHR ''0'' \<and> 1 < length s) then None
      else case digits_value 0 s of Some v \<Rightarrow> if v \<le> 255 then Some v else None | None \<Rightarrow> None)"

definition ipv4_octets :: "string \<Rightarrow> nat list option" where
  "ipv4_octets s =
     (let parts = js_split (CHR ''.'') s
      in if length parts \<noteq> 4 \<or> None \<in> set (map ipv4_octet parts) then None
         else Some (map (\<lambda>p. the (ipv4_octet p)) parts))"

definition hex_group :: "string \<Rightarrow> nat option" where
  "hex_group s =
     (if s = [] \<or> 4 < length s \<or> (\<exists>c \<in> set s. hex_value c = None) then None else Some (hex_digits 0 s))"

text \<open>The 16-bit words of groups; where \<open>v4\<close> holds, the last group may be a dotted IPv4 address.\<close>

fun ipv6_words :: "bool \<Rightarrow> string list \<Rightarrow> nat list option" where
  "ipv6_words v4 [] = Some []"
| "ipv6_words v4 [x] =
     (case hex_group x of
        Some w \<Rightarrow> Some [w]
      | None \<Rightarrow>
          (case (v4, ipv4_octets x) of
             (True, Some [a, b, c, d]) \<Rightarrow> Some [a * 256 + b, c * 256 + d] | _ \<Rightarrow> None))"
| "ipv6_words v4 (x # y # ys) =
     (case (hex_group x, ipv6_words v4 (y # ys)) of (Some w, Some ws) \<Rightarrow> Some (w # ws) | _ \<Rightarrow> None)"

definition ipv6_side :: "bool \<Rightarrow> string \<Rightarrow> nat list option" where
  "ipv6_side v4 s = ipv6_words v4 (if s = [] then [] else js_split (CHR '':'') s)"

text \<open>The text before and after the first \<open>::\<close>.\<close>

fun double_colon :: "string \<Rightarrow> (string \<times> string) option" where
  "double_colon (c # d # s) =
     (if c = CHR '':'' \<and> d = CHR '':'' then Some ([], s)
      else map_option (\<lambda>(l, r). (c # l, r)) (double_colon (d # s)))"
| "double_colon _ = None"

definition zone_char :: "char \<Rightarrow> bool" where
  "zone_char c \<longleftrightarrow> (CHR ''A'' \<le> c \<and> c \<le> CHR ''Z'') \<or> (CHR ''a'' \<le> c \<and> c \<le> CHR ''z'') \<or>
     (CHR ''0'' \<le> c \<and> c \<le> CHR ''9'') \<or> c = CHR ''-'' \<or> c = CHR ''.'' \<or> c = CHR '':''"

definition ipv6_body :: "string \<Rightarrow> nat list option" where
  "ipv6_body s =
     (case double_colon s of
        None \<Rightarrow> (case ipv6_side True s of Some ws \<Rightarrow> if length ws = 8 then Some ws else None | None \<Rightarrow> None)
      | Some (l, r) \<Rightarrow>
          (case (ipv6_side False l, ipv6_side True r) of
             (Some a, Some b) \<Rightarrow>
               if length a + length b \<le> 7 then Some (a @ replicate (8 - length a - length b) 0 @ b) else None
           | _ \<Rightarrow> None))"

definition ipv6_address :: "string \<Rightarrow> nat list option" where
  "ipv6_address s =
     (let zone = dropWhile (\<lambda>c. c \<noteq> CHR ''%'') s
      in if zone \<noteq> [] \<and> (tl zone = [] \<or> \<not> list_all zone_char (tl zone)) then None
         else ipv6_body (takeWhile (\<lambda>c. c \<noteq> CHR ''%'') s))"

definition isIP :: "string \<Rightarrow> nat" where
  "isIP s = (if ipv4_octets s \<noteq> None then 4 else if ipv6_address s \<noteq> None then 6 else 0)"

section \<open>Unsafe addresses\<close>

text \<open>A part of \<open>parseIpv4\<close>: \<open>/^\d{1,3}$/\<close> and \<open>Number\<close>; \<open>None\<close> is \<open>NaN\<close>.\<close>

definition loose_octet :: "string \<Rightarrow> nat option" where
  "loose_octet part = (if part = [] \<or> 3 < length part then None else digits_value 0 part)"

definition parseIpv4 :: "string \<Rightarrow> nat list option" where
  "parseIpv4 address =
     (let parts = js_split (CHR ''.'') address
      in if length parts \<noteq> 4 then None
         else let octets = map loose_octet parts
              in if \<exists>octet \<in> set octets. octet = None \<or> 255 < the octet then None else Some (map the octets))"

definition isUnsafeIpv4 :: "string \<Rightarrow> bool" where
  "isUnsafeIpv4 address =
     (case parseIpv4 address of
        Some (first # second # _) \<Rightarrow>
          first = 0 \<or> first = 10 \<or> first = 127 \<or>
          (first = 100 \<and> 64 \<le> second \<and> second \<le> 127) \<or>
          (first = 169 \<and> second = 254) \<or>
          (first = 172 \<and> 16 \<le> second \<and> second \<le> 31) \<or>
          (first = 192 \<and> second = 0) \<or>
          (first = 192 \<and> second = 168) \<or>
          (first = 198 \<and> (second = 18 \<or> second = 19)) \<or>
          224 \<le> first
      | _ \<Rightarrow> True)"

definition strip_brackets :: "string \<Rightarrow> string" where
  "strip_brackets s = strip_last (CHR '']'') (strip_first (CHR ''['') s)"

definition normalizeIpv6 :: "string \<Rightarrow> string" where
  "normalizeIpv6 address = strip_brackets (hd (js_split (CHR ''%'') (toLowerCase address)))"

text \<open>The group of \<open>/^::ffff:(\d{1,3}(?:\.\d{1,3}){3})$/\<close>.\<close>

definition mapped_ipv4 :: "string \<Rightarrow> string option" where
  "mapped_ipv4 s =
     (if startsWith s ''::ffff:'' \<and>
         length (js_split (CHR ''.'') (drop 7 s)) = 4 \<and>
         None \<notin> set (map loose_octet (js_split (CHR ''.'') (drop 7 s)))
      then Some (drop 7 s) else None)"

definition isUnsafeIpv6 :: "string \<Rightarrow> bool" where
  "isUnsafeIpv6 address =
     (let normalized = normalizeIpv6 address;
          firstGroup = hd (js_split (CHR '':'') normalized)
      in if normalized = ''::'' \<or> normalized = ''::1'' then True
         else if startsWith normalized ''fc'' \<or> startsWith normalized ''fd'' then True
         else if firstGroup \<noteq> [] \<and>
                 (case parseInt16 firstGroup of IntNum v \<Rightarrow> 0xfe80 \<le> v \<and> v \<le> 0xfebf | NotInt \<Rightarrow> False) then True
         else case mapped_ipv4 normalized of Some v4 \<Rightarrow> isUnsafeIpv4 v4 | None \<Rightarrow> False)"

definition isUnsafeIpAddress :: "string \<Rightarrow> bool" where
  "isUnsafeIpAddress address =
     (let version = isIP address
      in if version = 4 then isUnsafeIpv4 address
         else if version = 6 then isUnsafeIpv6 address
         else True)"

definition isLocalHostname :: "string \<Rightarrow> bool" where
  "isLocalHostname hostname =
     (let normalized = strip_last (CHR ''.'') (toLowerCase hostname)
      in normalized = ''localhost'' \<or> endsWith normalized ''.localhost'' \<or> endsWith normalized ''.local'')"

section \<open>The policy\<close>

record url =
  url_protocol :: string
  url_username :: string
  url_password :: string
  url_hostname :: string
  url_href :: string

definition bare_hostname :: "url \<Rightarrow> string" where
  "bare_hostname u = strip_last (CHR ''.'') (strip_brackets (toLowerCase (url_hostname u)))"

definition validate ::
  "(string \<Rightarrow> url option) \<Rightarrow> (string \<Rightarrow> string list option) \<Rightarrow> js_value \<Rightarrow> string option" where
  "validate new_URL resolve v =
     (case v of
        JsString s \<Rightarrow>
          if length s = 0 \<or> 2048 < length s then None
          else (case new_URL s of
                  None \<Rightarrow> None
                | Some u \<Rightarrow>
                    if url_protocol u \<noteq> ''http:'' \<and> url_protocol u \<noteq> ''https:'' then None
                    else if url_username u \<noteq> [] \<or> url_password u \<noteq> [] then None
                    else let hostname = bare_hostname u
                         in if hostname = [] \<or> isLocalHostname hostname then None
                            else if isIP hostname \<noteq> 0
                            then (if isUnsafeIpAddress hostname then None else Some (url_href u))
                            else (case resolve hostname of
                                    None \<Rightarrow> None
                                  | Some addresses \<Rightarrow>
                                      if length addresses = 0 \<or> (\<exists>a \<in> set addresses. isUnsafeIpAddress a) then None
                                      else Some (url_href u)))
      | _ \<Rightarrow> None)"

section \<open>Addresses as numbers\<close>

lemma digits_value_le: "digits_value acc s = Some v \<Longrightarrow> acc \<le> v"
proof (induction acc s rule: digits_value.induct)
  case (2 acc c cs)
  then show ?case by (fastforce split: option.splits)
qed simp

lemma ipv4_octet_loose: "ipv4_octet p = Some v \<Longrightarrow> loose_octet p = Some v \<and> v \<le> 255"
  by (auto simp: ipv4_octet_def loose_octet_def split: if_splits option.splits)

lemma ipv4_octets_parse:
  assumes "ipv4_octets s = Some os"
  shows "parseIpv4 s = Some os \<and> length os = 4 \<and> (\<forall>v \<in> set os. v \<le> 255)"
proof -
  let ?p = "js_split (CHR ''.'') s"
  have p: "length ?p = 4" "None \<notin> set (map ipv4_octet ?p)" "os = map (\<lambda>p. the (ipv4_octet p)) ?p"
    using assms by (auto simp: ipv4_octets_def Let_def split: if_splits)
  have "loose_octet x = Some (the (ipv4_octet x)) \<and> the (ipv4_octet x) \<le> 255" if "x \<in> set ?p" for x
  proof -
    have "None \<noteq> ipv4_octet x" using p(2) that by (simp add: image_iff)
    then obtain v where "ipv4_octet x = Some v" by (cases "ipv4_octet x") auto
    with ipv4_octet_loose show ?thesis by simp
  qed
  note octet = this
  have "map the (map loose_octet ?p) = os" using octet p(3) by (simp add: o_def)
  moreover have "\<not> (octet = None \<or> 255 < the octet)" if "octet \<in> set (map loose_octet ?p)" for octet
    using that octet by fastforce
  ultimately have "parseIpv4 s = Some os" using p(1) by (auto simp: parseIpv4_def Let_def)
  then show ?thesis using p(1,3) octet by auto
qed

text \<open>A block of addresses: the first \<open>len\<close> of \<open>bits\<close> bits are those of \<open>base\<close>.\<close>

definition in_block :: "nat \<Rightarrow> nat \<Rightarrow> nat \<times> nat \<Rightarrow> bool" where
  "in_block bits v b \<longleftrightarrow> v div 2 ^ (bits - snd b) = fst b div 2 ^ (bits - snd b)"

fun v4_number :: "nat list \<Rightarrow> nat" where
  "v4_number [a, b, c, d] = ((a * 256 + b) * 256 + c) * 256 + d"
| "v4_number _ = 0"

text \<open>
  This network, the private networks, loopback, carrier-grade NAT, link-local, the protocol
  assignments, benchmarking, and multicast with all that is reserved above it.
\<close>

definition RESERVED_V4 :: "(nat \<times> nat) list" where
  "RESERVED_V4 =
     [(v4_number [0, 0, 0, 0], 8), (v4_number [10, 0, 0, 0], 8), (v4_number [127, 0, 0, 0], 8),
      (v4_number [100, 64, 0, 0], 10), (v4_number [169, 254, 0, 0], 16), (v4_number [172, 16, 0, 0], 12),
      (v4_number [192, 0, 0, 0], 16), (v4_number [192, 168, 0, 0], 16), (v4_number [198, 18, 0, 0], 15),
      (v4_number [224, 0, 0, 0], 3)]"

text \<open>Unique local and link-local addresses, by the first 16 bits.\<close>

definition RESERVED_V6 :: "(nat \<times> nat) list" where
  "RESERVED_V6 = [(0xfc00, 7), (0xfe80, 10)]"

lemma drop_octet: "d \<le> 255 \<Longrightarrow> (x * 256 + d) div (256 * k) = x div (k :: nat)"
  by (simp add: div_mult2_eq)

lemma div_parts:
  fixes a b c d :: nat
  assumes "b \<le> 255" "c \<le> 255" "d \<le> 255"
  shows "(((a * 256 + b) * 256 + c) * 256 + d) div 16777216 = a"
    and "(((a * 256 + b) * 256 + c) * 256 + d) div 65536 = a * 256 + b"
    and "(((a * 256 + b) * 256 + c) * 256 + d) div 4194304 = a * 4 + b div 64"
    and "(((a * 256 + b) * 256 + c) * 256 + d) div 1048576 = a * 16 + b div 16"
    and "(((a * 256 + b) * 256 + c) * 256 + d) div 131072 = a * 128 + b div 2"
    and "(((a * 256 + b) * 256 + c) * 256 + d) div 536870912 = a div 32"
proof -
  define n where "n = ((a * 256 + b) * 256 + c) * 256 + d"
  have n: "n div (65536 * k) = (a * 256 + b) div k" for k
    using drop_octet [OF assms(3), of "(a * 256 + b) * 256 + c" "256 * k"] drop_octet [OF assms(2), of "a * 256 + b" k]
    by (simp add: n_def)
  have "n div 16777216 = a" using n [of 256] assms(1) by simp
  moreover have "n div 65536 = a * 256 + b" using n [of 1] by simp
  moreover have "n div 4194304 = a * 4 + b div 64" using n [of 64] by simp
  moreover have "n div 1048576 = a * 16 + b div 16" using n [of 16] by simp
  moreover have "n div 131072 = a * 128 + b div 2" using n [of 2] by simp
  moreover have "n div 536870912 = a div 32" using n [of 8192] drop_octet [OF assms(1), of a 32] by simp
  ultimately show "(((a * 256 + b) * 256 + c) * 256 + d) div 16777216 = a"
    and "(((a * 256 + b) * 256 + c) * 256 + d) div 65536 = a * 256 + b"
    and "(((a * 256 + b) * 256 + c) * 256 + d) div 4194304 = a * 4 + b div 64"
    and "(((a * 256 + b) * 256 + c) * 256 + d) div 1048576 = a * 16 + b div 16"
    and "(((a * 256 + b) * 256 + c) * 256 + d) div 131072 = a * 128 + b div 2"
    and "(((a * 256 + b) * 256 + c) * 256 + d) div 536870912 = a div 32"
    by (simp_all only: n_def)
qed

lemma digits_eq: "b < k \<Longrightarrow> m < k \<Longrightarrow> a * k + b = n * k + m \<longleftrightarrow> a = n \<and> b = (m :: nat)"
proof
  assume "b < k" "m < k" "a * k + b = n * k + m"
  then have "(a * k + b) div k = (n * k + m) div k" "(a * k + b) mod k = (n * k + m) mod k" by simp_all
  with \<open>b < k\<close> \<open>m < k\<close> show "a = n \<and> b = m" by simp
qed simp

lemma unsafe_v4_blocks:
  assumes "ipv4_octets s = Some os"
  shows "isUnsafeIpv4 s \<longleftrightarrow> (\<exists>b \<in> set RESERVED_V4. in_block 32 (v4_number os) b)"
proof -
  obtain a b c d where os: "os = [a, b, c, d]" "a \<le> 255" "b \<le> 255" "c \<le> 255" "d \<le> 255"
    using ipv4_octets_parse [OF assms] by (auto simp: length_Suc_conv numeral_eq_Suc)
  define n where "n = v4_number os"
  have n: "n div 16777216 = a" "n div 65536 = a * 256 + b" "n div 4194304 = a * 4 + b div 64"
    "n div 1048576 = a * 16 + b div 16" "n div 131072 = a * 128 + b div 2" "n div 536870912 = a div 32"
    unfolding n_def os(1) v4_number.simps using os(3-5) by (rule div_parts)+
  have "b div 64 < 4" "b div 16 < 16" "b div 2 < 128" using os(3) by simp_all
  then have "a * 4 + b div 64 = 401 \<longleftrightarrow> a = 100 \<and> b div 64 = 1"
    "a * 16 + b div 16 = 2753 \<longleftrightarrow> a = 172 \<and> b div 16 = 1"
    "a * 128 + b div 2 = 25353 \<longleftrightarrow> a = 198 \<and> b div 2 = 9"
    using digits_eq [of "b div 64" 4 1 a 100] digits_eq [of "b div 16" 16 1 a 172] digits_eq [of "b div 2" 128 9 a 198]
    by simp_all
  moreover have "b div 64 = 1 \<longleftrightarrow> 64 \<le> b \<and> b \<le> 127" "b div 16 = 1 \<longleftrightarrow> 16 \<le> b \<and> b \<le> 31"
    "b div 2 = 9 \<longleftrightarrow> b = 18 \<or> b = 19" "a div 32 = 7 \<longleftrightarrow> 224 \<le> a" using os(2) by linarith+
  moreover have "a * 256 + b = 43518 \<longleftrightarrow> a = 169 \<and> b = 254" "a * 256 + b = 49152 \<longleftrightarrow> a = 192 \<and> b = 0"
    "a * 256 + b = 49320 \<longleftrightarrow> a = 192 \<and> b = 168"
    using os(3) digits_eq [of b 256 254 a 169] digits_eq [of b 256 0 a 192] digits_eq [of b 256 168 a 192] by simp_all
  ultimately have "(\<exists>b \<in> set RESERVED_V4. in_block 32 n b) \<longleftrightarrow>
      a = 0 \<or> a = 10 \<or> a = 127 \<or> (a = 100 \<and> 64 \<le> b \<and> b \<le> 127) \<or> (a = 169 \<and> b = 254) \<or>
      (a = 172 \<and> 16 \<le> b \<and> b \<le> 31) \<or> (a = 192 \<and> b = 0) \<or> (a = 192 \<and> b = 168) \<or>
      (a = 198 \<and> (b = 18 \<or> b = 19)) \<or> 224 \<le> a"
    by (simp add: RESERVED_V4_def in_block_def n)
  moreover have "parseIpv4 s = Some [a, b, c, d]" using ipv4_octets_parse [OF assms] os(1) by simp
  ultimately show ?thesis unfolding n_def by (simp add: isUnsafeIpv4_def)
qed

section \<open>The first group of an IPv6 address\<close>

lemma of_char_lower:
  "(of_char (lower_char c) :: nat) =
     (let n = of_char c in if (65 \<le> n \<and> n \<le> 90) \<or> (192 \<le> n \<and> n \<le> 222 \<and> n \<noteq> 215) then n + 32 else n)"
  by (simp add: lower_char_def Let_def)

lemma hex_value_code:
  "hex_value c = (let n = of_char c in
     if 48 \<le> n \<and> n \<le> 57 then Some (n - 48) else if 97 \<le> n \<and> n \<le> 102 then Some (n - 87)
     else if 65 \<le> n \<and> n \<le> 70 then Some (n - 55) else None)"
  by (simp add: hex_value_def digit_value_def less_eq_char_def Let_def)

lemma hex_value_lower: "hex_value (lower_char c) = hex_value c"
  by (auto simp: hex_value_code of_char_lower Let_def)

lemma hex_value_less: "hex_value c = Some v \<Longrightarrow> v < 16"
  by (auto simp: hex_value_code Let_def split: if_splits)

lemma lower_hex_char: "hex_value c = Some v \<Longrightarrow> of_char (lower_char c) = (if v < 10 then v + 48 else v + 87)"
  by (auto simp: hex_value_code of_char_lower Let_def split: if_splits)

lemma lower_fixed:
  assumes "of_char d < (65 :: nat) \<or> (90 < (of_char d :: nat) \<and> of_char d < (97 :: nat))"
  shows "lower_char c = d \<longleftrightarrow> c = d"
proof -
  have "lower_char c = d \<longleftrightarrow> (of_char (lower_char c) :: nat) = of_char d"
    by (metis char_of_char)
  also have "\<dots> \<longleftrightarrow> (of_char c :: nat) = of_char d" using assms by (auto simp: of_char_lower Let_def)
  also have "\<dots> \<longleftrightarrow> c = d" by simp
  finally show ?thesis .
qed

lemma lower_marks [simp]:
  "lower_char c = CHR ''['' \<longleftrightarrow> c = CHR ''[''" "lower_char c = CHR '']'' \<longleftrightarrow> c = CHR '']''"
  "lower_char c = CHR '':'' \<longleftrightarrow> c = CHR '':''" "lower_char c = CHR ''%'' \<longleftrightarrow> c = CHR ''%''"
  by (rule lower_fixed, simp)+

lemma hex_digits_less: "hex_digits acc s < (acc + 1) * 16 ^ length s"
proof (induction acc s rule: hex_digits.induct)
  case (2 acc c cs)
  show ?case
  proof (cases "hex_value c")
    case (Some d)
    have "(acc * 16 + d + 1) * 16 ^ length cs \<le> ((acc + 1) * 16) * 16 ^ length cs"
      using hex_value_less [OF Some] by (intro mult_right_mono) simp_all
    with 2 [OF Some] have "hex_digits (acc * 16 + d) cs < ((acc + 1) * 16) * 16 ^ length cs" by (rule less_le_trans)
    with Some show ?thesis by (simp add: algebra_simps)
  next
    case None
    have "(acc + 1) * 1 \<le> (acc + 1) * 16 ^ length (c # cs)" by (intro mult_le_mono2) simp
    with None show ?thesis by simp
  qed
qed simp

lemma hex_digits_lower: "hex_digits acc (map lower_char s) = hex_digits acc s"
  by (induction acc s rule: hex_digits.induct) (simp_all add: hex_value_lower split: option.split)

lemma parseInt16_group:
  assumes "hex_group x = Some w"
  shows "parseInt16 (map lower_char x) = IntNum (int w)"
proof -
  let ?x = "map lower_char x"
  have x: "x \<noteq> []" "\<forall>c \<in> set ?x. hex_value c \<noteq> None" "hex_digits 0 ?x = w"
    using assms by (auto simp: hex_group_def hex_value_lower hex_digits_lower split: if_splits)
  then obtain c cs where c: "?x = c # cs" "hex_value c \<noteq> None" by (cases x) auto
  then have "\<not> js_space c" "c \<noteq> CHR ''-''" "c \<noteq> CHR ''+''"
    by (auto simp: hex_value_code js_space_def Let_def split: if_splits)
  moreover have "\<not> startsWith ?x ''0x''" "\<not> startsWith ?x ''0X''"
    using x(2) by (cases ?x; cases "tl ?x"; auto simp: startsWith_def hex_value_code)+
  ultimately show ?thesis using c x(3) by (simp add: parseInt16_def)
qed

text \<open>A group in \<open>fc00::/7\<close> is written with four digits, of which the first two are \<open>fc\<close> or \<open>fd\<close>.\<close>

lemma unique_local_group:
  assumes "hex_group x = Some w" "0xfc00 \<le> w" "w \<le> 0xfdff"
  shows "take 2 (map lower_char x) = ''fc'' \<or> take 2 (map lower_char x) = ''fd''"
proof -
  have x: "length x \<le> 4" "\<forall>c \<in> set x. hex_value c \<noteq> None" "hex_digits 0 x = w"
    using assms(1) by (auto simp: hex_group_def split: if_splits)
  have "\<not> length x \<le> 3"
  proof
    assume "length x \<le> 3"
    then have "(16 :: nat) ^ length x \<le> 16 ^ 3" by (rule power_increasing) simp
    with hex_digits_less [of 0 x] x(3) assms(2) show False by simp
  qed
  with x(1) have "length x = 4" by simp
  then obtain a b c d where abcd: "x = [a, b, c, d]" by (auto simp: length_Suc_conv numeral_eq_Suc)
  then obtain i j k l where v: "hex_value a = Some i" "hex_value b = Some j" "hex_value c = Some k" "hex_value d = Some l"
    using x(2) by auto
  note less = hex_value_less [OF v(1)] hex_value_less [OF v(2)] hex_value_less [OF v(3)] hex_value_less [OF v(4)]
  have "w = (i * 16 + j) * 256 + (k * 16 + l)" using x(3) abcd v by simp
  then have "w div 256 = i * 16 + j" using less drop_octet [of "k * 16 + l" "i * 16 + j" 1] by simp
  moreover have "252 \<le> w div 256" "w div 256 \<le> 253"
    using div_le_mono [OF assms(2), of 256] div_le_mono [OF assms(3), of 256] by simp_all
  ultimately have "i * 16 + j = 15 * 16 + 12 \<or> i * 16 + j = 15 * 16 + 13" by auto
  then have ij: "i = 15" "j = 12 \<or> j = 13"
    using less digits_eq [of j 16 12 i 15] digits_eq [of j 16 13 i 15] by auto
  then have "of_char (lower_char a) = (of_char (CHR ''f'') :: nat)"
    "of_char (lower_char b) = (of_char (CHR ''c'') :: nat) \<or> of_char (lower_char b) = (of_char (CHR ''d'') :: nat)"
    using lower_hex_char [OF v(1)] lower_hex_char [OF v(2)] by auto
  then have "lower_char a = CHR ''f''" "lower_char b = CHR ''c'' \<or> lower_char b = CHR ''d''"
    by (simp_all only: of_char_eq_iff)
  then show ?thesis by (auto simp: abcd)
qed

lemma set_js_split: "set s \<subseteq> insert d (\<Union> (set ` set (js_split d s)))"
proof (induction s)
  case (Cons c cs)
  obtain x xs where "js_split d cs = x # xs" by (cases "js_split d cs") auto
  with Cons show ?case by auto
qed simp

definition ip_char :: "char \<Rightarrow> bool" where
  "ip_char c \<longleftrightarrow> hex_value c \<noteq> None \<or> c = CHR ''.'' \<or> c = CHR '':''"

lemma digits_value_chars: "digits_value acc s = Some v \<Longrightarrow> c \<in> set s \<Longrightarrow> digit_value c \<noteq> None"
  by (induction acc s rule: digits_value.induct) (auto split: option.splits)

lemma ipv4_chars:
  assumes "ipv4_octets s = Some os" "c \<in> set s"
  shows "ip_char c"
proof (cases "c = CHR ''.''")
  case False
  then obtain p where p: "p \<in> set (js_split (CHR ''.'') s)" "c \<in> set p" using set_js_split [of s "CHR ''.''"] assms(2) by auto
  then have "None \<noteq> ipv4_octet p" using assms(1) by (auto simp: ipv4_octets_def Let_def image_iff split: if_splits)
  then obtain v where "digits_value 0 p = Some v" by (auto simp: ipv4_octet_def split: if_splits option.splits)
  from digits_value_chars [OF this p(2)] have "digit_value c \<noteq> None" .
  then show ?thesis by (auto simp: ip_char_def hex_value_def)
qed (simp add: ip_char_def)

lemma hex_group_chars: "hex_group x = Some w \<Longrightarrow> c \<in> set x \<Longrightarrow> ip_char c"
  by (auto simp: hex_group_def ip_char_def split: if_splits)

lemma ipv6_words_chars: "ipv6_words v4 xs = Some ws \<Longrightarrow> x \<in> set xs \<Longrightarrow> c \<in> set x \<Longrightarrow> ip_char c"
proof (induction v4 xs arbitrary: ws rule: ipv6_words.induct)
  case (2 v4 x)
  then show ?case using hex_group_chars ipv4_chars by (auto split: option.splits bool.splits list.splits)
next
  case (3 v4 x y ys)
  then show ?case using hex_group_chars by (fastforce split: option.splits)
qed simp

lemma ipv6_side_chars:
  assumes "ipv6_side v4 s = Some ws" "c \<in> set s"
  shows "ip_char c"
proof (cases "c = CHR '':''")
  case False
  then obtain p where "p \<in> set (js_split (CHR '':'') s)" "c \<in> set p" using set_js_split [of s "CHR '':''"] assms(2) by auto
  with assms ipv6_words_chars show ?thesis by (auto simp: ipv6_side_def split: if_splits)
qed (simp add: ip_char_def)

lemma double_colon_split: "double_colon s = Some (l, r) \<Longrightarrow> s = l @ CHR '':'' # CHR '':'' # r"
  by (induction s arbitrary: l rule: double_colon.induct) (auto split: if_splits)

lemma ipv6_body_chars: "ipv6_body s = Some g \<Longrightarrow> c \<in> set s \<Longrightarrow> ip_char c"
  using double_colon_split [of s] ipv6_side_chars
  by (fastforce simp: ipv6_body_def ip_char_def split: option.splits if_splits)

text \<open>The first word of an address is the value of the text before the first colon, or zero.\<close>

lemma first_word_side:
  assumes "ipv6_side v4 s = Some (w # ws)" "v4 \<Longrightarrow> length ws = 7"
  shows "hex_group (takeWhile (\<lambda>c. c \<noteq> CHR '':'') s) = Some w"
proof -
  obtain x xs where x: "js_split (CHR '':'') s = x # xs" by (cases "js_split (CHR '':'') s") auto
  then have "x = takeWhile (\<lambda>c. c \<noteq> CHR '':'') s" using js_split_hd [of "CHR '':''" s] by simp
  moreover have "ipv6_words v4 (x # xs) = Some (w # ws)" using assms(1) x by (auto simp: ipv6_side_def split: if_splits)
  then have "hex_group x = Some w"
    using assms(2) by (cases xs) (auto split: option.splits bool.splits list.splits)
  ultimately show ?thesis by simp
qed

lemma first_word:
  assumes "ipv6_body s = Some g"
  shows "g ! 0 = 0 \<or> hex_group (takeWhile (\<lambda>c. c \<noteq> CHR '':'') s) = Some (g ! 0)"
proof (cases "double_colon s")
  case None
  then have "ipv6_side True s = Some g" "length g = 8" using assms by (auto simp: ipv6_body_def split: option.splits if_splits)
  then show ?thesis using first_word_side by (cases g) auto
next
  case (Some lr)
  obtain l r where lr: "lr = (l, r)" by (cases lr)
  then obtain a b where ab: "ipv6_side False l = Some a" "length a + length b \<le> 7"
    "g = a @ replicate (8 - length a - length b) 0 @ b"
    using assms Some by (auto simp: ipv6_body_def split: option.splits if_splits)
  show ?thesis
  proof (cases a)
    case Nil
    with ab(2,3) show ?thesis by (cases "8 - length b") simp_all
  next
    case (Cons w ws)
    have "takeWhile (\<lambda>c. c \<noteq> CHR '':'') s = takeWhile (\<lambda>c. c \<noteq> CHR '':'') l"
      using double_colon_split [of s l r] Some lr by (simp add: takeWhile_tail)
    with Cons ab first_word_side [of False l w ws] show ?thesis by simp
  qed
qed

section \<open>What the policy admits\<close>

lemma strip_brackets_free: "\<forall>c \<in> set s. c \<noteq> CHR ''['' \<and> c \<noteq> CHR '']'' \<Longrightarrow> strip_brackets s = s"
  by (cases s) (auto simp: strip_brackets_def strip_first_def strip_last_def)

lemma normalize_address:
  assumes "ipv6_address s = Some g"
  shows "normalizeIpv6 s = map lower_char (takeWhile (\<lambda>c. c \<noteq> CHR ''%'') s)"
proof -
  let ?b = "takeWhile (\<lambda>c. c \<noteq> CHR ''%'') s"
  have "ipv6_body ?b = Some g" using assms by (auto simp: ipv6_address_def Let_def split: if_splits)
  then have "c \<noteq> CHR ''['' \<and> c \<noteq> CHR '']''" if "c \<in> set ?b" for c
    using ipv6_body_chars [OF _ that] by (auto simp: ip_char_def hex_value_code Let_def)
  then have "strip_brackets (map lower_char ?b) = map lower_char ?b" by (intro strip_brackets_free) auto
  moreover have "hd (js_split (CHR ''%'') (toLowerCase s)) = map lower_char ?b"
    by (simp add: js_split_hd toLowerCase_def takeWhile_map o_def)
  ultimately show ?thesis
    by (simp add: normalizeIpv6_def)
qed

lemma unsafe_v6_blocks:
  assumes "ipv6_address s = Some g" "b \<in> set RESERVED_V6" "in_block 16 (g ! 0) b"
  shows "isUnsafeIpv6 s"
proof -
  let ?b = "takeWhile (\<lambda>c. c \<noteq> CHR ''%'') s" and ?w = "g ! 0"
  let ?x = "takeWhile (\<lambda>c. c \<noteq> CHR '':'') ?b"
  have w: "?w div 512 = 126 \<or> ?w div 64 = 1018" using assms(2,3) by (auto simp: RESERVED_V6_def in_block_def)
  then have "?w \<noteq> 0" by auto
  moreover have "ipv6_body ?b = Some g" using assms by (auto simp: ipv6_address_def Let_def split: if_splits)
  ultimately have x: "hex_group ?x = Some ?w" using first_word [of ?b g] by simp
  have first: "hd (js_split (CHR '':'') (map lower_char ?b)) = map lower_char ?x"
    by (simp add: js_split_hd takeWhile_map o_def)
  from w show ?thesis
  proof
    assume "?w div 512 = 126"
    then have "0xfc00 \<le> ?w" "?w \<le> 0xfdff" by simp_all
    from unique_local_group [OF x this] have "take 2 (map lower_char ?x) \<in> {''fc'', ''fd''}" by auto
    moreover have "take 2 (map lower_char ?b) = take 2 (map lower_char ?x)" if "2 \<le> length ?x"
    proof -
      have "?b = ?x @ dropWhile (\<lambda>c. c \<noteq> CHR '':'') ?b" by simp
      then show ?thesis using that by (metis append_Nil2 diff_is_0_eq length_map map_append take_0 take_append)
    qed
    moreover have "2 \<le> length ?x" if "take 2 (map lower_char ?x) \<in> {''fc'', ''fd''}"
      using that by (cases ?x; cases "tl ?x") auto
    ultimately have "startsWith (map lower_char ?b) ''fc'' \<or> startsWith (map lower_char ?b) ''fd''"
      by (auto simp: startsWith_def numeral_2_eq_2)
    then show ?thesis by (auto simp: isUnsafeIpv6_def normalize_address [OF assms(1)] Let_def)
  next
    assume "?w div 64 = 1018"
    then have "0xfe80 \<le> ?w" "?w \<le> 0xfebf" by simp_all
    moreover have "?x \<noteq> []" using x by (auto simp: hex_group_def)
    ultimately show ?thesis
      by (simp add: isUnsafeIpv6_def normalize_address [OF assms(1)] Let_def first parseInt16_group [OF x])
  qed
qed

text \<open>The address that a text stands for.\<close>

datatype ip = V4 "nat list" | V6 "nat list"

definition read_ip :: "string \<Rightarrow> ip option" where
  "read_ip s = (case ipv4_octets s of Some os \<Rightarrow> Some (V4 os) | None \<Rightarrow> map_option V6 (ipv6_address s))"

fun reserved :: "ip \<Rightarrow> bool" where
  "reserved (V4 os) \<longleftrightarrow> (\<exists>b \<in> set RESERVED_V4. in_block 32 (v4_number os) b)"
| "reserved (V6 g) \<longleftrightarrow> (\<exists>b \<in> set RESERVED_V6. in_block 16 (g ! 0) b)"

lemma safe_address: "\<not> isUnsafeIpAddress s \<Longrightarrow> \<exists>a. read_ip s = Some a \<and> \<not> reserved a"
  using unsafe_v4_blocks unsafe_v6_blocks
  by (fastforce simp: isUnsafeIpAddress_def isIP_def read_ip_def split: if_splits option.split)


definition demo_url :: url where
  "demo_url = \<lparr>url_protocol = ''https:'', url_username = [], url_password = [], url_hostname = ''8.8.4.4'',
     url_href = ''https://8.8.4.4/''\<rparr>"


text \<open>
  An IPv4-mapped address in hexadecimal, the form in which the URL parser prints it, here that of
  127.0.0.1, passes the check, and so does an IPv6 multicast address.
\<close>

lemmas v6_check_eval = isUnsafeIpv6_def normalizeIpv6_def toLowerCase_def lower_char_def strip_brackets_def
  strip_first_def strip_last_def startsWith_def mapped_ipv4_def loose_octet_def digit_value_def less_eq_char_def
  isUnsafeIpv4_def parseIpv4_def

lemma mapped_hex_admitted: "\<not> isUnsafeIpv6 ''::ffff:7f00:1''"
  by (simp add: v6_check_eval)

lemma ipv6_multicast_admitted: "\<not> isUnsafeIpv6 ''ff02::1''"
  by (simp add: v6_check_eval parseInt16_def hex_value_def js_space_def)

end
