(* ===== verification/Metrics.thy ===== *)
theory Metrics
  imports Js_Text Json Complex_Main
begin

text \<open>
  \<open>src/src/metrics.ts\<close>: counters and duration histograms per method, route and status code, merging
  of snapshots, and the Prometheus text.  Durations are rational numbers in place of binary
  floating point, \<open>None\<close> for a value that is not finite.  The mutable series objects are shared
  between the array of a snapshot and a map: the map holds their indices.
\<close>

section \<open>Snapshots\<close>

record request_duration =
  buckets :: "nat list"
  dur_sum :: rat
  dur_count :: nat

record http_series =
  sr_method :: string
  sr_route :: string
  sr_statusCode :: int
  sr_requests :: nat
  sr_duration :: request_duration

record snapshot =
  sn_created :: nat
  sn_redirects :: nat
  sn_misses :: nat
  sn_httpRequests :: "http_series list"
  sn_counters :: "(string, int) js_map option"

definition counter_char :: "char \<Rightarrow> bool" where
  "counter_char c \<longleftrightarrow> (CHR ''a'' \<le> c \<and> c \<le> CHR ''z'') \<or> (CHR ''0'' \<le> c \<and> c \<le> CHR ''9'') \<or> c = CHR ''_''"

definition COUNTER_NAME_PATTERN :: "string \<Rightarrow> bool" where
  "COUNTER_NAME_PATTERN s \<longleftrightarrow>
     (case s of [] \<Rightarrow> False | c # cs \<Rightarrow> CHR ''a'' \<le> c \<and> c \<le> CHR ''z'' \<and> length cs \<le> 63 \<and> list_all counter_char cs)"

definition REQUEST_DURATION_BUCKETS :: "rat list" where
  "REQUEST_DURATION_BUCKETS = [5/1000, 10/1000, 25/1000, 50/1000, 100/1000, 250/1000, 500/1000, 1, 5/2, 5, 10]"

definition emptyRequestDurationSnapshot :: request_duration where
  "emptyRequestDurationSnapshot = \<lparr>buckets = map (\<lambda>_. 0) REQUEST_DURATION_BUCKETS, dur_sum = 0, dur_count = 0\<rparr>"

definition emptyMetricsSnapshot :: snapshot where
  "emptyMetricsSnapshot =
     \<lparr>sn_created = 0, sn_redirects = 0, sn_misses = 0, sn_httpRequests = [], sn_counters = None\<rparr>"

definition seriesKey :: "string \<Rightarrow> string \<Rightarrow> int \<Rightarrow> string" where
  "seriesKey meth route statusCode =
     meth @ CHR 0x00 # route @ CHR 0x00 # int_text statusCode"

definition createHttpSeries :: "string \<Rightarrow> string \<Rightarrow> int \<Rightarrow> http_series" where
  "createHttpSeries meth route statusCode =
     \<lparr>sr_method = meth, sr_route = route, sr_statusCode = statusCode, sr_requests = 0,
      sr_duration = emptyRequestDurationSnapshot\<rparr>"

text \<open>Values do not share state, so a copy is the value itself.\<close>

definition copyMetricsSnapshot :: "snapshot \<Rightarrow> snapshot" where
  "copyMetricsSnapshot s = s"

definition addCounter :: "string \<Rightarrow> js_number \<Rightarrow> snapshot \<Rightarrow> snapshot" where
  "addCounter name v s =
     (case v of
        IntNum n \<Rightarrow>
          if \<not> COUNTER_NAME_PATTERN name \<or> \<not> isSafeInteger n \<or> n \<le> 0 then s
          else (let counters = (case sn_counters s of None \<Rightarrow> [] | Some m \<Rightarrow> m);
                    old = (case js_get counters name of None \<Rightarrow> 0 | Some x \<Rightarrow> x)
                in s\<lparr>sn_counters := Some (js_set counters name (old + n))\<rparr>)
      | NotInt \<Rightarrow> s)"

section \<open>Durations\<close>

text \<open>The element at an index, or 0 where there is none; writing past the end extends with 0.\<close>

definition bucket_at :: "nat list \<Rightarrow> nat \<Rightarrow> nat" where
  "bucket_at bs i = (if i < length bs then bs ! i else 0)"

definition set_bucket :: "nat list \<Rightarrow> nat \<Rightarrow> nat \<Rightarrow> nat list" where
  "set_bucket bs i n = (if i < length bs then bs[i := n] else bs @ replicate (i - length bs) 0 @ [n])"

fun observe_loop :: "rat \<Rightarrow> nat \<Rightarrow> rat list \<Rightarrow> nat list \<Rightarrow> nat list" where
  "observe_loop seconds i [] bs = bs"
| "observe_loop seconds i (upperBound # rest) bs =
     (if seconds \<le> upperBound then set_bucket bs i (bucket_at bs i + 1) else observe_loop seconds (Suc i) rest bs)"

definition observeDuration :: "rat option \<Rightarrow> request_duration \<Rightarrow> request_duration" where
  "observeDuration seconds d =
     (case seconds of
        None \<Rightarrow> d
      | Some s \<Rightarrow>
          if s < 0 then d
          else d\<lparr>dur_sum := dur_sum d + s, dur_count := dur_count d + 1,
                 buckets := observe_loop s 0 REQUEST_DURATION_BUCKETS (buckets d)\<rparr>)"

fun add_buckets :: "nat list \<Rightarrow> nat \<Rightarrow> rat list \<Rightarrow> nat list \<Rightarrow> nat list" where
  "add_buckets source i [] bs = bs"
| "add_buckets source i (b # rest) bs =
     add_buckets source (Suc i) rest (set_bucket bs i (bucket_at bs i + bucket_at source i))"

definition addRequestDuration :: "request_duration \<Rightarrow> request_duration \<Rightarrow> request_duration" where
  "addRequestDuration target source =
     target\<lparr>dur_sum := dur_sum target + dur_sum source, dur_count := dur_count target + dur_count source,
            buckets := add_buckets (buckets source) 0 REQUEST_DURATION_BUCKETS (buckets target)\<rparr>"

section \<open>Merging snapshots\<close>

definition key_of :: "http_series \<Rightarrow> string" where
  "key_of s = seriesKey (sr_method s) (sr_route s) (sr_statusCode s)"

text \<open>The map \<open>targetSeries\<close>: the last series of a key wins.\<close>

fun index_series :: "nat \<Rightarrow> http_series list \<Rightarrow> (string, nat) js_map \<Rightarrow> (string, nat) js_map" where
  "index_series i [] m = m"
| "index_series i (s # ss) m = index_series (Suc i) ss (js_set m (key_of s) i)"

definition find_series ::
  "string \<Rightarrow> http_series \<Rightarrow> http_series list \<times> (string, nat) js_map \<Rightarrow> nat \<times> http_series list \<times> (string, nat) js_map" where
  "find_series key fresh t =
     (case js_get (snd t) key of
        Some i \<Rightarrow> (i, t)
      | None \<Rightarrow> (length (fst t), fst t @ [fresh], js_set (snd t) key (length (fst t))))"

definition merge_series ::
  "http_series \<Rightarrow> http_series list \<times> (string, nat) js_map \<Rightarrow> http_series list \<times> (string, nat) js_map" where
  "merge_series source t =
     (case find_series (key_of source) (createHttpSeries (sr_method source) (sr_route source) (sr_statusCode source)) t of
        (i, ss, m) \<Rightarrow>
          (ss[i := (ss ! i)\<lparr>sr_requests := sr_requests (ss ! i) + sr_requests source,
                            sr_duration := addRequestDuration (sr_duration (ss ! i)) (sr_duration source)\<rparr>], m))"

definition addMetricsSnapshot :: "snapshot \<Rightarrow> snapshot \<Rightarrow> snapshot" where
  "addMetricsSnapshot target source =
     (let t = target\<lparr>sn_created := sn_created target + sn_created source,
                      sn_redirects := sn_redirects target + sn_redirects source,
                      sn_misses := sn_misses target + sn_misses source\<rparr>;
          t' = (case sn_counters source of
                  None \<Rightarrow> t | Some cs \<Rightarrow> fold (\<lambda>(name, n) t. addCounter name (IntNum n) t) cs t);
          (ss, m) = fold merge_series (sn_httpRequests source)
                      (sn_httpRequests t', index_series 0 (sn_httpRequests t') [])
      in t'\<lparr>sn_httpRequests := ss\<rparr>)"

section \<open>The collector of a process\<close>

record metrics =
  mt_snapshot :: snapshot
  mt_series :: "(string, nat) js_map"

definition init_metrics :: metrics where
  "init_metrics = \<lparr>mt_snapshot = emptyMetricsSnapshot, mt_series = []\<rparr>"

definition valid_request :: "string \<Rightarrow> string \<Rightarrow> js_number \<Rightarrow> rat option \<Rightarrow> bool" where
  "valid_request meth route statusCode seconds \<longleftrightarrow>
     length meth \<noteq> 0 \<and> length route \<noteq> 0 \<and>
     (case statusCode of IntNum n \<Rightarrow> isSafeInteger n \<and> 100 \<le> n \<and> n \<le> 599 | NotInt \<Rightarrow> False) \<and>
     (case seconds of Some s \<Rightarrow> 0 \<le> s | None \<Rightarrow> False)"

definition mt_request :: "string \<Rightarrow> string \<Rightarrow> js_number \<Rightarrow> rat option \<Rightarrow> metrics \<Rightarrow> metrics" where
  "mt_request meth route statusCode seconds m =
     (case statusCode of
        NotInt \<Rightarrow> m
      | IntNum status \<Rightarrow>
          if \<not> valid_request meth route statusCode seconds then m
          else (case find_series (seriesKey meth route status) (createHttpSeries meth route status)
                       (sn_httpRequests (mt_snapshot m), mt_series m) of
                  (i, ss, idx) \<Rightarrow>
                    \<lparr>mt_snapshot = (mt_snapshot m)\<lparr>sn_httpRequests :=
                        ss[i := (ss ! i)\<lparr>sr_requests := sr_requests (ss ! i) + 1,
                                         sr_duration := observeDuration seconds (sr_duration (ss ! i))\<rparr>]\<rparr>,
                     mt_series = idx\<rparr>))"

definition mt_created :: "metrics \<Rightarrow> metrics" where
  "mt_created m = m\<lparr>mt_snapshot := (mt_snapshot m)\<lparr>sn_created := sn_created (mt_snapshot m) + 1\<rparr>\<rparr>"

definition mt_redirect :: "metrics \<Rightarrow> metrics" where
  "mt_redirect m = m\<lparr>mt_snapshot := (mt_snapshot m)\<lparr>sn_redirects := sn_redirects (mt_snapshot m) + 1\<rparr>\<rparr>"

definition mt_miss :: "metrics \<Rightarrow> metrics" where
  "mt_miss m = m\<lparr>mt_snapshot := (mt_snapshot m)\<lparr>sn_misses := sn_misses (mt_snapshot m) + 1\<rparr>\<rparr>"

definition mt_increment :: "string \<Rightarrow> js_number \<Rightarrow> metrics \<Rightarrow> metrics" where
  "mt_increment name v m = m\<lparr>mt_snapshot := addCounter name v (mt_snapshot m)\<rparr>"

section \<open>The Prometheus text\<close>

definition replace_char :: "char \<Rightarrow> string \<Rightarrow> string \<Rightarrow> string" where
  "replace_char c r s = concat (map (\<lambda>x. if x = c then r else [x]) s)"

definition escapePrometheusLabel :: "string \<Rightarrow> string" where
  "escapePrometheusLabel s =
     replace_char (CHR 0x22) [CHR 0x5C, CHR 0x22]
       (replace_char (CHR 0x0A) [CHR 0x5C, CHR ''n'']
         (replace_char (CHR 0x5C) [CHR 0x5C, CHR 0x5C] s))"

definition quoted :: "string \<Rightarrow> string" where
  "quoted s = CHR 0x22 # s @ [CHR 0x22]"

definition labelsFor :: "http_series \<Rightarrow> string" where
  "labelsFor s =
     join_with '',''
       [''method='' @ quoted (escapePrometheusLabel (sr_method s)),
        ''route='' @ quoted (escapePrometheusLabel (sr_route s)),
        ''status_code='' @ quoted (int_text (sr_statusCode s))]"

text \<open>\<open>Array.prototype.sort\<close> with a comparison: a stable sort.\<close>

fun insert_by :: "('a \<Rightarrow> 'a \<Rightarrow> int) \<Rightarrow> 'a \<Rightarrow> 'a list \<Rightarrow> 'a list" where
  "insert_by cmp x [] = [x]"
| "insert_by cmp x (y # ys) = (if cmp x y \<le> 0 then x # y # ys else y # insert_by cmp x ys)"

definition js_sort :: "('a \<Rightarrow> 'a \<Rightarrow> int) \<Rightarrow> 'a list \<Rightarrow> 'a list" where
  "js_sort cmp xs = foldr (insert_by cmp) xs []"

definition compare_series :: "(string \<Rightarrow> string \<Rightarrow> int) \<Rightarrow> http_series \<Rightarrow> http_series \<Rightarrow> int" where
  "compare_series localeCompare left right =
     (let meth = localeCompare (sr_method left) (sr_method right);
          route = localeCompare (sr_route left) (sr_route right)
      in if meth \<noteq> 0 then meth else if route \<noteq> 0 then route else sr_statusCode left - sr_statusCode right)"

definition BUCKET_LABELS :: "string list" where
  "BUCKET_LABELS = [''0.005'', ''0.01'', ''0.025'', ''0.05'', ''0.1'', ''0.25'', ''0.5'', ''1'', ''2.5'', ''5'', ''10'']"

fun cumulative_buckets :: "nat list \<Rightarrow> nat \<Rightarrow> nat \<Rightarrow> string list \<Rightarrow> (string \<times> nat) list" where
  "cumulative_buckets bs i cumulative [] = []"
| "cumulative_buckets bs i cumulative (b # rest) =
     (b, cumulative + bucket_at bs i) # cumulative_buckets bs (Suc i) (cumulative + bucket_at bs i) rest"

definition histogram_lines :: "(rat \<Rightarrow> string) \<Rightarrow> http_series \<Rightarrow> string list" where
  "histogram_lines number_text e =
     (let labels = labelsFor e; d = sr_duration e;
          bucket = (\<lambda>le n. ''shortener_http_request_duration_seconds_bucket{'' @ labels @ '',le='' @ quoted le @ ''} '' @ js_String n)
      in map (\<lambda>(b, n). bucket b n) (cumulative_buckets (buckets d) 0 0 BUCKET_LABELS) @
         [bucket ''+Inf'' (dur_count d),
          ''shortener_http_request_duration_seconds_sum{'' @ labels @ ''} '' @ number_text (dur_sum d),
          ''shortener_http_request_duration_seconds_count{'' @ labels @ ''} '' @ js_String (dur_count d)])"

definition render_lines :: "(string \<Rightarrow> string \<Rightarrow> int) \<Rightarrow> (rat \<Rightarrow> string) \<Rightarrow> snapshot \<Rightarrow> string list" where
  "render_lines localeCompare number_text s =
     (let series = js_sort (compare_series localeCompare) (sn_httpRequests s);
          counters = js_sort (\<lambda>l r. localeCompare (fst l) (fst r)) (case sn_counters s of None \<Rightarrow> [] | Some m \<Rightarrow> m)
      in [''# TYPE shortener_http_requests_total counter''] @
         map (\<lambda>e. ''shortener_http_requests_total{'' @ labelsFor e @ ''} '' @ js_String (sr_requests e)) series @
         [''# TYPE shortener_links_created_total counter'',
          ''shortener_links_created_total '' @ js_String (sn_created s),
          ''# TYPE shortener_redirects_total counter'',
          ''shortener_redirects_total '' @ js_String (sn_redirects s),
          ''# TYPE shortener_redirect_misses_total counter'',
          ''shortener_redirect_misses_total '' @ js_String (sn_misses s)] @
         concat (map (\<lambda>(name, n). [''# TYPE shortener_'' @ name @ ''_total counter'',
                                   ''shortener_'' @ name @ ''_total '' @ int_text n]) counters) @
         [''# TYPE shortener_http_request_duration_seconds histogram''] @
         concat (map (histogram_lines number_text) series))"

definition renderMetrics :: "(string \<Rightarrow> string \<Rightarrow> int) \<Rightarrow> (rat \<Rightarrow> string) \<Rightarrow> snapshot \<Rightarrow> string" where
  "renderMetrics localeCompare number_text s = join_with [CHR 0x0A] (render_lines localeCompare number_text s) @ [CHR 0x0A]"

section \<open>Tallies\<close>

text \<open>What a snapshot says about a key: the sum of a measure over the series with that key.\<close>

definition tally :: "(http_series \<Rightarrow> 'a :: cancel_comm_monoid_add) \<Rightarrow> string \<Rightarrow> http_series list \<Rightarrow> 'a" where
  "tally f k ss = sum_list (map f (filter (\<lambda>s. key_of s = k) ss))"

lemma tally_simps [simp]:
  "tally f k [] = 0"
  "tally f k (s # ss) = (if key_of s = k then f s else 0) + tally f k ss"
  "tally f k (ss @ ss') = tally f k ss + tally f k ss'"
  by (simp_all add: tally_def)

lemma tally_update:
  assumes "i < length ss" "key_of x = key_of (ss ! i)" "f x = f (ss ! i) + c"
  shows "tally f k (ss[i := x]) = tally f k ss + (if key_of x = k then c else 0)"
  using assms
proof (induction ss arbitrary: i)
  case (Cons s ss)
  then show ?case by (cases i) (auto simp: ac_simps)
qed simp

text \<open>The map of indices agrees with the keys of the series.\<close>

definition index_ok :: "string list \<Rightarrow> (string, nat) js_map \<Rightarrow> bool" where
  "index_ok ks m \<longleftrightarrow> (\<forall>k i. js_get m k = Some i \<longrightarrow> i < length ks \<and> ks ! i = k) \<and> (\<forall>k \<in> set ks. js_get m k \<noteq> None)"

lemma index_ok_Nil [simp]: "index_ok [] []"
  by (simp add: index_ok_def)

lemma keys_update: "key_of x = key_of (ss ! i) \<Longrightarrow> map key_of (ss[i := x]) = map key_of ss"
  by (metis list_update_id map_update)

lemma index_ok_snoc: "index_ok ks m \<Longrightarrow> index_ok (ks @ [k]) (js_set m k (length ks))"
  by (fastforce simp: index_ok_def nth_append)

lemma index_series_ok:
  "index_ok (map key_of ss) m \<Longrightarrow> index_ok (map key_of (ss @ ss')) (index_series (length ss) ss' m)"
proof (induction ss' arbitrary: ss m)
  case (Cons x ss')
  have "index_ok (map key_of (ss @ [x])) (js_set m (key_of x) (length ss))"
    using index_ok_snoc [OF Cons.prems, of "key_of x"] by simp
  from Cons.IH [OF this] show ?case by simp
qed simp

lemma index_series_init: "index_ok (map key_of ss) (index_series 0 ss [])"
  using index_series_ok [of "[]" "[]" ss] by simp

text \<open>Finding or creating the series of a key and adding to it.\<close>

definition touch ::
  "string \<Rightarrow> http_series \<Rightarrow> (http_series \<Rightarrow> http_series) \<Rightarrow> http_series list \<times> (string, nat) js_map \<Rightarrow>
   http_series list \<times> (string, nat) js_map" where
  "touch key fresh g t = (case find_series key fresh t of (i, ss, m) \<Rightarrow> (ss[i := g (ss ! i)], m))"

lemma found_series:
  assumes "index_ok (map key_of ss) m" "key_of fresh = key" "find_series key fresh (ss, m) = (i, ss', m')"
  shows "i < length ss' \<and> key_of (ss' ! i) = key \<and> index_ok (map key_of ss') m' \<and>
     (ss' = ss \<and> key \<in> key_of ` set ss \<or> ss' = ss @ [fresh] \<and> key \<notin> key_of ` set ss)"
proof (cases "js_get m key")
  case None
  then have r: "i = length ss" "ss' = ss @ [fresh]" "m' = js_set m key (length ss)"
    using assms(3) by (auto simp: find_series_def)
  have "key \<notin> key_of ` set ss" using assms(1) None by (auto simp: index_ok_def)
  moreover have "index_ok (map key_of ss') m'"
    using index_ok_snoc [OF assms(1), of key] assms(2) by (simp add: r)
  ultimately show ?thesis using assms(2) by (simp add: r)
next
  case (Some j)
  then have r: "i = j" "ss' = ss" "m' = m" using assms(3) by (simp_all add: find_series_def)
  have j: "j < length ss" "map key_of ss ! j = key"
    using assms(1) Some unfolding index_ok_def length_map by blast+
  then have "j < length ss" "key_of (ss ! j) = key" by simp_all
  then show ?thesis using assms(1) r nth_mem by (auto simp: image_iff)
qed

lemma touch_correct:
  assumes "index_ok (map key_of ss) m" "key_of fresh = key" "\<And>s. key_of (g s) = key_of s"
  shows "index_ok (map key_of (fst (touch key fresh g (ss, m)))) (snd (touch key fresh g (ss, m)))"
    and "distinct (map key_of ss) \<Longrightarrow> distinct (map key_of (fst (touch key fresh g (ss, m))))"
    and "key_of ` set (fst (touch key fresh g (ss, m))) = insert key (key_of ` set ss)"
    and "f fresh = 0 \<Longrightarrow> (\<And>s. f (g s) = f s + c) \<Longrightarrow>
           tally f k (fst (touch key fresh g (ss, m))) = tally f k ss + (if key = k then c else 0)"
proof -
  obtain i ss' m' where fs: "find_series key fresh (ss, m) = (i, ss', m')" by (metis prod_cases3)
  note ok = found_series [OF assms(1,2) fs]
  let ?g = "ss'[i := g (ss' ! i)]"
  have t: "touch key fresh g (ss, m) = (?g, m')" by (simp add: touch_def fs)
  have mk: "map key_of ?g = map key_of ss'" by (rule keys_update) (simp add: assms(3))
  show "index_ok (map key_of (fst (touch key fresh g (ss, m)))) (snd (touch key fresh g (ss, m)))"
    unfolding t fst_conv snd_conv mk using ok by simp
  show "distinct (map key_of (fst (touch key fresh g (ss, m))))" if "distinct (map key_of ss)"
    unfolding t fst_conv mk using ok that assms(2) by auto
  have "set (map key_of ss') = insert key (key_of ` set ss)" using ok assms(2) by auto
  then show "key_of ` set (fst (touch key fresh g (ss, m))) = insert key (key_of ` set ss)"
    by (metis fst_conv mk set_map t)
  show "tally f k (fst (touch key fresh g (ss, m))) = tally f k ss + (if key = k then c else 0)"
    if "f fresh = 0" "\<And>s. f (g s) = f s + c"
  proof -
    have "tally f k ss' = tally f k ss" using ok that(1) by auto
    moreover have "tally f k ?g = tally f k ss' + (if key_of (g (ss' ! i)) = k then c else 0)"
      by (rule tally_update) (use ok that(2) assms(3) in simp_all)
    ultimately show ?thesis using ok assms(3) by (simp add: t)
  qed
qed

section \<open>Merging conserves every measure\<close>

lemma bucket_at_set [simp]: "bucket_at (set_bucket bs i n) j = (if i = j then n else bucket_at bs j)"
  by (auto simp: bucket_at_def set_bucket_def nth_append)

lemma bucket_at_add: "bucket_at (add_buckets source i rest bs) j =
   bucket_at bs j + (if i \<le> j \<and> j < i + length rest then bucket_at source j else 0)"
  by (induction source i rest bs rule: add_buckets.induct) auto

lemma bucket_count [simp]: "length REQUEST_DURATION_BUCKETS = 11" "length BUCKET_LABELS = 11"
  by (simp_all add: REQUEST_DURATION_BUCKETS_def BUCKET_LABELS_def)

text \<open>The number that the text shows for bucket \<open>i\<close>: all buckets up to it.\<close>

definition cumulative :: "nat \<Rightarrow> http_series \<Rightarrow> nat" where
  "cumulative i s = (\<Sum>j \<le> i. bucket_at (buckets (sr_duration s)) j)"

lemma cumulative_shown:
  assumes "j < length ls"
  shows "cumulative_buckets bs i c ls ! j = (ls ! j, c + (\<Sum>l \<le> j. bucket_at bs (i + l)))"
  using assms
proof (induction ls arbitrary: i c j)
  case (Cons b ls)
  show ?case
  proof (cases j)
    case (Suc j')
    have "(\<Sum>l \<le> Suc j'. bucket_at bs (i + l)) = bucket_at bs i + (\<Sum>l \<le> j'. bucket_at bs (Suc i + l))"
      by (simp add: sum.atMost_Suc_shift del: sum.atMost_Suc)
    with Cons Suc show ?thesis by simp
  qed simp
qed simp

definition merged :: "http_series \<Rightarrow> http_series \<Rightarrow> http_series" where
  "merged source s = s\<lparr>sr_requests := sr_requests s + sr_requests source,
     sr_duration := addRequestDuration (sr_duration s) (sr_duration source)\<rparr>"

lemma merge_touch:
  "merge_series source t =
     touch (key_of source) (createHttpSeries (sr_method source) (sr_route source) (sr_statusCode source)) (merged source) t"
  by (simp add: merge_series_def touch_def merged_def)

lemma key_of_simps [simp]:
  "key_of (createHttpSeries m r st) = seriesKey m r st" "key_of (merged source s) = key_of s"
  by (simp_all add: key_of_def createHttpSeries_def merged_def)

text \<open>A measure that a new series starts at zero and merging adds up.\<close>

definition additive :: "(http_series \<Rightarrow> 'a :: cancel_comm_monoid_add) \<Rightarrow> bool" where
  "additive f \<longleftrightarrow> (\<forall>m r st. f (createHttpSeries m r st) = 0) \<and> (\<forall>source s. f (merged source s) = f s + f source)"

lemma bucket_at_zeros [simp]: "bucket_at (map (\<lambda>_. 0) bs) j = 0"
  by (simp add: bucket_at_def)

lemma additive_measures:
  "additive sr_requests" "additive (\<lambda>s. dur_count (sr_duration s))" "additive (\<lambda>s. dur_sum (sr_duration s))"
  "i < 11 \<Longrightarrow> additive (cumulative i)"
proof -
  show "additive sr_requests" "additive (\<lambda>s. dur_count (sr_duration s))" "additive (\<lambda>s. dur_sum (sr_duration s))"
    by (simp_all add: additive_def createHttpSeries_def merged_def addRequestDuration_def emptyRequestDurationSnapshot_def)
  assume "i < 11"
  then have "j \<le> i \<Longrightarrow> bucket_at (add_buckets bs 0 REQUEST_DURATION_BUCKETS bs') j = bucket_at bs' j + bucket_at bs j" for j bs bs'
    by (simp add: bucket_at_add)
  then show "additive (cumulative i)"
    by (simp add: additive_def cumulative_def createHttpSeries_def merged_def addRequestDuration_def
        emptyRequestDurationSnapshot_def sum.distrib)
qed

lemma merge_step:
  assumes "index_ok (map key_of ss) m" "merge_series x (ss, m) = (ss', m')"
  shows "index_ok (map key_of ss') m'" "distinct (map key_of ss) \<Longrightarrow> distinct (map key_of ss')"
    and "additive f \<Longrightarrow> tally f k ss' = tally f k ss + (if key_of x = k then f x else 0)"
proof -
  let ?fresh = "createHttpSeries (sr_method x) (sr_route x) (sr_statusCode x)"
  have key: "key_of ?fresh = key_of x" by (simp add: key_of_def createHttpSeries_def)
  have t: "touch (key_of x) ?fresh (merged x) (ss, m) = (ss', m')" using assms(2) by (simp add: merge_touch)
  note tc = touch_correct [of ss m ?fresh "key_of x" "merged x", OF assms(1) key key_of_simps(2), unfolded t fst_conv snd_conv]
  show "index_ok (map key_of ss') m'" "distinct (map key_of ss) \<Longrightarrow> distinct (map key_of ss')" using tc(1,2) by blast+
  show "tally f k ss' = tally f k ss + (if key_of x = k then f x else 0)" if "additive f"
    by (rule tc(4)) (use that in \<open>simp_all add: additive_def\<close>)
qed

lemma merge_fold:
  assumes "index_ok (map key_of ss) m" "additive f"
  shows "tally f k (fst (fold merge_series source (ss, m))) = tally f k ss + tally f k source"
  using assms(1)
proof (induction source arbitrary: ss m)
  case (Cons x source)
  obtain ss' m' where t: "merge_series x (ss, m) = (ss', m')" by fastforce
  note st = merge_step [OF Cons.prems t]
  from Cons.IH [OF st(1)] st(3) [OF assms(2)] t show ?case by (simp add: ac_simps)
qed simp

lemma merge_fold_distinct:
  "index_ok (map key_of ss) m \<Longrightarrow> distinct (map key_of ss) \<Longrightarrow>
     distinct (map key_of (fst (fold merge_series source (ss, m))))"
proof (induction source arbitrary: ss m)
  case (Cons x source)
  obtain ss' m' where t: "merge_series x (ss, m) = (ss', m')" by fastforce
  note st = merge_step [OF Cons.prems(1) t]
  from Cons.IH [OF st(1) st(2) [OF Cons.prems(2)]] t show ?case by simp
qed simp

definition counter_of :: "string \<Rightarrow> snapshot \<Rightarrow> int" where
  "counter_of name s = (case sn_counters s of None \<Rightarrow> 0 | Some m \<Rightarrow> (case js_get m name of None \<Rightarrow> 0 | Some v \<Rightarrow> v))"

text \<open>The counters that a collector builds.\<close>

definition counters_ok :: "snapshot \<Rightarrow> bool" where
  "counters_ok s \<longleftrightarrow> (case sn_counters s of
     None \<Rightarrow> True
   | Some m \<Rightarrow> js_wf m \<and> (\<forall>(name, v) \<in> set m. COUNTER_NAME_PATTERN name \<and> isSafeInteger v \<and> 0 < v))"

lemma counter_of_add:
  "counter_of name (addCounter name' (IntNum v) s) =
     counter_of name s + (if name = name' \<and> COUNTER_NAME_PATTERN name' \<and> isSafeInteger v \<and> 0 < v then v else 0)"
  by (auto simp: counter_of_def addCounter_def Let_def split: option.splits)

lemma addCounter_other [simp]:
  "sn_created (addCounter name v s) = sn_created s" "sn_redirects (addCounter name v s) = sn_redirects s"
  "sn_misses (addCounter name v s) = sn_misses s" "sn_httpRequests (addCounter name v s) = sn_httpRequests s"
  by (simp_all add: addCounter_def Let_def split: js_number.split)

abbreviation add_counters :: "(string, int) js_map \<Rightarrow> snapshot \<Rightarrow> snapshot" where
  "add_counters cs t \<equiv> fold (\<lambda>(name, n) t. addCounter name (IntNum n) t) cs t"

lemma add_counters_other [simp]:
  "sn_created (add_counters cs s) = sn_created s" "sn_redirects (add_counters cs s) = sn_redirects s"
  "sn_misses (add_counters cs s) = sn_misses s" "sn_httpRequests (add_counters cs s) = sn_httpRequests s"
  by (induction cs arbitrary: s) auto

lemma counter_of_adds:
  assumes "js_wf cs" "\<forall>(name, v) \<in> set cs. COUNTER_NAME_PATTERN name \<and> isSafeInteger v \<and> 0 < v"
  shows "counter_of name (add_counters cs t) = counter_of name t + (case js_get cs name of None \<Rightarrow> 0 | Some v \<Rightarrow> v)"
  using assms
proof (induction cs arbitrary: t)
  case (Cons c cs)
  obtain n v where c: "c = (n, v)" by (cases c)
  have "n \<noteq> name \<or> js_get cs name = None" using Cons.prems(1) c by (auto simp: js_get_None_iff)
  moreover have "COUNTER_NAME_PATTERN n \<and> isSafeInteger v \<and> 0 < v" using Cons.prems(2) c by simp
  ultimately show ?case using Cons c by (auto simp: counter_of_add)
qed simp

lemma merge_parts:
  assumes "m = addMetricsSnapshot target source"
  shows "sn_created m = sn_created target + sn_created source" "sn_redirects m = sn_redirects target + sn_redirects source"
    and "sn_misses m = sn_misses target + sn_misses source"
    and "counters_ok source \<Longrightarrow> counter_of name m = counter_of name target + counter_of name source"
    and "sn_httpRequests m =
      fst (fold merge_series (sn_httpRequests source) (sn_httpRequests target, index_series 0 (sn_httpRequests target) []))"
proof -
  let ?t = "target\<lparr>sn_created := sn_created target + sn_created source,
    sn_redirects := sn_redirects target + sn_redirects source, sn_misses := sn_misses target + sn_misses source\<rparr>"
  define cs where "cs = (case sn_counters source of None \<Rightarrow> [] | Some cs \<Rightarrow> cs)"
  have m: "m = (add_counters cs ?t)\<lparr>sn_httpRequests :=
      fst (fold merge_series (sn_httpRequests source) (sn_httpRequests target, index_series 0 (sn_httpRequests target) []))\<rparr>"
    unfolding assms addMetricsSnapshot_def cs_def Let_def by (simp split: option.split prod.split)
  show "sn_created m = sn_created target + sn_created source" "sn_redirects m = sn_redirects target + sn_redirects source"
    "sn_misses m = sn_misses target + sn_misses source"
    "sn_httpRequests m =
      fst (fold merge_series (sn_httpRequests source) (sn_httpRequests target, index_series 0 (sn_httpRequests target) []))"
    by (simp_all add: m)
  have eq: "counter_of name (x\<lparr>sn_httpRequests := h\<rparr>) = counter_of name x" "counter_of name ?t = counter_of name target" for x h
    by (simp_all add: counter_of_def)
  show "counter_of name m = counter_of name target + counter_of name source" if "counters_ok source"
  proof -
    have "js_wf cs" "\<forall>(name, v) \<in> set cs. COUNTER_NAME_PATTERN name \<and> isSafeInteger v \<and> 0 < v"
      using that by (auto simp: cs_def counters_ok_def split: option.splits)
    from counter_of_adds [OF this, of name ?t]
    have "counter_of name m = counter_of name target + (case js_get cs name of None \<Rightarrow> 0 | Some v \<Rightarrow> v)"
      unfolding m eq .
    then show ?thesis by (simp add: cs_def counter_of_def [of name source] split: option.splits)
  qed
qed


definition demo_snapshot :: snapshot where
  "demo_snapshot = emptyMetricsSnapshot\<lparr>sn_created := 2, sn_counters := Some [(''links_synced'', 5)]\<rparr>"


section \<open>The histogram counts the requests\<close>

lemma observe_below: "j < i \<Longrightarrow> bucket_at (observe_loop s i bounds bs) j = bucket_at bs j"
  by (induction s i bounds bs rule: observe_loop.induct) auto

lemma observe_cumulative:
  assumes "sorted bounds" "i < length bounds"
  shows "(\<Sum>j \<le> start + i. bucket_at (observe_loop s start bounds bs) j) =
     (\<Sum>j \<le> start + i. bucket_at bs j) + (if s \<le> bounds ! i then 1 else 0)"
  using assms
proof (induction bounds arbitrary: start i)
  case (Cons b bounds)
  show ?case
  proof (cases "s \<le> b")
    case True
    have "b \<le> (b # bounds) ! i" using Cons.prems by (cases i) auto
    with True have "s \<le> (b # bounds) ! i" by simp
    moreover have "(\<Sum>j \<le> start + i. if start = j then Suc (bucket_at bs start) else bucket_at bs j) =
        (\<Sum>j \<le> start + i. bucket_at bs j + (if start = j then 1 else 0))" by (rule sum.cong) auto
    moreover have "\<dots> = (\<Sum>j \<le> start + i. bucket_at bs j) + 1" by (simp add: sum.distrib)
    ultimately show ?thesis using True by simp
  next
    case False
    show ?thesis
    proof (cases i)
      case 0
      with False show ?thesis by (simp add: observe_below)
    next
      case (Suc i')
      with False Cons show ?thesis using Cons.IH [of i' "Suc start"] by simp
    qed
  qed
qed simp

lemma buckets_sorted: "sorted REQUEST_DURATION_BUCKETS"
  by (simp add: REQUEST_DURATION_BUCKETS_def)

type_synonym request_event = "string \<times> string \<times> js_number \<times> rat option"

definition run_request :: "request_event \<Rightarrow> metrics \<Rightarrow> metrics" where
  "run_request e m = (case e of (meth, route, statusCode, seconds) \<Rightarrow> mt_request meth route statusCode seconds m)"

text \<open>The requests that count, by key, with their durations.\<close>

definition hits :: "string \<Rightarrow> request_event list \<Rightarrow> rat list" where
  "hits k es = concat (map (\<lambda>(meth, route, statusCode, seconds).
     if valid_request meth route statusCode seconds \<and>
        (case statusCode of IntNum n \<Rightarrow> seriesKey meth route n = k | NotInt \<Rightarrow> False)
     then [the seconds] else []) es)"

definition observed :: "rat \<Rightarrow> http_series \<Rightarrow> http_series" where
  "observed t s = s\<lparr>sr_requests := sr_requests s + 1, sr_duration := observeDuration (Some t) (sr_duration s)\<rparr>"

lemma key_of_observed [simp]: "key_of (observed t s) = key_of s"
  by (simp add: key_of_def observed_def)

lemma observed_measures:
  assumes "0 \<le> t"
  shows "sr_requests (observed t s) = sr_requests s + 1" "dur_count (sr_duration (observed t s)) = dur_count (sr_duration s) + 1"
    and "dur_sum (sr_duration (observed t s)) = dur_sum (sr_duration s) + t"
    and "i < 11 \<Longrightarrow> cumulative i (observed t s) = cumulative i s + (if t \<le> REQUEST_DURATION_BUCKETS ! i then 1 else 0)"
  using assms observe_cumulative [OF buckets_sorted, where start = 0 and s = t and i = i and bs = "buckets (sr_duration s)"]
  by (simp_all add: observed_def observeDuration_def cumulative_def)

lemma request_touch:
  assumes "valid_request meth route statusCode seconds"
  obtains n t where "statusCode = IntNum n" "seconds = Some t" "0 \<le> t"
    "sn_httpRequests (mt_snapshot (mt_request meth route statusCode seconds m)) =
       fst (touch (seriesKey meth route n) (createHttpSeries meth route n) (observed t) (sn_httpRequests (mt_snapshot m), mt_series m))"
    "mt_series (mt_request meth route statusCode seconds m) =
       snd (touch (seriesKey meth route n) (createHttpSeries meth route n) (observed t) (sn_httpRequests (mt_snapshot m), mt_series m))"
proof -
  obtain n t where nt: "statusCode = IntNum n" "seconds = Some t" "0 \<le> t"
    using assms by (auto simp: valid_request_def split: js_number.splits option.splits)
  show ?thesis
    by (rule that [OF nt]) (use assms nt in \<open>simp_all add: mt_request_def touch_def observed_def split: prod.split\<close>)
qed

text \<open>What is known of a collector after a list of requests.\<close>

definition key_inv :: "rat list \<Rightarrow> http_series list \<Rightarrow> string \<Rightarrow> bool" where
  "key_inv ts ss k \<longleftrightarrow> (k \<in> key_of ` set ss \<longleftrightarrow> ts \<noteq> []) \<and>
     tally sr_requests k ss = length ts \<and> tally (\<lambda>s. dur_count (sr_duration s)) k ss = length ts \<and>
     tally (\<lambda>s. dur_sum (sr_duration s)) k ss = sum_list ts \<and>
     (\<forall>i < 11. tally (cumulative i) k ss = length (filter (\<lambda>t. t \<le> REQUEST_DURATION_BUCKETS ! i) ts))"

definition metrics_inv :: "request_event list \<Rightarrow> metrics \<Rightarrow> bool" where
  "metrics_inv es m \<longleftrightarrow>
     (let ss = sn_httpRequests (mt_snapshot m) in
      index_ok (map key_of ss) (mt_series m) \<and> distinct (map key_of ss) \<and> (\<forall>k. key_inv (hits k es) ss k))"

lemma hits_snoc:
  "hits k (es @ [(meth, route, IntNum n, Some t)]) = hits k es @
     (if valid_request meth route (IntNum n) (Some t) \<and> seriesKey meth route n = k then [t] else [])"
  by (simp add: hits_def)

lemma hits_invalid: "\<not> valid_request meth route st sec \<Longrightarrow> hits k (es @ [(meth, route, st, sec)]) = hits k es"
  by (simp add: hits_def)

lemma mt_request_invalid: "\<not> valid_request meth route st sec \<Longrightarrow> mt_request meth route st sec m = m"
  by (cases st) (simp_all add: mt_request_def)

lemma metrics_inv_step:
  assumes "metrics_inv es m"
  shows "metrics_inv (es @ [e]) (run_request e m)"
proof -
  obtain meth route st sec where e: "e = (meth, route, st, sec)" by (metis prod_cases4)
  show ?thesis
  proof (cases "valid_request meth route st sec")
    case False
    then show ?thesis using assms
      by (simp add: e run_request_def metrics_inv_def hits_invalid mt_request_invalid Let_def)
  next
    case True
    let ?ss = "sn_httpRequests (mt_snapshot m)" and ?m' = "mt_request meth route st sec m"
    let ?ss' = "sn_httpRequests (mt_snapshot ?m')"
    obtain n t where nt: "st = IntNum n" "sec = Some t" "0 \<le> t"
      and ss: "?ss' = fst (touch (seriesKey meth route n) (createHttpSeries meth route n) (observed t) (?ss, mt_series m))"
      and idx: "mt_series ?m' = snd (touch (seriesKey meth route n) (createHttpSeries meth route n) (observed t) (?ss, mt_series m))"
      using request_touch [OF True, of m] by metis
    have inv: "index_ok (map key_of ?ss) (mt_series m)" "distinct (map key_of ?ss)"
      using assms by (simp_all add: metrics_inv_def Let_def)
    note tc = touch_correct [of ?ss "mt_series m" "createHttpSeries meth route n" "seriesKey meth route n" "observed t",
        OF inv(1) key_of_simps(1) key_of_observed, folded ss idx]
    have zero: "sr_requests (createHttpSeries meth route n) = 0" "dur_count (sr_duration (createHttpSeries meth route n)) = 0"
      "dur_sum (sr_duration (createHttpSeries meth route n)) = 0" "i < 11 \<Longrightarrow> cumulative i (createHttpSeries meth route n) = 0" for i
      using additive_measures unfolding additive_def by blast+
    note om = observed_measures [OF nt(3)]
    have tal: "tally sr_requests k ?ss' = tally sr_requests k ?ss + (if seriesKey meth route n = k then 1 else 0)"
      "tally (\<lambda>s. dur_count (sr_duration s)) k ?ss' = tally (\<lambda>s. dur_count (sr_duration s)) k ?ss + (if seriesKey meth route n = k then 1 else 0)"
      "tally (\<lambda>s. dur_sum (sr_duration s)) k ?ss' = tally (\<lambda>s. dur_sum (sr_duration s)) k ?ss + (if seriesKey meth route n = k then t else 0)"
      "i < 11 \<Longrightarrow> tally (cumulative i) k ?ss' = tally (cumulative i) k ?ss +
         (if seriesKey meth route n = k then (if t \<le> REQUEST_DURATION_BUCKETS ! i then 1 else 0) else 0)" for i k
      by (rule tc(4); simp add: zero om)+
    have "key_inv (hits k (es @ [e])) ?ss' k" for k
    proof -
      have "hits k (es @ [e]) = hits k es @ (if seriesKey meth route n = k then [t] else [])"
        using True by (simp add: e nt(1,2) hits_snoc)
      moreover have "key_inv (hits k es) ?ss k" using assms by (simp add: metrics_inv_def Let_def)
      ultimately show ?thesis unfolding key_inv_def tc(3) tal(1-3) by (auto simp: tal(4))
    qed
    with tc(1) tc(2) [OF inv(2)] show ?thesis by (simp add: metrics_inv_def Let_def run_request_def e)
  qed
qed

definition plain :: "string \<Rightarrow> bool" where
  "plain s \<longleftrightarrow> CHR 0x00 \<notin> set s"

lemma split_at: "c \<notin> set a \<Longrightarrow> c \<notin> set b \<Longrightarrow> a @ c # x = b @ c # y \<longleftrightarrow> a = b \<and> x = y"
proof (induction a arbitrary: b)
  case (Cons d a)
  then show ?case by (cases b) auto
qed (use in \<open>auto simp: append_eq_Cons_conv Cons_eq_append_conv\<close>)

lemma seriesKey_inj:
  assumes "plain meth" "plain route" "plain meth'" "plain route'"
  shows "seriesKey meth route n = seriesKey meth' route' n' \<longleftrightarrow> meth = meth' \<and> route = route' \<and> n = n'"
proof -
  have "int_text n = int_text n' \<longleftrightarrow> n = n'" by (metis decimal_int_text option.inject)
  with assms show ?thesis by (simp add: seriesKey_def plain_def split_at)
qed

definition label_hits :: "string \<Rightarrow> string \<Rightarrow> int \<Rightarrow> request_event list \<Rightarrow> rat list" where
  "label_hits meth route n es = map (\<lambda>(_, _, _, seconds). the seconds)
     (filter (\<lambda>(m, r, st, seconds). valid_request m r st seconds \<and> m = meth \<and> r = route \<and> st = IntNum n) es)"

lemma hits_labels:
  assumes "\<forall>(m, r, _) \<in> set es. plain m \<and> plain r" "plain meth" "plain route"
  shows "hits (seriesKey meth route n) es = label_hits meth route n es"
  using assms(1)
proof (induction es)
  case (Cons e es)
  obtain m r st sec where e: "e = (m, r, st, sec)" by (metis prod_cases4)
  then have "plain m" "plain r" using Cons.prems by simp_all
  note inj = seriesKey_inj [OF this assms(2,3)]
  have "(case st of IntNum x \<Rightarrow> seriesKey m r x = seriesKey meth route n | NotInt \<Rightarrow> False) \<longleftrightarrow>
      m = meth \<and> r = route \<and> st = IntNum n" by (cases st) (simp_all add: inj)
  with Cons e show ?case by (auto simp: hits_def label_hits_def)
qed (simp add: hits_def label_hits_def)

lemma metrics_inv_run: "metrics_inv es (fold run_request es init_metrics)"
proof (induction es rule: rev_induct)
  case Nil
  show ?case by (auto simp: metrics_inv_def key_inv_def init_metrics_def emptyMetricsSnapshot_def hits_def)
next
  case (snoc e es)
  then show ?case using metrics_inv_step by simp
qed

lemma plain_labels_run:
  assumes "\<forall>(m, r, _) \<in> set es. plain m \<and> plain r" "s \<in> set (sn_httpRequests (mt_snapshot (fold run_request es init_metrics)))"
  shows "plain (sr_method s) \<and> plain (sr_route s)"
  using assms
proof (induction es arbitrary: s rule: rev_induct)
  case Nil
  then show ?case by (simp add: init_metrics_def emptyMetricsSnapshot_def)
next
  case (snoc e es)
  obtain m r st sec where e: "e = (m, r, st, sec)" by (metis prod_cases4)
  let ?m = "fold run_request es init_metrics"
  have IH: "\<forall>x \<in> set (sn_httpRequests (mt_snapshot ?m)). plain (sr_method x) \<and> plain (sr_route x)" using snoc by simp
  have "run_request e ?m = mt_request m r st sec ?m" by (simp add: e run_request_def)
  then have s: "s \<in> set (sn_httpRequests (mt_snapshot (mt_request m r st sec ?m)))" using snoc.prems(2) by simp
  show ?case
  proof (cases "valid_request m r st sec")
    case False
    with IH s show ?thesis by (simp add: mt_request_invalid)
  next
    case True
    obtain n t where ss: "sn_httpRequests (mt_snapshot (mt_request m r st sec ?m)) =
        fst (touch (seriesKey m r n) (createHttpSeries m r n) (observed t) (sn_httpRequests (mt_snapshot ?m), mt_series ?m))"
      using request_touch [OF True, of ?m] by metis
    obtain i ss' idx where fs: "find_series (seriesKey m r n) (createHttpSeries m r n) (sn_httpRequests (mt_snapshot ?m), mt_series ?m) = (i, ss', idx)"
      by (metis prod_cases3)
    have "index_ok (map key_of (sn_httpRequests (mt_snapshot ?m))) (mt_series ?m)"
      using metrics_inv_run [of es] by (simp add: metrics_inv_def Let_def)
    note found = found_series [OF this key_of_simps(1) fs]
    then have "\<forall>x \<in> set ss'. plain (sr_method x) \<and> plain (sr_route x)"
      using IH snoc.prems(1) e by (auto simp: createHttpSeries_def)
    moreover from this have "plain (sr_method (observed t (ss' ! i))) \<and> plain (sr_route (observed t (ss' ! i)))"
      using found nth_mem by (auto simp: observed_def)
    ultimately have "\<forall>x \<in> set (ss'[i := observed t (ss' ! i)]). plain (sr_method x) \<and> plain (sr_route x)"
      using set_update_subset_insert [of ss' i "observed t (ss' ! i)"] by blast
    then show ?thesis using s ss by (simp add: touch_def fs)
  qed
qed

lemma tally_unique: "distinct (map key_of ss) \<Longrightarrow> s \<in> set ss \<Longrightarrow> tally f (key_of s) ss = f s"
proof (induction ss)
  case (Cons x ss)
  have "tally f k ss = 0" if "k \<notin> key_of ` set ss" for k
    using that by (induction ss) auto
  with Cons show ?case by (auto simp: image_iff)
qed simp

text \<open>C30: The histogram of a process is exact: after any requests, each series counts exactly the valid
  requests with its HTTP verb, route and status code, its sum is the sum of their durations, and the
  number that the Prometheus text gives for each bucket is the number of those that took at
  most the bound of the bucket; and every valid request has exactly one series.\<close>

theorem histogram_exact:
  assumes "\<forall>(m, r, _) \<in> set es. plain m \<and> plain r"
  shows "let ss = sn_httpRequests (mt_snapshot (fold run_request es init_metrics)) in
     (\<forall>s \<in> set ss. let ts = label_hits (sr_method s) (sr_route s) (sr_statusCode s) es; d = sr_duration s in
        ts \<noteq> [] \<and> sr_requests s = length ts \<and> dur_count d = length ts \<and> dur_sum d = sum_list ts \<and>
        (\<forall>i < 11. cumulative_buckets (buckets d) 0 0 BUCKET_LABELS ! i =
           (BUCKET_LABELS ! i, length (filter (\<lambda>t. t \<le> REQUEST_DURATION_BUCKETS ! i) ts)))) \<and>
     (\<forall>meth route n. plain meth \<and> plain route \<and> label_hits meth route n es \<noteq> [] \<longrightarrow>
        (\<exists>!s. s \<in> set ss \<and> sr_method s = meth \<and> sr_route s = route \<and> sr_statusCode s = n))"
proof -
  let ?ss = "sn_httpRequests (mt_snapshot (fold run_request es init_metrics))"
  have inv: "distinct (map key_of ?ss)" "\<And>k. key_inv (hits k es) ?ss k"
    using metrics_inv_run [of es] by (simp_all add: metrics_inv_def Let_def)
  note labels = plain_labels_run [OF assms]
  have "let ts = label_hits (sr_method s) (sr_route s) (sr_statusCode s) es; d = sr_duration s in
        ts \<noteq> [] \<and> sr_requests s = length ts \<and> dur_count d = length ts \<and> dur_sum d = sum_list ts \<and>
        (\<forall>i < 11. cumulative_buckets (buckets d) 0 0 BUCKET_LABELS ! i =
           (BUCKET_LABELS ! i, length (filter (\<lambda>t. t \<le> REQUEST_DURATION_BUCKETS ! i) ts)))" if s: "s \<in> set ?ss" for s
  proof -
    have h: "hits (key_of s) es = label_hits (sr_method s) (sr_route s) (sr_statusCode s) es"
      unfolding key_of_def using hits_labels [OF assms] labels [OF s] by blast
    have t: "tally f (key_of s) ?ss = f s" for f :: "http_series \<Rightarrow> nat" by (rule tally_unique [OF inv(1) s])
    have t': "tally f (key_of s) ?ss = f s" for f :: "http_series \<Rightarrow> rat" by (rule tally_unique [OF inv(1) s])
    from inv(2) [of "key_of s"] s show ?thesis
      unfolding key_inv_def h t t' by (simp add: Let_def cumulative_shown cumulative_def)
  qed
  moreover have "\<exists>!s. s \<in> set ?ss \<and> sr_method s = meth \<and> sr_route s = route \<and> sr_statusCode s = n"
    if p: "plain meth" "plain route" "label_hits meth route n es \<noteq> []" for meth route n
  proof -
    have "seriesKey meth route n \<in> key_of ` set ?ss"
      using inv(2) [of "seriesKey meth route n"] p hits_labels [OF assms p(1,2)] by (simp add: key_inv_def)
    then obtain s where s: "s \<in> set ?ss" "key_of s = seriesKey meth route n" by auto
    have key: "key_of x = seriesKey meth route n \<longleftrightarrow> sr_method x = meth \<and> sr_route x = route \<and> sr_statusCode x = n"
      if "x \<in> set ?ss" for x
      unfolding key_of_def using seriesKey_inj labels [OF that] p(1,2) by blast
    have "x = s" if "x \<in> set ?ss" "key_of x = key_of s" for x
      using inv(1) that s(1) by (metis distinct_map inj_onD)
    with s key show ?thesis by (metis (full_types))
  qed
  ultimately show ?thesis by (simp add: Let_def)
qed

theorem histogram_exact_witness:
  "let es = [(''GET'', ''/:code'', IntNum 302, Some (1/100)), (''GET'', ''/:code'', IntNum 302, Some 0),
             (''GET'', ''/:code'', IntNum 700, Some 1)]
   in \<exists>s. s \<in> set (sn_httpRequests (mt_snapshot (fold run_request es init_metrics))) \<and> sr_method s = ''GET''"
proof -
  let ?es = "[(''GET'', ''/:code'', IntNum 302, Some (1/100)), (''GET'', ''/:code'', IntNum 302, Some 0),
             (''GET'', ''/:code'', IntNum 700, Some (1 :: rat))]"
  have "\<forall>(m, r, _) \<in> set ?es. plain m \<and> plain r" by (simp add: plain_def)
  note thm1 = histogram_exact [OF this, unfolded Let_def, THEN conjunct2, rule_format, of "''GET''" "''/:code''" 302]
  have "plain ''GET'' \<and> plain ''/:code'' \<and> label_hits ''GET'' ''/:code'' 302 ?es \<noteq> []"
    by (simp add: plain_def label_hits_def valid_request_def isSafeInteger_def MAX_SAFE_INTEGER_def)
  from thm1 [OF this] show ?thesis unfolding Let_def by blast
qed

end
