(* ===== verification/App.thy ===== *)
theory App
  imports Postgres_Store Memory_Store Cached_Store Rate_Limiter Api_Keys Url_Policy Metrics
begin

text \<open>
  \<open>src/src/app.ts\<close>: the HTTP handlers.  The services that \<open>buildApp\<close> is given are a record of operations;
  each works on its part of the world.  Fastify itself is not modelled: a handler maps a request to a
  response or to the error with which it rejects, which the framework answers with 500.
\<close>

section \<open>The services and the world\<close>

record ('r, 'g, 's, 'e) services =
  sv_consume :: "(string \<Rightarrow> 'r \<Rightarrow> 'r \<times> (limit_error + rate_limit_result)) option"
  sv_authenticate :: "(js_value \<Rightarrow> bool) option"
  sv_policy :: "(js_value \<Rightarrow> string option) option"
  sv_newURL :: "string \<Rightarrow> url option"
  sv_codeGenerator :: "'g \<Rightarrow> 'g \<times> string option"
  sv_create :: "int \<Rightarrow> create_input \<Rightarrow> 's \<Rightarrow> 's \<times> ('e + link option)"
  sv_find :: "int \<Rightarrow> string \<Rightarrow> 's \<Rightarrow> 's \<times> ('e + link option)"
  sv_recordClick :: "string \<Rightarrow> 's \<Rightarrow> 's \<times> ('e + unit)"
  sv_isHealthy :: "'s \<Rightarrow> bool"
  sv_baseUrl :: string

record ('r, 'g, 's) world =
  w_limiter :: 'r
  w_codes :: 'g
  w_store :: 's
  w_metrics :: metrics

datatype content = JsonContent json | PlainContent string | NoContent

record response =
  status :: int
  headers :: "(string \<times> string) list"
  content :: content

record create_body =
  body_url :: js_value
  body_customCode :: js_value
  body_expiresInSeconds :: js_value

definition send :: "int \<Rightarrow> (string \<times> string) list \<Rightarrow> (string \<times> json) list \<Rightarrow> response" where
  "send code hs members = \<lparr>status = code, headers = hs, content = JsonContent (JObj members)\<rparr>"

definition failure :: "int \<Rightarrow> (string \<times> string) list \<Rightarrow> string \<Rightarrow> response" where
  "failure code hs err = send code hs [(''error'', JStr err)]"

section \<open>Requests\<close>

definition request_id_char :: "char \<Rightarrow> bool" where
  "request_id_char c \<longleftrightarrow> (CHR ''A'' \<le> c \<and> c \<le> CHR ''Z'') \<or> (CHR ''a'' \<le> c \<and> c \<le> CHR ''z'') \<or>
     (CHR ''0'' \<le> c \<and> c \<le> CHR ''9'') \<or> c \<in> set ''._:-''"

definition REQUEST_ID_PATTERN :: "string \<Rightarrow> bool" where
  "REQUEST_ID_PATTERN s \<longleftrightarrow> 1 \<le> length s \<and> length s \<le> 128 \<and> list_all request_id_char s"

definition requestId :: "js_value \<Rightarrow> string \<Rightarrow> string" where
  "requestId supplied randomUUID =
     (case supplied of JsString s \<Rightarrow> if REQUEST_ID_PATTERN s then s else randomUUID | _ \<Rightarrow> randomUUID)"

definition security_headers :: "string \<Rightarrow> (string \<times> string) list" where
  "security_headers request_id =
     [(''x-request-id'', request_id),
      (''content-security-policy'', ''default-src '' @ [CHR 0x27] @ ''none'' @ [CHR 0x27]),
      (''permissions-policy'', ''camera=(), microphone=(), geolocation=()''),
      (''referrer-policy'', ''no-referrer''),
      (''x-content-type-options'', ''nosniff''),
      (''x-frame-options'', ''DENY'')]"

definition onSend :: "string \<Rightarrow> response \<Rightarrow> response" where
  "onSend request_id r = r\<lparr>headers := headers r @ security_headers request_id\<rparr>"

text \<open>The \<open>onResponse\<close> hook, with the two readings of the clock in nanoseconds.\<close>

definition onResponse :: "string \<Rightarrow> string option \<Rightarrow> int option \<Rightarrow> int \<Rightarrow> response \<Rightarrow> metrics \<Rightarrow> metrics" where
  "onResponse meth route started finished r m =
     (case started of
        None \<Rightarrow> m
      | Some t \<Rightarrow>
          mt_request meth (case route of Some u \<Rightarrow> u | None \<Rightarrow> ''unknown'') (IntNum (status r))
            (Some (of_int (finished - t) / 1000000000)) m)"

definition validHttpUrl :: "(string \<Rightarrow> url option) \<Rightarrow> js_value \<Rightarrow> string option" where
  "validHttpUrl new_URL v =
     (case v of
        JsString s \<Rightarrow>
          if 2048 < length s then None
          else (case new_URL s of
                  None \<Rightarrow> None
                | Some u \<Rightarrow> if url_protocol u = ''http:'' \<or> url_protocol u = ''https:'' then Some (url_href u) else None)
      | _ \<Rightarrow> None)"

section \<open>Creating a link\<close>

definition rate_headers :: "rate_limit_result \<Rightarrow> (string \<times> string) list" where
  "rate_headers res =
     [(''rate-limit-limit'', int_text (limit res)), (''rate-limit-remaining'', int_text (remaining res)),
      (''rate-limit-reset'', int_text (retryAfterSeconds res))]"

text \<open>The quota: a response that ends the request, or the headers to go on with.\<close>

definition check_rate ::
  "('r, 'g, 's, 'e) services \<Rightarrow> string \<Rightarrow> ('r, 'g, 's) world \<Rightarrow> ('r, 'g, 's) world \<times> (response + (string \<times> string) list)" where
  "check_rate sv ip w =
     (case sv_consume sv of
        None \<Rightarrow> (w, Inr [])
      | Some limiter \<Rightarrow>
          (case limiter ip (w_limiter w) of
             (r, Inl _) \<Rightarrow> (w\<lparr>w_limiter := r\<rparr>, Inl (failure 503 [] ''link creation is temporarily unavailable''))
           | (r, Inr res) \<Rightarrow>
               (w\<lparr>w_limiter := r\<rparr>,
                if \<not> allowed res
                then Inl (failure 429 (rate_headers res @ [(''retry-after'', int_text (retryAfterSeconds res))])
                            ''link creation rate limit exceeded'')
                else Inr (rate_headers res))))"

definition valid_custom :: "js_value \<Rightarrow> bool" where
  "valid_custom v \<longleftrightarrow> (case v of JsUndefined \<Rightarrow> True | JsString s \<Rightarrow> CODE_PATTERN s | _ \<Rightarrow> False)"

definition valid_ttl :: "js_value \<Rightarrow> bool" where
  "valid_ttl v \<longleftrightarrow>
     (case v of
        JsUndefined \<Rightarrow> True
      | JsNumber (IntNum n) \<Rightarrow> isSafeInteger n \<and> 1 \<le> n \<and> n \<le> 31536000
      | _ \<Rightarrow> False)"

definition expiry_of :: "int \<Rightarrow> js_value \<Rightarrow> int option" where
  "expiry_of now v = (case v of JsNumber (IntNum n) \<Rightarrow> Some (now + n * 1000) | _ \<Rightarrow> None)"

definition created_response ::
  "('r, 'g, 's, 'e) services \<Rightarrow> (string \<times> string) list \<Rightarrow> string \<Rightarrow> string \<Rightarrow> int option \<Rightarrow> response" where
  "created_response sv hs code targetUrl expiresAt =
     send 201 hs
       [(''code'', JStr code), (''shortUrl'', JStr (sv_baseUrl sv @ ''/'' @ code)), (''targetUrl'', JStr targetUrl),
        (''expiresAt'', iso_or_null expiresAt)]"

text \<open>The loop over the attempts, of which \<open>left\<close> remain; \<open>clock\<close> is the time of each.\<close>

fun create_attempts ::
  "('r, 'g, 's, 'e) services \<Rightarrow> (nat \<Rightarrow> int) \<Rightarrow> (string \<times> string) list \<Rightarrow> js_value \<Rightarrow> string \<Rightarrow> int option \<Rightarrow> nat \<Rightarrow>
   ('r, 'g, 's) world \<Rightarrow> ('r, 'g, 's) world \<times> ('e + response)" where
  "create_attempts sv clock hs custom targetUrl expiresAt 0 w =
     (w, Inr (failure 503 hs ''could not allocate a unique code''))"
| "create_attempts sv clock hs custom targetUrl expiresAt (Suc left) w =
     (let (w1, code) =
            (case custom of
               JsString s \<Rightarrow> (w, Some s)
             | _ \<Rightarrow> (case sv_codeGenerator sv (w_codes w) of (g, c) \<Rightarrow> (w\<lparr>w_codes := g\<rparr>, c)))
      in case code of
           None \<Rightarrow> (w1, Inr (failure 503 hs ''link creation is temporarily unavailable''))
         | Some code \<Rightarrow>
             (case sv_create sv (clock left)
                     \<lparr>input_code = code, input_targetUrl = targetUrl, input_expiresAt = expiresAt,
                      input_codeSource = (case custom of JsString _ \<Rightarrow> Custom | _ \<Rightarrow> Generated)\<rparr> (w_store w1) of
                (s, Inl e) \<Rightarrow> (w1\<lparr>w_store := s\<rparr>, Inl e)
              | (s, Inr (Some link)) \<Rightarrow>
                  (w1\<lparr>w_store := s, w_metrics := mt_created (w_metrics w1)\<rparr>,
                   Inr (created_response sv hs code targetUrl expiresAt))
              | (s, Inr None) \<Rightarrow>
                  if custom \<noteq> JsUndefined
                  then (w1\<lparr>w_store := s\<rparr>, Inr (failure 409 hs ''customCode is already in use''))
                  else create_attempts sv clock hs custom targetUrl expiresAt left (w1\<lparr>w_store := s\<rparr>)))"

definition postLinks ::
  "('r, 'g, 's, 'e) services \<Rightarrow> int \<Rightarrow> (nat \<Rightarrow> int) \<Rightarrow> string \<Rightarrow> js_value \<Rightarrow> create_body \<Rightarrow> ('r, 'g, 's) world \<Rightarrow>
   ('r, 'g, 's) world \<times> ('e + response)" where
  "postLinks sv now clock ip apiKey body w =
     (case check_rate sv ip w of
        (w1, Inl r) \<Rightarrow> (w1, Inr r)
      | (w1, Inr hs) \<Rightarrow>
          if (case sv_authenticate sv of None \<Rightarrow> False | Some auth \<Rightarrow> \<not> auth apiKey)
          then (w1, Inr (failure 401 (hs @ [(''www-authenticate'', ''ApiKey realm='' @ quoted ''link-creation'')])
                           ''valid API key required''))
          else (case (case sv_policy sv of Some policy \<Rightarrow> policy (body_url body)
                      | None \<Rightarrow> validHttpUrl (sv_newURL sv) (body_url body)) of
                  None \<Rightarrow> (w1, Inr (failure 400 hs ''url must be a valid and publicly reachable http or https URL''))
                | Some targetUrl \<Rightarrow>
                    if targetUrl = []
                    then (w1, Inr (failure 400 hs ''url must be a valid and publicly reachable http or https URL''))
                    else if \<not> valid_custom (body_customCode body)
                    then (w1, Inr (failure 400 hs ''customCode must be 4-32 URL-safe characters''))
                    else if \<not> valid_ttl (body_expiresInSeconds body)
                    then (w1, Inr (failure 400 hs ''expiresInSeconds must be an integer from 1 to 31536000''))
                    else create_attempts sv clock hs (body_customCode body) targetUrl
                           (expiry_of now (body_expiresInSeconds body)) 5 w1))"

section \<open>The other routes\<close>

definition getCode ::
  "('r, 'g, 's, 'e) services \<Rightarrow> int \<Rightarrow> string \<Rightarrow> ('r, 'g, 's) world \<Rightarrow> ('r, 'g, 's) world \<times> ('e + response)" where
  "getCode sv now code w =
     (let missed = (\<lambda>w. (w\<lparr>w_metrics := mt_miss (w_metrics w)\<rparr>, Inr (failure 404 [] ''link not found'')))
      in if \<not> CODE_PATTERN code then missed w
         else case sv_find sv now code (w_store w) of
                (s, Inl e) \<Rightarrow> (w\<lparr>w_store := s\<rparr>, Inl e)
              | (s, Inr None) \<Rightarrow> missed (w\<lparr>w_store := s\<rparr>)
              | (s, Inr (Some link)) \<Rightarrow>
                  (case sv_recordClick sv (link_code link) s of
                     (s', Inl e) \<Rightarrow> (w\<lparr>w_store := s'\<rparr>, Inl e)
                   | (s', Inr _) \<Rightarrow>
                       (w\<lparr>w_store := s', w_metrics := mt_redirect (w_metrics w)\<rparr>,
                        Inr \<lparr>status = 302, headers = [(''location'', link_targetUrl link)], content = NoContent\<rparr>)))"

definition getLink ::
  "('r, 'g, 's, 'e) services \<Rightarrow> int \<Rightarrow> string \<Rightarrow> ('r, 'g, 's) world \<Rightarrow> ('r, 'g, 's) world \<times> ('e + response)" where
  "getLink sv now code w =
     (case sv_find sv now code (w_store w) of
        (s, Inl e) \<Rightarrow> (w\<lparr>w_store := s\<rparr>, Inl e)
      | (s, Inr None) \<Rightarrow> (w\<lparr>w_store := s\<rparr>, Inr (failure 404 [] ''link not found''))
      | (s, Inr (Some link)) \<Rightarrow>
          (w\<lparr>w_store := s\<rparr>,
           Inr (send 200 []
             [(''code'', JStr (link_code link)), (''targetUrl'', JStr (link_targetUrl link)),
              (''shortUrl'', JStr (sv_baseUrl sv @ ''/'' @ link_code link)), (''clicks'', JNum (int_text (link_clicks link))),
              (''createdAt'', JStr (toISOString (link_createdAt link))), (''expiresAt'', iso_or_null (link_expiresAt link))])))"

definition getReady :: "('r, 'g, 's, 'e) services \<Rightarrow> ('r, 'g, 's) world \<Rightarrow> response" where
  "getReady sv w =
     (if \<not> sv_isHealthy sv (w_store w) then send 503 [] [(''status'', JStr ''not_ready'')]
      else send 200 [] [(''status'', JStr ''ready'')])"

definition getHealth :: response where
  "getHealth = send 200 [] [(''status'', JStr ''ok'')]"

text \<open>The metrics of the process; \<open>extra\<close> is what \<open>extraMetrics\<close> gives, \<open>None\<close> when it rejects or is absent.\<close>

definition getMetrics :: "string \<Rightarrow> string option \<Rightarrow> response" where
  "getMetrics rendered extra =
     \<lparr>status = 200, headers = [(''content-type'', ''text/plain; version=0.0.4'')],
      content = PlainContent (rendered @ (case extra of None \<Rightarrow> [] | Some s \<Rightarrow> s))\<rparr>"

section \<open>The handlers on a link store\<close>

text \<open>The store operations of the services are those of a store that does not fail.\<close>

definition uses_store ::
  "('r, 'g, 's, 'e) services \<Rightarrow> (int \<Rightarrow> create_input \<Rightarrow> 's \<Rightarrow> 's \<times> link option) \<Rightarrow>
   (int \<Rightarrow> string \<Rightarrow> 's \<Rightarrow> 's \<times> link option) \<Rightarrow> (string \<Rightarrow> 's \<Rightarrow> 's) \<Rightarrow> bool" where
  "uses_store sv cr fi cl \<longleftrightarrow>
     (\<forall>now i s. sv_create sv now i s = (fst (cr now i s), Inr (snd (cr now i s)))) \<and>
     (\<forall>now c s. sv_find sv now c s = (fst (fi now c s), Inr (snd (fi now c s)))) \<and>
     (\<forall>c s. sv_recordClick sv c s = (cl c s, Inr ()))"

definition good_generator :: "('r, 'g, 's, 'e) services \<Rightarrow> bool" where
  "good_generator sv \<longleftrightarrow> (\<forall>g g' c. sv_codeGenerator sv g = (g', Some c) \<longrightarrow> CODE_PATTERN c)"

definition target_of :: "('r, 'g, 's, 'e) services \<Rightarrow> js_value \<Rightarrow> string option" where
  "target_of sv v = (case sv_policy sv of Some policy \<Rightarrow> policy v | None \<Rightarrow> validHttpUrl (sv_newURL sv) v)"

lemma response_sel [simp]:
  "status (failure n hs e) = n" "status (created_response sv hs code u ex) = 201"
  by (simp_all add: failure_def send_def created_response_def)

text \<open>What a request to create a link did: a link under \<open>code\<close>, or nothing that a lookup could see.\<close>

definition link_made ::
  "(int \<Rightarrow> string \<Rightarrow> 's \<Rightarrow> 's \<times> link option) \<Rightarrow> string \<Rightarrow> string \<Rightarrow> int option \<Rightarrow> 's \<Rightarrow> 's \<Rightarrow> bool" where
  "link_made fi code targetUrl expiresAt s s' \<longleftrightarrow>
     (\<forall>t. \<not> expired t expiresAt \<longrightarrow> (\<exists>l. snd (fi t code s') = Some l \<and> link_code l = code \<and>
        link_targetUrl l = targetUrl \<and> link_expiresAt l = expiresAt \<and> link_clicks l = 0)) \<and>
     (\<forall>t c l. snd (fi t c s) = Some l \<longrightarrow> snd (fi t c s') = Some l)"

definition same_lookups :: "(int \<Rightarrow> string \<Rightarrow> 's \<Rightarrow> 's \<times> link option) \<Rightarrow> 's \<Rightarrow> 's \<Rightarrow> bool" where
  "same_lookups fi s s' \<longleftrightarrow> (\<forall>t c. snd (fi t c s') = snd (fi t c s))"

context durable_link_store
begin

lemma link_made_create:
  assumes "inv s" "accepts i" "snd (create now i s) = Some l"
  shows "link_made find (input_code i) (input_targetUrl i) (input_expiresAt i) s (fst (create now i s))"
  using assms create_link [OF assms] find_created [OF assms] create_keeps [OF assms(1,2)]
  by (simp add: link_made_def)

lemma attempts_correct:
  assumes "uses_store sv create find recordClick" "good_generator sv" "valid_custom custom"
    and "\<And>code source. CODE_PATTERN code \<Longrightarrow>
       accepts \<lparr>input_code = code, input_targetUrl = targetUrl, input_expiresAt = expiresAt, input_codeSource = source\<rparr>"
    and "inv (w_store w)" "create_attempts sv clock hs custom targetUrl expiresAt left w = (w', res)"
  shows "\<exists>r. res = Inr r \<and> inv (w_store w') \<and> w_limiter w' = w_limiter w \<and>
     (if status r = 201
      then w_metrics w' = mt_created (w_metrics w) \<and>
        (\<exists>code. r = created_response sv hs code targetUrl expiresAt \<and> CODE_PATTERN code \<and>
           (\<forall>c. custom = JsString c \<longrightarrow> code = c) \<and> link_made find code targetUrl expiresAt (w_store w) (w_store w'))
      else status r \<in> {409, 503} \<and> w_metrics w' = w_metrics w \<and> same_lookups find (w_store w) (w_store w'))"
  using assms(5,6)
proof (induction left arbitrary: w)
  case 0
  then show ?case by (auto simp: same_lookups_def)
next
  case (Suc left)
  obtain w1 code where w1: "(case custom of JsString s \<Rightarrow> (w, Some s)
      | _ \<Rightarrow> (case sv_codeGenerator sv (w_codes w) of (g, c) \<Rightarrow> (w\<lparr>w_codes := g\<rparr>, c))) = (w1, code)" by fastforce
  have same: "w_store w1 = w_store w" "w_metrics w1 = w_metrics w" "w_limiter w1 = w_limiter w"
    and pat: "code = Some c \<Longrightarrow> CODE_PATTERN c" "code = Some c \<Longrightarrow> custom = JsString d \<Longrightarrow> c = d"
    and cust: "code = None \<Longrightarrow> custom \<noteq> JsString d" for c d
    using w1 assms(2,3) by (auto simp: good_generator_def valid_custom_def split: js_value.splits prod.splits)
  show ?case
  proof (cases code)
    case None
    with Suc.prems w1 same show ?thesis by (auto simp: same_lookups_def)
  next
    case (Some c)
    let ?i = "\<lparr>input_code = c, input_targetUrl = targetUrl, input_expiresAt = expiresAt,
      input_codeSource = (case custom of JsString _ \<Rightarrow> Custom | _ \<Rightarrow> Generated)\<rparr>"
    obtain s l where cr: "create (clock left) ?i (w_store w) = (s, l)" by fastforce
    have sc: "sv_create sv (clock left) ?i (w_store w) = (s, Inr l)" using assms(1) cr by (simp add: uses_store_def)
    have ok: "accepts ?i" using assms(4) pat(1) [OF Some] by blast
    have inv': "inv s" using create_inv [OF Suc.prems(1) ok, of "clock left"] cr by simp
    show ?thesis
    proof (cases l)
      case (Some link)
      have "link_made find c targetUrl expiresAt (w_store w) s"
        using link_made_create [OF Suc.prems(1) ok, of "clock left" link] cr Some by simp
      moreover have "w' = w1\<lparr>w_store := s, w_metrics := mt_created (w_metrics w1)\<rparr>"
        "res = Inr (created_response sv hs c targetUrl expiresAt)"
        using Suc.prems(2) w1 \<open>code = Some c\<close> sc Some same by (simp_all add: Let_def)
      ultimately show ?thesis using inv' same pat \<open>code = Some c\<close> by auto
    next
      case None
      have lk: "same_lookups find (w_store w) s"
        using create_refused [OF Suc.prems(1) ok, of "clock left"] cr None by (simp add: same_lookups_def)
      show ?thesis
      proof (cases "custom = JsUndefined")
        case False
        then have "w' = w1\<lparr>w_store := s\<rparr>" "res = Inr (failure 409 hs ''customCode is already in use'')"
          using Suc.prems(2) w1 \<open>code = Some c\<close> sc None same by (simp_all add: Let_def)
        with lk inv' same show ?thesis by simp
      next
        case True
        have "create_attempts sv clock hs custom targetUrl expiresAt left (w1\<lparr>w_store := s\<rparr>) = (w', res)"
          using Suc.prems(2) w1 \<open>code = Some c\<close> sc None same True by (simp add: Let_def)
        moreover have w1s: "w_store (w1\<lparr>w_store := s\<rparr>) = s" "w_metrics (w1\<lparr>w_store := s\<rparr>) = w_metrics w"
          "w_limiter (w1\<lparr>w_store := s\<rparr>) = w_limiter w" by (simp_all add: same)
        ultimately obtain r where r: "res = Inr r" "inv (w_store w')" "w_limiter w' = w_limiter w"
          "if status r = 201
           then w_metrics w' = mt_created (w_metrics w) \<and>
             (\<exists>code. r = created_response sv hs code targetUrl expiresAt \<and> CODE_PATTERN code \<and>
                (\<forall>c. custom = JsString c \<longrightarrow> code = c) \<and> link_made find code targetUrl expiresAt s (w_store w'))
           else status r \<in> {409, 503} \<and> w_metrics w' = w_metrics w \<and> same_lookups find s (w_store w')"
          using Suc.IH [of "w1\<lparr>w_store := s\<rparr>", unfolded w1s, OF inv'] by blast
        have "link_made find c targetUrl expiresAt s x \<Longrightarrow> link_made find c targetUrl expiresAt (w_store w) x"
          "same_lookups find s x \<Longrightarrow> same_lookups find (w_store w) x" for c x
          using lk by (simp_all add: link_made_def same_lookups_def)
        with r show ?thesis by (auto split: if_splits)
      qed
    qed
  qed
qed

end

section \<open>The service on PostgreSQL\<close>

definition admitted_by :: "('r, 'g, 's, 'e) services \<Rightarrow> string \<Rightarrow> ('r, 'g, 's) world \<Rightarrow> bool" where
  "admitted_by sv ip w \<longleftrightarrow>
     (case sv_consume sv of None \<Rightarrow> True | Some limiter \<Rightarrow> admitted (snd (limiter ip (w_limiter w))))"

lemma check_rate_cases:
  assumes "check_rate sv ip w = (w1, q)"
  shows "w_store w1 = w_store w \<and> w_metrics w1 = w_metrics w \<and>
     (case q of Inl r \<Rightarrow> status r \<in> {429, 503} \<and> \<not> admitted_by sv ip w | Inr hs \<Rightarrow> admitted_by sv ip w)"
  using assms
  by (auto simp: check_rate_def admitted_by_def admitted_def split: option.splits prod.splits sum.splits if_splits)

lemma post_attempts:
  assumes "postLinks sv now clock ip apiKey body w = (w', res)"
  obtains (refused) r where "res = Inr r" "status r \<in> {400, 401, 429, 503}" "w_store w' = w_store w" "w_metrics w' = w_metrics w"
  | (tried) w1 hs u where "w_store w1 = w_store w" "w_metrics w1 = w_metrics w"
      "create_attempts sv clock hs (body_customCode body) u (expiry_of now (body_expiresInSeconds body)) 5 w1 = (w', res)"
      "admitted_by sv ip w" "\<forall>auth. sv_authenticate sv = Some auth \<longrightarrow> auth apiKey" "target_of sv (body_url body) = Some u"
      "u \<noteq> []" "valid_custom (body_customCode body)" "valid_ttl (body_expiresInSeconds body)"
proof -
  obtain w1 q where q: "check_rate sv ip w = (w1, q)" by fastforce
  note cr = check_rate_cases [OF q]
  show ?thesis
  proof (cases q)
    case (Inl r)
    with assms q cr show ?thesis by (intro refused [of r]) (auto simp: postLinks_def)
  next
    case (Inr hs)
    show ?thesis
    proof (cases "create_attempts sv clock hs (body_customCode body) (the (target_of sv (body_url body)))
        (expiry_of now (body_expiresInSeconds body)) 5 w1 = (w', res) \<and>
        (\<forall>auth. sv_authenticate sv = Some auth \<longrightarrow> auth apiKey) \<and> target_of sv (body_url body) \<noteq> None \<and>
        the (target_of sv (body_url body)) \<noteq> [] \<and> valid_custom (body_customCode body) \<and> valid_ttl (body_expiresInSeconds body)")
      case True
      with cr Inr show ?thesis by (intro tried [of w1 hs "the (target_of sv (body_url body))"]) auto
    next
      case False
      have "w' = w1 \<and> (\<exists>r. res = Inr r \<and> status r \<in> {400, 401})"
        using assms q Inr False
        by (auto simp: postLinks_def target_of_def [symmetric] split: if_splits option.splits)
      with cr Inr show ?thesis by (auto intro: refused)
    qed
  qed
qed

context postgres
begin

lemma pg_store: "durable_link_store (pg_create_ok E) (pg_find_ok E) (pg_click_ok E) (\<lambda>_. True) input_ok"
  by (rule pg.durable_link_store_axioms)

end

lemma create_over_http:
  assumes "postgres E" "uses_store sv (pg_create_ok E) (pg_find_ok E) (pg_click_ok E)" "good_generator sv"
    and "\<And>u. target_of sv (body_url body) = Some u \<Longrightarrow> length u \<le> 2048"
    and "postLinks sv now clock ip apiKey body w = (w', res)"
  shows "\<exists>r. res = Inr r \<and>
     (if status r = 201
      then \<exists>hs code u. r = created_response sv hs code u (expiry_of now (body_expiresInSeconds body)) \<and>
         admitted_by sv ip w \<and> (\<forall>auth. sv_authenticate sv = Some auth \<longrightarrow> auth apiKey) \<and>
         target_of sv (body_url body) = Some u \<and> CODE_PATTERN code \<and>
         (\<forall>c. body_customCode body = JsString c \<longrightarrow> code = c) \<and> valid_ttl (body_expiresInSeconds body) \<and>
         link_made (pg_find_ok E) code u (expiry_of now (body_expiresInSeconds body)) (w_store w) (w_store w') \<and>
         w_metrics w' = mt_created (w_metrics w)
      else status r \<in> {400, 401, 409, 429, 503} \<and> same_lookups (pg_find_ok E) (w_store w) (w_store w') \<and>
         w_metrics w' = w_metrics w)"
  using assms(5)
proof (cases rule: post_attempts)
  case (refused r)
  then show ?thesis by (auto simp: same_lookups_def)
next
  case (tried w1 hs u)
  have pg: "durable_link_store (pg_create_ok E) (pg_find_ok E) (pg_click_ok E) (\<lambda>_. True) input_ok"
    by (rule postgres.pg_store [OF assms(1)])
  have acc: "input_ok \<lparr>input_code = code, input_targetUrl = u, input_expiresAt = ex, input_codeSource = source\<rparr>"
    if "CODE_PATTERN code" for code ex source
    using that tried(7) assms(4) [OF tried(6)] by (cases u) (simp_all add: input_ok_def)
  obtain r where r: "res = Inr r" "if status r = 201
      then w_metrics w' = mt_created (w_metrics w1) \<and>
        (\<exists>code. r = created_response sv hs code u (expiry_of now (body_expiresInSeconds body)) \<and> CODE_PATTERN code \<and>
           (\<forall>c. body_customCode body = JsString c \<longrightarrow> code = c) \<and>
           link_made (pg_find_ok E) code u (expiry_of now (body_expiresInSeconds body)) (w_store w1) (w_store w'))
      else status r \<in> {409, 503} \<and> w_metrics w' = w_metrics w1 \<and> same_lookups (pg_find_ok E) (w_store w1) (w_store w')"
    using durable_link_store.attempts_correct [OF pg assms(2,3) tried(8) acc TrueI tried(3)] by blast
  show ?thesis
  proof (cases "status r = 201")
    case True
    with r(2) obtain code where "r = created_response sv hs code u (expiry_of now (body_expiresInSeconds body))"
      "CODE_PATTERN code" "\<forall>c. body_customCode body = JsString c \<longrightarrow> code = c"
      "link_made (pg_find_ok E) code u (expiry_of now (body_expiresInSeconds body)) (w_store w1) (w_store w')"
      "w_metrics w' = mt_created (w_metrics w1)" by auto
    with True r(1) tried show ?thesis by auto
  next
    case False
    with r tried(1,2) show ?thesis by auto
  qed
qed

definition demo_services :: "(unit, unit, ref_db, store_error) services" where
  "demo_services = \<lparr>sv_consume = None, sv_authenticate = Some (\<lambda>k. k = JsString ''key''),
     sv_policy = Some (\<lambda>v. if v = JsString ''https://example.com'' then Some ''https://example.com/'' else None),
     sv_newURL = (\<lambda>_. None), sv_codeGenerator = (\<lambda>g. (g, None)),
     sv_create = (\<lambda>now i s. (fst (pg_create_ok ref_pg now i s), Inr (snd (pg_create_ok ref_pg now i s)))),
     sv_find = (\<lambda>now c s. (fst (pg_find_ok ref_pg now c s), Inr (snd (pg_find_ok ref_pg now c s)))),
     sv_recordClick = (\<lambda>c s. (pg_click_ok ref_pg c s, Inr ())), sv_isHealthy = (\<lambda>_. True),
     sv_baseUrl = ''https://s.test''\<rparr>"

definition demo_world :: "(unit, unit, ref_db) world" where
  "demo_world = \<lparr>w_limiter = (), w_codes = (), w_store = ref_db_empty, w_metrics = init_metrics\<rparr>"

definition demo_body :: create_body where
  "demo_body = \<lparr>body_url = JsString ''https://example.com'', body_customCode = JsString ''docs'',
     body_expiresInSeconds = JsNumber (IntNum 60)\<rparr>"

lemma demo_uses: "uses_store demo_services (pg_create_ok ref_pg) (pg_find_ok ref_pg) (pg_click_ok ref_pg)"
  "good_generator demo_services" "target_of demo_services (body_url demo_body) = Some ''https://example.com/''"
  by (simp_all add: uses_store_def demo_services_def good_generator_def target_of_def demo_body_def)

lemma demo_created:
  "\<exists>w1. postLinks demo_services 1000 (\<lambda>_. 1000) ''ip'' (JsString ''key'') demo_body demo_world =
     (w1, Inr (created_response demo_services [] ''docs'' ''https://example.com/'' (Some 61000)))"
proof -
  let ?i = "\<lparr>input_code = ''docs'', input_targetUrl = ''https://example.com/'', input_expiresAt = Some 61000, input_codeSource = Custom\<rparr>"
  have "input_ok ?i" by (simp add: input_ok_def CODE_PATTERN_def code_char_def)
  from ref_engine.create_eq [OF this, of ref_db_empty 1000]
  obtain l where l: "snd (pg_create_ok ref_pg 1000 ?i ref_db_empty) = Some l" by simp
  have v: "valid_custom (body_customCode demo_body)" "valid_ttl (body_expiresInSeconds demo_body)"
    "expiry_of 1000 (body_expiresInSeconds demo_body) = Some 61000"
    by (simp_all add: valid_custom_def valid_ttl_def expiry_of_def demo_body_def CODE_PATTERN_def code_char_def
        isSafeInteger_def MAX_SAFE_INTEGER_def)
  have a: "create_attempts demo_services (\<lambda>_. 1000) [] (body_customCode demo_body) ''https://example.com/'' (Some 61000) (Suc 4) demo_world =
      (demo_world\<lparr>w_store := fst (pg_create_ok ref_pg 1000 ?i ref_db_empty), w_metrics := mt_created init_metrics\<rparr>,
       Inr (created_response demo_services [] ''docs'' ''https://example.com/'' (Some 61000)))"
    unfolding create_attempts.simps(2)
    using l by (simp add: demo_services_def demo_body_def demo_world_def)
  have "check_rate demo_services ''ip'' demo_world = (demo_world, Inr [])" "sv_authenticate demo_services = Some (\<lambda>k. k = JsString ''key'')"
    by (simp_all add: check_rate_def demo_services_def)
  then show ?thesis using a v demo_uses(3) by (simp add: postLinks_def target_of_def eval_nat_numeral split: option.splits)
qed



context postgres
begin

lemma found_code: "snd (pg_find_ok E now c p) = Some l \<Longrightarrow> link_code l = c"
  by (auto simp: find_iff mapLink_def)

lemma getCode_effect:
  assumes "uses_store sv (pg_create_ok E) (pg_find_ok E) (pg_click_ok E)" "getCode sv now code w = (w', res)"
  shows "if CODE_PATTERN code \<and> snd (pg_find_ok E now code (w_store w)) \<noteq> None
     then \<exists>l. snd (pg_find_ok E now code (w_store w)) = Some l \<and>
       res = Inr \<lparr>status = 302, headers = [(''location'', link_targetUrl l)], content = NoContent\<rparr> \<and>
       w_store w' = pg_click_ok E code (w_store w) \<and> w_metrics w' = mt_redirect (w_metrics w)
     else res = Inr (failure 404 [] ''link not found'') \<and> w_store w' = w_store w \<and> w_metrics w' = mt_miss (w_metrics w)"
proof -
  have f: "sv_find sv now code (w_store w) = (w_store w, Inr (snd (pg_find_ok E now code (w_store w))))"
    "sv_recordClick sv c s = (pg_click_ok E c s, Inr ())" for c s
    using assms(1) by (simp_all add: uses_store_def pg_find_ok_def)
  show ?thesis
  proof (cases "snd (pg_find_ok E now code (w_store w))")
    case None
    with assms(2) f show ?thesis by (auto simp: getCode_def Let_def split: if_splits)
  next
    case (Some l)
    with assms(2) f found_code [OF Some] show ?thesis by (auto simp: getCode_def Let_def split: if_splits)
  qed
qed

end



end
