(* ===== verification/Cluster_Metrics.thy ===== *)
theory Cluster_Metrics
  imports Metrics "HOL-Library.Multiset"
begin

text \<open>
  \<open>src/src/cluster-metrics.ts\<close>: the metrics of a worker process, which sends them in batches to the
  primary, and the aggregation there.  What crosses the channel between processes is a value of
  the language, \<open>jsv\<close>, which the receiver validates.
\<close>

section \<open>Values on the channel\<close>

datatype jsv = VUndefined | VNull | VBool bool | VNum "rat option" | VStr string | VArr "jsv list" | VObj "(string \<times> jsv) list"

definition vfield :: "jsv \<Rightarrow> string \<Rightarrow> jsv" where
  "vfield v name = (case v of VObj fs \<Rightarrow> (case js_get fs name of Some x \<Rightarrow> x | None \<Rightarrow> VUndefined) | _ \<Rightarrow> VUndefined)"

definition is_object :: "jsv \<Rightarrow> bool" where
  "is_object v \<longleftrightarrow> (case v of VObj _ \<Rightarrow> True | VArr _ \<Rightarrow> True | _ \<Rightarrow> False)"

definition integer_of :: "rat \<Rightarrow> int option" where
  "integer_of r = (case quotient_of r of (p, q) \<Rightarrow> if q = 1 then Some p else None)"

section \<open>Validation\<close>

definition isNonNegativeSafeInteger :: "jsv \<Rightarrow> bool" where
  "isNonNegativeSafeInteger v \<longleftrightarrow>
     (case v of VNum (Some r) \<Rightarrow> (case integer_of r of Some n \<Rightarrow> isSafeInteger n \<and> 0 \<le> n | None \<Rightarrow> False) | _ \<Rightarrow> False)"

definition isNonNegativeFiniteNumber :: "jsv \<Rightarrow> bool" where
  "isNonNegativeFiniteNumber v \<longleftrightarrow> (case v of VNum (Some r) \<Rightarrow> 0 \<le> r | _ \<Rightarrow> False)"

definition nonempty_string :: "jsv \<Rightarrow> bool" where
  "nonempty_string v \<longleftrightarrow> (case v of VStr s \<Rightarrow> 0 < length s | _ \<Rightarrow> False)"

definition isRequestDurationSnapshot :: "jsv \<Rightarrow> bool" where
  "isRequestDurationSnapshot v \<longleftrightarrow>
     is_object v \<and>
     (case vfield v ''buckets'' of
        VArr bs \<Rightarrow> length bs = length REQUEST_DURATION_BUCKETS \<and> isNonNegativeFiniteNumber (vfield v ''sum'') \<and>
          isNonNegativeSafeInteger (vfield v ''count'') \<and> list_all isNonNegativeSafeInteger bs
      | _ \<Rightarrow> False)"

definition isHttpRequestMetricsSnapshot :: "jsv \<Rightarrow> bool" where
  "isHttpRequestMetricsSnapshot v \<longleftrightarrow>
     is_object v \<and> nonempty_string (vfield v ''method'') \<and> nonempty_string (vfield v ''route'') \<and>
     (case vfield v ''statusCode'' of
        VNum (Some r) \<Rightarrow> (case integer_of r of Some n \<Rightarrow> isSafeInteger n \<and> 100 \<le> n \<and> n \<le> 599 | None \<Rightarrow> False)
      | _ \<Rightarrow> False) \<and>
     isNonNegativeSafeInteger (vfield v ''requests'') \<and> isRequestDurationSnapshot (vfield v ''requestDuration'')"

definition isCounterRecord :: "jsv \<Rightarrow> bool" where
  "isCounterRecord v \<longleftrightarrow>
     (case v of
        VUndefined \<Rightarrow> True
      | VObj fs \<Rightarrow> list_all (\<lambda>(name, n). COUNTER_NAME_PATTERN name \<and> isNonNegativeSafeInteger n) fs
      | _ \<Rightarrow> False)"

definition isMetricsSnapshot :: "jsv \<Rightarrow> bool" where
  "isMetricsSnapshot v \<longleftrightarrow>
     is_object v \<and> isCounterRecord (vfield v ''counters'') \<and> isNonNegativeSafeInteger (vfield v ''created'') \<and>
     isNonNegativeSafeInteger (vfield v ''redirects'') \<and> isNonNegativeSafeInteger (vfield v ''misses'') \<and>
     (case vfield v ''httpRequests'' of VArr ss \<Rightarrow> list_all isHttpRequestMetricsSnapshot ss | _ \<Rightarrow> False)"

definition isWorkerMetricsMessage :: "jsv \<Rightarrow> bool" where
  "isWorkerMetricsMessage v \<longleftrightarrow>
     is_object v \<and>
     (if vfield v ''type'' = VStr ''metrics:batch'' then isMetricsSnapshot (vfield v ''snapshot'')
      else if vfield v ''type'' = VStr ''metrics:snapshot-request'' \<or> vfield v ''type'' = VStr ''metrics:flush-response''
      then nonempty_string (vfield v ''requestId'')
      else False)"

definition isPrimaryMetricsMessage :: "jsv \<Rightarrow> bool" where
  "isPrimaryMetricsMessage v \<longleftrightarrow>
     is_object v \<and>
     (if vfield v ''type'' = VStr ''metrics:flush-request'' then nonempty_string (vfield v ''requestId'')
      else vfield v ''type'' = VStr ''metrics:snapshot-response'' \<and> nonempty_string (vfield v ''requestId'') \<and>
           isMetricsSnapshot (vfield v ''snapshot''))"

section \<open>Snapshots as values\<close>

definition num :: "int \<Rightarrow> jsv" where
  "num n = VNum (Some (of_int n))"

definition encode_duration :: "request_duration \<Rightarrow> jsv" where
  "encode_duration d = VObj [(''buckets'', VArr (map (\<lambda>n. num (int n)) (buckets d))), (''sum'', VNum (Some (dur_sum d))),
     (''count'', num (int (dur_count d)))]"

definition encode_series :: "http_series \<Rightarrow> jsv" where
  "encode_series s = VObj [(''method'', VStr (sr_method s)), (''route'', VStr (sr_route s)),
     (''statusCode'', num (sr_statusCode s)), (''requests'', num (int (sr_requests s))),
     (''requestDuration'', encode_duration (sr_duration s))]"

definition encode_snapshot :: "snapshot \<Rightarrow> jsv" where
  "encode_snapshot s = VObj ([(''created'', num (int (sn_created s))), (''redirects'', num (int (sn_redirects s))),
     (''misses'', num (int (sn_misses s))), (''httpRequests'', VArr (map encode_series (sn_httpRequests s)))] @
     (case sn_counters s of None \<Rightarrow> [] | Some m \<Rightarrow> [(''counters'', VObj (map (\<lambda>(n, v). (n, num v)) m))]))"

definition int_at :: "jsv \<Rightarrow> int" where
  "int_at v = (case v of VNum (Some r) \<Rightarrow> (case integer_of r of Some n \<Rightarrow> n | None \<Rightarrow> 0) | _ \<Rightarrow> 0)"

definition str_at :: "jsv \<Rightarrow> string" where
  "str_at v = (case v of VStr s \<Rightarrow> s | _ \<Rightarrow> [])"

definition items :: "jsv \<Rightarrow> jsv list" where
  "items v = (case v of VArr xs \<Rightarrow> xs | _ \<Rightarrow> [])"

definition decode_duration :: "jsv \<Rightarrow> request_duration" where
  "decode_duration v = \<lparr>buckets = map (\<lambda>b. nat (int_at b)) (items (vfield v ''buckets'')),
     dur_sum = (case vfield v ''sum'' of VNum (Some r) \<Rightarrow> r | _ \<Rightarrow> 0), dur_count = nat (int_at (vfield v ''count''))\<rparr>"

definition decode_series :: "jsv \<Rightarrow> http_series" where
  "decode_series v = \<lparr>sr_method = str_at (vfield v ''method''), sr_route = str_at (vfield v ''route''),
     sr_statusCode = int_at (vfield v ''statusCode''), sr_requests = nat (int_at (vfield v ''requests'')),
     sr_duration = decode_duration (vfield v ''requestDuration'')\<rparr>"

definition decode_snapshot :: "jsv \<Rightarrow> snapshot" where
  "decode_snapshot v = \<lparr>sn_created = nat (int_at (vfield v ''created'')), sn_redirects = nat (int_at (vfield v ''redirects'')),
     sn_misses = nat (int_at (vfield v ''misses'')), sn_httpRequests = map decode_series (items (vfield v ''httpRequests'')),
     sn_counters = (case vfield v ''counters'' of VObj fs \<Rightarrow> Some (map (\<lambda>(n, x). (n, int_at x)) fs) | _ \<Rightarrow> None)\<rparr>"

definition batch_message :: "snapshot \<Rightarrow> jsv" where
  "batch_message s = VObj [(''type'', VStr ''metrics:batch''), (''snapshot'', encode_snapshot s)]"

definition id_message :: "string \<Rightarrow> string \<Rightarrow> jsv" where
  "id_message kind requestId = VObj [(''type'', VStr kind), (''requestId'', VStr requestId)]"

definition snapshot_response :: "string \<Rightarrow> snapshot \<Rightarrow> jsv" where
  "snapshot_response requestId s =
     VObj [(''type'', VStr ''metrics:snapshot-response''), (''requestId'', VStr requestId), (''snapshot'', encode_snapshot s)]"

section \<open>The collector of a worker\<close>

text \<open>\<open>cm_pending\<close> holds the snapshot requests that wait for an answer.\<close>

record cluster_metrics =
  cm_pending :: "string list"
  cm_snapshot :: snapshot
  cm_nextRequestId :: nat
  cm_timer :: bool
  cm_listening :: bool

definition ClusterMetrics :: "bool \<Rightarrow> cluster_metrics" where
  "ClusterMetrics canSend =
     \<lparr>cm_pending = [], cm_snapshot = emptyMetricsSnapshot, cm_nextRequestId = 0, cm_timer = canSend, cm_listening = True\<rparr>"

definition previous_bound :: "nat \<Rightarrow> rat" where
  "previous_bound i = (if i = 0 then 0 else REQUEST_DURATION_BUCKETS ! (i - 1))"

definition single_series :: "string \<Rightarrow> string \<Rightarrow> int \<Rightarrow> rat \<Rightarrow> http_series" where
  "single_series meth route statusCode t =
     \<lparr>sr_method = meth, sr_route = route, sr_statusCode = statusCode, sr_requests = 1,
      sr_duration = \<lparr>buckets = map (\<lambda>i. if t \<le> REQUEST_DURATION_BUCKETS ! i \<and> previous_bound i < t then 1 else 0)
                                   [0 ..< length REQUEST_DURATION_BUCKETS],
                     dur_sum = t, dur_count = 1\<rparr>\<rparr>"

definition cm_request :: "string \<Rightarrow> string \<Rightarrow> js_number \<Rightarrow> rat option \<Rightarrow> cluster_metrics \<Rightarrow> cluster_metrics" where
  "cm_request meth route statusCode seconds c =
     (case (statusCode, seconds) of
        (IntNum n, Some t) \<Rightarrow>
          if \<not> valid_request meth route statusCode seconds then c
          else c\<lparr>cm_snapshot := addMetricsSnapshot (cm_snapshot c)
                   (emptyMetricsSnapshot\<lparr>sn_httpRequests := [single_series meth route n t]\<rparr>)\<rparr>
      | _ \<Rightarrow> c)"

definition cm_created :: "cluster_metrics \<Rightarrow> cluster_metrics" where
  "cm_created c = c\<lparr>cm_snapshot := (cm_snapshot c)\<lparr>sn_created := sn_created (cm_snapshot c) + 1\<rparr>\<rparr>"

definition cm_redirect :: "cluster_metrics \<Rightarrow> cluster_metrics" where
  "cm_redirect c = c\<lparr>cm_snapshot := (cm_snapshot c)\<lparr>sn_redirects := sn_redirects (cm_snapshot c) + 1\<rparr>\<rparr>"

definition cm_miss :: "cluster_metrics \<Rightarrow> cluster_metrics" where
  "cm_miss c = c\<lparr>cm_snapshot := (cm_snapshot c)\<lparr>sn_misses := sn_misses (cm_snapshot c) + 1\<rparr>\<rparr>"

definition cm_increment :: "string \<Rightarrow> js_number \<Rightarrow> cluster_metrics \<Rightarrow> cluster_metrics" where
  "cm_increment name v c = c\<lparr>cm_snapshot := addCounter name v (cm_snapshot c)\<rparr>"

definition isEmptySnapshot :: "snapshot \<Rightarrow> bool" where
  "isEmptySnapshot s \<longleftrightarrow> sn_created s = 0 \<and> sn_redirects s = 0 \<and> sn_misses s = 0 \<and> length (sn_httpRequests s) = 0 \<and>
     length (case sn_counters s of None \<Rightarrow> [] | Some m \<Rightarrow> m) = 0"

text \<open>\<open>canSend\<close>: the process has a channel; \<open>sent\<close>: sending did not throw.  The messages sent are returned.\<close>

definition cm_flush :: "bool \<Rightarrow> bool \<Rightarrow> cluster_metrics \<Rightarrow> cluster_metrics \<times> jsv list" where
  "cm_flush canSend sent c =
     (if \<not> canSend \<or> isEmptySnapshot (cm_snapshot c) then (c, [])
      else if sent then (c\<lparr>cm_snapshot := emptyMetricsSnapshot\<rparr>, [batch_message (cm_snapshot c)])
      else (c\<lparr>cm_snapshot := addMetricsSnapshot emptyMetricsSnapshot (cm_snapshot c)\<rparr>, []))"

definition cm_close :: "bool \<Rightarrow> bool \<Rightarrow> cluster_metrics \<Rightarrow> cluster_metrics \<times> jsv list" where
  "cm_close canSend sent c =
     (let (c', out) = cm_flush canSend sent (c\<lparr>cm_timer := False\<rparr>)
      in (c'\<lparr>cm_listening := False, cm_pending := []\<rparr>, out))"

text \<open>A request for a snapshot: the answer if there is no channel, otherwise the message.\<close>

definition requestSnapshot :: "bool \<Rightarrow> string \<Rightarrow> cluster_metrics \<Rightarrow> cluster_metrics \<times> jsv list \<times> snapshot option" where
  "requestSnapshot canSend pid c =
     (if \<not> canSend then (c, [], Some emptyMetricsSnapshot)
      else let n = cm_nextRequestId c + 1; requestId = pid @ '':'' @ js_String n
           in (c\<lparr>cm_nextRequestId := n, cm_pending := cm_pending c @ [requestId]\<rparr>,
               [id_message ''metrics:snapshot-request'' requestId], None))"

definition snapshot_timeout :: "string \<Rightarrow> cluster_metrics \<Rightarrow> cluster_metrics \<times> snapshot" where
  "snapshot_timeout requestId c = (c\<lparr>cm_pending := remove1 requestId (cm_pending c)\<rparr>, emptyMetricsSnapshot)"

text \<open>A message from the primary: what is sent back, and the request that is resolved with its snapshot.\<close>

definition handleMessage :: "bool \<Rightarrow> bool \<Rightarrow> jsv \<Rightarrow> cluster_metrics \<Rightarrow> cluster_metrics \<times> jsv list \<times> (string \<times> snapshot) option" where
  "handleMessage canSend sent v c =
     (if \<not> isPrimaryMetricsMessage v then (c, [], None)
      else let requestId = str_at (vfield v ''requestId'')
           in if vfield v ''type'' = VStr ''metrics:flush-request''
              then (case cm_flush canSend sent c of
                      (c', out) \<Rightarrow> (c', out @ (if canSend then [id_message ''metrics:flush-response'' requestId] else []), None))
              else if requestId \<notin> set (cm_pending c) then (c, [], None)
              else (c\<lparr>cm_pending := remove1 requestId (cm_pending c)\<rparr>, [],
                    Some (requestId, decode_snapshot (vfield v ''snapshot''))))"

section \<open>The aggregator of the primary\<close>

definition aggregator_add :: "snapshot \<Rightarrow> snapshot \<Rightarrow> snapshot" where
  "aggregator_add aggregate s = addMetricsSnapshot aggregate s"

text \<open>What the primary does with a message as far as the aggregate is concerned.\<close>

definition receive :: "jsv \<Rightarrow> snapshot \<Rightarrow> snapshot" where
  "receive v aggregate =
     (if isWorkerMetricsMessage v \<and> vfield v ''type'' = VStr ''metrics:batch''
      then aggregator_add aggregate (decode_snapshot (vfield v ''snapshot'')) else aggregate)"

section \<open>A batch survives the channel\<close>

lemma integer_of_int [simp]: "integer_of (of_int n) = Some n"
  by (simp add: integer_of_def quotient_of_int [unfolded of_int_def] del: of_int_def)

lemma int_at_num [simp]: "int_at (num n) = n"
  by (simp add: int_at_def num_def)

lemma safe_num: "isNonNegativeSafeInteger (num n) \<longleftrightarrow> isSafeInteger n \<and> 0 \<le> n"
  by (simp add: isNonNegativeSafeInteger_def num_def)

lemma decode_duration_encode [simp]: "decode_duration (encode_duration d) = d"
  by (simp add: decode_duration_def encode_duration_def vfield_def items_def o_def)

lemma decode_series_encode [simp]: "decode_series (encode_series s) = s"
  by (simp add: decode_series_def encode_series_def vfield_def str_at_def)

lemma decode_snapshot_encode [simp]: "decode_snapshot (encode_snapshot s) = s"
proof -
  have "map (\<lambda>(n, x). (n, int_at x)) (map (\<lambda>(n, v). (n, num v)) m) = m" for m :: "(string \<times> int) list"
    by (induction m) auto
  moreover have "map decode_series (map encode_series ss) = ss" for ss by (induction ss) simp_all
  ultimately show ?thesis
    by (cases "sn_counters s") (simp_all add: decode_snapshot_def encode_snapshot_def vfield_def items_def del: map_map)
qed

text \<open>A snapshot whose numbers are at most \<open>N\<close>.\<close>

definition series_ok :: "http_series \<Rightarrow> bool" where
  "series_ok s \<longleftrightarrow> sr_method s \<noteq> [] \<and> sr_route s \<noteq> [] \<and> 100 \<le> sr_statusCode s \<and> sr_statusCode s \<le> 599 \<and>
     length (buckets (sr_duration s)) = 11 \<and> 0 \<le> dur_sum (sr_duration s)"

abbreviation bucket :: "nat \<Rightarrow> http_series \<Rightarrow> nat" where
  "bucket i s \<equiv> bucket_at (buckets (sr_duration s)) i"

definition counters_wf :: "snapshot \<Rightarrow> bool" where
  "counters_wf s \<longleftrightarrow> (case sn_counters s of
     None \<Rightarrow> True | Some m \<Rightarrow> js_wf m \<and> (\<forall>(name, v) \<in> set m. COUNTER_NAME_PATTERN name \<and> 0 < v))"

definition snapshot_ok :: "nat \<Rightarrow> snapshot \<Rightarrow> bool" where
  "snapshot_ok N s \<longleftrightarrow>
     sn_created s \<le> N \<and> sn_redirects s \<le> N \<and> sn_misses s \<le> N \<and> list_all series_ok (sn_httpRequests s) \<and>
     (\<forall>k. tally sr_requests k (sn_httpRequests s) \<le> N \<and> tally (\<lambda>s. dur_count (sr_duration s)) k (sn_httpRequests s) \<le> N \<and>
        (\<forall>i < 11. tally (bucket i) k (sn_httpRequests s) \<le> N)) \<and>
     counters_wf s \<and> (\<forall>name. counter_of name s \<le> int N)"

lemma tally_ge:
  fixes f :: "http_series \<Rightarrow> nat"
  shows "s \<in> set ss \<Longrightarrow> f s \<le> tally f (key_of s) ss"
  by (induction ss) auto

lemma safe_nat: "int n \<le> MAX_SAFE_INTEGER \<Longrightarrow> isSafeInteger (int n)"
  by (simp add: isSafeInteger_def MAX_SAFE_INTEGER_def)

lemma counter_of_mem:
  "counters_wf s \<Longrightarrow> sn_counters s = Some m \<Longrightarrow> (name, v) \<in> set m \<Longrightarrow> counter_of name s = v \<and> 0 < v \<and> COUNTER_NAME_PATTERN name"
proof -
  assume c: "counters_wf s" "sn_counters s = Some m" "(name, v) \<in> set m"
  then have "js_get m name = Some v" by (simp add: js_get_iff counters_wf_def)
  with c show ?thesis by (auto simp: counters_wf_def counter_of_def)
qed

lemma snapshot_ok_counters: "snapshot_ok N s \<Longrightarrow> int N \<le> MAX_SAFE_INTEGER \<Longrightarrow> counters_ok s"
proof -
  assume ok: "snapshot_ok N s" "int N \<le> MAX_SAFE_INTEGER"
  then have wf: "counters_wf s" "\<And>name. counter_of name s \<le> int N" by (simp_all add: snapshot_ok_def)
  have "isSafeInteger v" if "sn_counters s = Some m" "(name, v) \<in> set m" for m name v
    using counter_of_mem [OF wf(1) that] wf(2) [of name] ok(2) by (simp add: isSafeInteger_def MAX_SAFE_INTEGER_def)
  with wf(1) show "counters_ok s" by (fastforce simp: counters_ok_def counters_wf_def split: option.splits)
qed

lemma valid_series:
  assumes "series_ok s" "sr_requests s \<le> N" "dur_count (sr_duration s) \<le> N" "\<forall>i < 11. bucket i s \<le> N"
    and "int N \<le> MAX_SAFE_INTEGER"
  shows "isHttpRequestMetricsSnapshot (encode_series s)"
proof -
  let ?d = "sr_duration s"
  have n: "isSafeInteger (int n)" if "n \<le> N" for n using safe_nat [of n] that assms(5) by simp
  have "b \<le> N" if "b \<in> set (buckets ?d)" for b
    using that assms(1,4) by (auto simp: in_set_conv_nth series_ok_def bucket_at_def)
  then have "list_all isNonNegativeSafeInteger (map (\<lambda>n. num (int n)) (buckets ?d))"
    by (auto simp: list_all_iff safe_num n)
  then have "isRequestDurationSnapshot (encode_duration ?d)"
    using assms(1,3) n
    by (simp add: isRequestDurationSnapshot_def encode_duration_def vfield_def is_object_def isNonNegativeFiniteNumber_def
        series_ok_def safe_num)
  moreover have "isNonNegativeSafeInteger (num (int (sr_requests s)))" using n assms(2) by (simp add: safe_num)
  moreover have "isSafeInteger (sr_statusCode s)"
    using assms(1) by (simp add: series_ok_def isSafeInteger_def MAX_SAFE_INTEGER_def)
  ultimately show ?thesis using assms(1)
    by (simp add: isHttpRequestMetricsSnapshot_def encode_series_def vfield_def is_object_def nonempty_string_def
        series_ok_def num_def [of "sr_statusCode s"])
qed

lemma valid_snapshot:
  assumes "snapshot_ok N s" "int N \<le> MAX_SAFE_INTEGER"
  shows "isMetricsSnapshot (encode_snapshot s)"
proof -
  have n: "isSafeInteger (int n)" if "n \<le> N" for n using safe_nat [of n] that assms(2) by simp
  have "isHttpRequestMetricsSnapshot (encode_series x)" if x: "x \<in> set (sn_httpRequests s)" for x
  proof (rule valid_series)
    show "series_ok x" using assms(1) x by (simp add: snapshot_ok_def list_all_iff)
    show "sr_requests x \<le> N" "dur_count (sr_duration x) \<le> N"
      using assms(1) tally_ge [OF x, of sr_requests] tally_ge [OF x, of "\<lambda>s. dur_count (sr_duration s)"]
      unfolding snapshot_ok_def by (meson le_trans)+
    show "\<forall>i < 11. bucket i x \<le> N" using assms(1) tally_ge [OF x] unfolding snapshot_ok_def by (meson le_trans)
  qed (rule assms(2))
  then have "list_all isHttpRequestMetricsSnapshot (map encode_series (sn_httpRequests s))" by (simp add: list_all_iff)
  moreover have "counters_ok s" by (rule snapshot_ok_counters [OF assms])
  then have "isCounterRecord (vfield (encode_snapshot s) ''counters'')"
    by (cases "sn_counters s")
      (auto simp: encode_snapshot_def vfield_def isCounterRecord_def list_all_iff safe_num counters_ok_def)
  moreover have "isSafeInteger (int (sn_created s))" "isSafeInteger (int (sn_redirects s))" "isSafeInteger (int (sn_misses s))"
    using assms(1) n by (simp_all add: snapshot_ok_def)
  ultimately show ?thesis
    by (simp add: isMetricsSnapshot_def encode_snapshot_def vfield_def is_object_def safe_num)
qed

section \<open>Merging keeps a snapshot valid\<close>

lemma additive_bucket: "i < 11 \<Longrightarrow> additive (bucket i)"
  by (simp add: additive_def createHttpSeries_def merged_def addRequestDuration_def emptyRequestDurationSnapshot_def bucket_at_add)

lemma length_set_bucket: "i < length bs \<Longrightarrow> length (set_bucket bs i n) = length bs"
  by (simp add: set_bucket_def)

lemma length_add_buckets: "i + length rest \<le> length bs \<Longrightarrow> length (add_buckets source i rest bs) = length bs"
  by (induction source i rest bs rule: add_buckets.induct) (simp_all add: length_set_bucket)

lemma series_ok_merged: "series_ok s \<Longrightarrow> series_ok x \<Longrightarrow> series_ok (merged x s)"
  by (simp add: series_ok_def merged_def addRequestDuration_def length_add_buckets)

lemma series_ok_fresh: "series_ok x \<Longrightarrow> series_ok (createHttpSeries (sr_method x) (sr_route x) (sr_statusCode x))"
  by (simp add: series_ok_def createHttpSeries_def emptyRequestDurationSnapshot_def)

lemma merge_series_ok:
  assumes "list_all series_ok (fst t)" "series_ok x"
  shows "list_all series_ok (fst (merge_series x t))"
proof -
  let ?fresh = "createHttpSeries (sr_method x) (sr_route x) (sr_statusCode x)"
  obtain i ss m where fs: "find_series (key_of x) ?fresh t = (i, ss, m)" by (metis prod_cases3)
  then have ss: "list_all series_ok ss"
    using assms(1) series_ok_fresh [OF assms(2)] by (auto simp: find_series_def split: option.splits)
  show ?thesis
  proof (cases "i < length ss")
    case True
    then have "series_ok (merged x (ss ! i))" using ss assms(2) by (simp add: list_all_length series_ok_merged)
    then show ?thesis using ss set_update_subset_insert [of ss i "merged x (ss ! i)"]
      by (auto simp: merge_touch touch_def fs list_all_iff)
  next
    case False
    then have "ss[i := merged x (ss ! i)] = ss" by (simp add: list_update_beyond not_less)
    with ss show ?thesis by (simp add: merge_touch touch_def fs)
  qed
qed

lemma merge_fold_ok: "list_all series_ok (fst t) \<Longrightarrow> list_all series_ok xs \<Longrightarrow> list_all series_ok (fst (fold merge_series xs t))"
  by (induction xs arbitrary: t) (simp_all add: merge_series_ok)

lemma counters_wf_add: "counters_wf s \<Longrightarrow> counters_wf (addCounter name v s)"
proof -
  assume wf: "counters_wf s"
  show ?thesis
  proof (cases "addCounter name v s = s")
    case False
    then obtain n where v: "v = IntNum n" "COUNTER_NAME_PATTERN name" "0 < n"
      by (cases v) (auto simp: addCounter_def split: if_splits)
    let ?m = "case sn_counters s of None \<Rightarrow> [] | Some m \<Rightarrow> m"
    have m: "js_wf ?m" "\<forall>(k, x) \<in> set ?m. COUNTER_NAME_PATTERN k \<and> 0 < x"
      using wf by (auto simp: counters_wf_def split: option.splits)
    define new where "new = (case js_get ?m name of None \<Rightarrow> 0 | Some x \<Rightarrow> x) + n"
    have "0 < x" if "js_get ?m name = Some x" for x using js_get_in_set [OF that] m(2) by blast
    then have "0 < new" using v(3) by (fastforce simp: new_def split: option.split)
    moreover have "x = new \<and> k = name \<or> (k, x) \<in> set ?m" if "(k, x) \<in> set (js_set ?m name new)" for k x
    proof -
      have "js_get (js_set ?m name new) k = Some x" using that by (simp only: js_get_iff [OF js_wf_set [OF m(1)]])
      then show ?thesis using js_get_in_set [of ?m k x] by (simp split: if_splits)
    qed
    ultimately have "\<forall>(k, x) \<in> set (js_set ?m name new). COUNTER_NAME_PATTERN k \<and> 0 < x" using m(2) v(2) by fastforce
    moreover have "addCounter name v s = s\<lparr>sn_counters := Some (js_set ?m name new)\<rparr>"
      using False v by (auto simp: addCounter_def new_def Let_def split: if_splits)
    ultimately show ?thesis using m(1) by (simp add: counters_wf_def)
  qed (simp add: wf)
qed

lemma counters_wf_adds: "counters_wf s \<Longrightarrow> counters_wf (add_counters cs s)"
  by (induction cs arbitrary: s) (auto simp: counters_wf_add)

lemma counters_wf_merge: "counters_wf a \<Longrightarrow> counters_wf (addMetricsSnapshot a b)"
proof -
  assume wf: "counters_wf a"
  let ?t = "a\<lparr>sn_created := sn_created a + sn_created b, sn_redirects := sn_redirects a + sn_redirects b,
    sn_misses := sn_misses a + sn_misses b\<rparr>"
  have "counters_wf (case sn_counters b of None \<Rightarrow> ?t | Some cs \<Rightarrow> add_counters cs ?t)"
    using wf counters_wf_adds [of ?t] by (auto simp: counters_wf_def [of a] counters_wf_def [of ?t] split: option.split)
  then show ?thesis unfolding addMetricsSnapshot_def Let_def
    by (simp add: counters_wf_def split: prod.split)
qed

lemma snapshot_ok_merge:
  assumes "snapshot_ok N a" "snapshot_ok M b" "counters_ok b"
  shows "snapshot_ok (N + M) (addMetricsSnapshot a b)"
proof -
  note parts = merge_parts [of "addMetricsSnapshot a b" a b, OF refl]
  note fold = merge_fold [OF index_series_init]
  let ?h = "sn_httpRequests (addMetricsSnapshot a b)"
  have t: "tally f k ?h \<le> N + M"
    if "additive f" "tally f k (sn_httpRequests a) \<le> N" "tally f k (sn_httpRequests b) \<le> M" for f :: "http_series \<Rightarrow> nat" and k
    using fold [OF that(1)] that(2,3) by (simp add: parts(5))
  have "list_all series_ok ?h" using assms(1,2) unfolding parts(5) by (intro merge_fold_ok) (simp_all add: snapshot_ok_def)
  moreover have "counters_wf (addMetricsSnapshot a b)" using assms(1) by (simp add: snapshot_ok_def counters_wf_merge)
  moreover have "counter_of name (addMetricsSnapshot a b) \<le> int (N + M)" for name
  proof -
    have "counter_of name a \<le> int N" "counter_of name b \<le> int M" using assms(1,2) by (simp_all add: snapshot_ok_def)
    then show ?thesis by (simp add: parts(4) [OF assms(3)])
  qed
  moreover have "tally sr_requests k ?h \<le> N + M" "tally (\<lambda>s. dur_count (sr_duration s)) k ?h \<le> N + M"
    "i < 11 \<Longrightarrow> tally (bucket i) k ?h \<le> N + M" for k i
    by (rule t; use assms(1,2) additive_measures additive_bucket in \<open>simp add: snapshot_ok_def\<close>)+
  moreover have "sn_created (addMetricsSnapshot a b) \<le> N + M" "sn_redirects (addMetricsSnapshot a b) \<le> N + M"
    "sn_misses (addMetricsSnapshot a b) \<le> N + M"
    using assms(1,2) unfolding parts(1-3) by (simp_all add: snapshot_ok_def)
  ultimately show ?thesis unfolding snapshot_ok_def by blast
qed

lemma snapshot_ok_empty [simp]: "snapshot_ok N emptyMetricsSnapshot"
  by (simp add: snapshot_ok_def emptyMetricsSnapshot_def counters_wf_def counter_of_def)

lemma counters_ok_empty [simp]: "counters_ok emptyMetricsSnapshot"
  by (simp add: counters_ok_def emptyMetricsSnapshot_def)

section \<open>What a worker records reaches the primary\<close>

datatype cm_op = OpRequest request_event | OpCreated | OpRedirect | OpMiss | OpIncrement string js_number | OpFlush bool

fun run_cm_op :: "cm_op \<Rightarrow> cluster_metrics \<Rightarrow> cluster_metrics \<times> jsv list" where
  "run_cm_op (OpRequest e) c = (case e of (meth, route, statusCode, seconds) \<Rightarrow> (cm_request meth route statusCode seconds c, []))"
| "run_cm_op OpCreated c = (cm_created c, [])"
| "run_cm_op OpRedirect c = (cm_redirect c, [])"
| "run_cm_op OpMiss c = (cm_miss c, [])"
| "run_cm_op (OpIncrement name v) c = (cm_increment name v c, [])"
| "run_cm_op (OpFlush sent) c = cm_flush True sent c"

fun run_cm :: "cm_op list \<Rightarrow> cluster_metrics \<Rightarrow> cluster_metrics \<times> jsv list" where
  "run_cm [] c = (c, [])"
| "run_cm (a # as) c = (let (c1, out1) = run_cm_op a c; (c2, out2) = run_cm as c1 in (c2, out1 @ out2))"

text \<open>All that a worker sends when it runs and then handles a flush request of the primary.\<close>

definition worker_messages :: "string \<Rightarrow> cm_op list \<Rightarrow> jsv list" where
  "worker_messages requestId ops =
     (let (c, out) = run_cm ops (ClusterMetrics True)
      in out @ fst (snd (handleMessage True True (id_message ''metrics:flush-request'' requestId) c)))"

text \<open>What an operation adds, as a snapshot, and by how much it can raise a number.\<close>

fun unit_of :: "cm_op \<Rightarrow> snapshot" where
  "unit_of (OpRequest (meth, route, IntNum n, Some t)) =
     (if valid_request meth route (IntNum n) (Some t)
      then emptyMetricsSnapshot\<lparr>sn_httpRequests := [single_series meth route n t]\<rparr> else emptyMetricsSnapshot)"
| "unit_of OpCreated = emptyMetricsSnapshot\<lparr>sn_created := 1\<rparr>"
| "unit_of OpRedirect = emptyMetricsSnapshot\<lparr>sn_redirects := 1\<rparr>"
| "unit_of OpMiss = emptyMetricsSnapshot\<lparr>sn_misses := 1\<rparr>"
| "unit_of (OpIncrement name (IntNum n)) =
     (if COUNTER_NAME_PATTERN name \<and> isSafeInteger n \<and> 0 < n then emptyMetricsSnapshot\<lparr>sn_counters := Some [(name, n)]\<rparr>
      else emptyMetricsSnapshot)"
| "unit_of _ = emptyMetricsSnapshot"

fun work :: "cm_op \<Rightarrow> nat" where
  "work (OpIncrement name (IntNum n)) = nat n"
| "work _ = 1"

lemma merge_empty [simp]: "addMetricsSnapshot s emptyMetricsSnapshot = s"
  by (simp add: addMetricsSnapshot_def emptyMetricsSnapshot_def)

fun is_flush :: "cm_op \<Rightarrow> bool" where
  "is_flush (OpFlush sent) \<longleftrightarrow> True"
| "is_flush _ \<longleftrightarrow> False"

lemma run_op_unit:
  assumes "\<not> is_flush a"
  shows "snd (run_cm_op a c) = [] \<and> cm_snapshot (fst (run_cm_op a c)) = addMetricsSnapshot (cm_snapshot c) (unit_of a)"
  using assms
proof (cases a)
  case (OpRequest e)
  obtain meth route st sec where e: "e = (meth, route, st, sec)" by (metis prod_cases4)
  show ?thesis by (cases st; cases sec) (auto simp: OpRequest e cm_request_def)
next
  case (OpIncrement name v)
  then show ?thesis
    by (cases v) (auto simp: cm_increment_def addMetricsSnapshot_def emptyMetricsSnapshot_def addCounter_def Let_def)
qed (simp_all add: cm_created_def cm_redirect_def cm_miss_def addMetricsSnapshot_def emptyMetricsSnapshot_def)

lemma unit_ok: "snapshot_ok (work a) (unit_of a)" "counters_ok (unit_of a)"
proof -
  have one: "snapshot_ok 1 (emptyMetricsSnapshot\<lparr>sn_httpRequests := [single_series meth route n t]\<rparr>)"
    if "valid_request meth route (IntNum n) (Some t)" for meth route n t
  proof -
    have "bucket i (single_series meth route n t) \<le> 1" for i
      by (simp add: single_series_def bucket_at_def)
    then show ?thesis using that
      by (simp add: snapshot_ok_def emptyMetricsSnapshot_def counters_wf_def counter_of_def single_series_def
          series_ok_def valid_request_def)
  qed
  show "snapshot_ok (work a) (unit_of a)"
  proof (cases a rule: unit_of.cases)
    case (1 meth route n t)
    with one show ?thesis by (cases "valid_request meth route (IntNum n) (Some t)") simp_all
  qed (auto simp: snapshot_ok_def emptyMetricsSnapshot_def counters_wf_def counter_of_def)
  show "counters_ok (unit_of a)"
    by (cases a rule: unit_of.cases) (auto simp: counters_ok_def emptyMetricsSnapshot_def)
qed

text \<open>A measure of snapshots: nothing on an empty one, added up by merging.\<close>

definition measure_law :: "(snapshot \<Rightarrow> 'a :: cancel_comm_monoid_add) \<Rightarrow> bool" where
  "measure_law w \<longleftrightarrow> (\<forall>s. isEmptySnapshot s \<longrightarrow> w s = 0) \<and>
     (\<forall>a b. counters_ok b \<longrightarrow> w (addMetricsSnapshot a b) = w a + w b)"

lemma measure_empty: "measure_law w \<Longrightarrow> w emptyMetricsSnapshot = 0"
  by (simp add: measure_law_def isEmptySnapshot_def emptyMetricsSnapshot_def)

lemma measures:
  "measure_law sn_created" "measure_law sn_redirects" "measure_law sn_misses" "measure_law (counter_of name)"
  "additive f \<Longrightarrow> measure_law (\<lambda>s. tally f k (sn_httpRequests s))"
proof -
  show "measure_law sn_created" "measure_law sn_redirects" "measure_law sn_misses"
    by (simp_all add: measure_law_def isEmptySnapshot_def merge_parts(1-3) [OF refl])
  have "counter_of name s = 0" if "isEmptySnapshot s" for s
    using that by (auto simp: isEmptySnapshot_def counter_of_def split: option.splits)
  then show "measure_law (counter_of name)" by (simp add: measure_law_def merge_parts(4) [OF refl])
  show "measure_law (\<lambda>s. tally f k (sn_httpRequests s))" if "additive f"
    by (simp add: measure_law_def isEmptySnapshot_def merge_parts(5) [OF refl] merge_fold [OF index_series_init that])
qed

text \<open>
  The books of a worker that has run: its messages are valid batches, and what they and the snapshot
  not yet sent hold is what was recorded.
\<close>

definition books :: "(snapshot \<Rightarrow> 'a :: cancel_comm_monoid_add) \<Rightarrow> nat \<Rightarrow> 'a \<Rightarrow> cluster_metrics \<Rightarrow> jsv list \<Rightarrow> bool" where
  "books w N recorded c out \<longleftrightarrow> snapshot_ok N (cm_snapshot c) \<and>
     (\<exists>bs. out = map batch_message bs \<and> (\<forall>b \<in> set bs. snapshot_ok N b) \<and>
        sum_list (map w bs) + w (cm_snapshot c) = recorded)"

lemma snapshot_ok_mono: "snapshot_ok N s \<Longrightarrow> N \<le> M \<Longrightarrow> snapshot_ok M s"
proof -
  assume s: "snapshot_ok N s" "N \<le> M"
  have "counter_of name s \<le> int M" for name
  proof -
    have "counter_of name s \<le> int N" using s(1) by (simp add: snapshot_ok_def)
    with s(2) show ?thesis by linarith
  qed
  with s show ?thesis unfolding snapshot_ok_def by (meson le_trans)
qed

lemma books_flush:
  assumes "books w N r c out" "measure_law w" "int N \<le> MAX_SAFE_INTEGER" "cm_flush True sent c = (c', out')"
  shows "books w N r c' (out @ out')" "sent \<Longrightarrow> w (cm_snapshot c') = 0"
proof -
  obtain bs where bs: "snapshot_ok N (cm_snapshot c)" "out = map batch_message bs" "\<forall>b \<in> set bs. snapshot_ok N b"
    "sum_list (map w bs) + w (cm_snapshot c) = r" using assms(1) by (auto simp: books_def)
  have empty: "w emptyMetricsSnapshot = 0" by (rule measure_empty [OF assms(2)])
  have "snapshot_ok (0 + N) (addMetricsSnapshot emptyMetricsSnapshot (cm_snapshot c))"
    by (rule snapshot_ok_merge [OF snapshot_ok_empty bs(1) snapshot_ok_counters [OF bs(1) assms(3)]])
  moreover have "w (addMetricsSnapshot emptyMetricsSnapshot (cm_snapshot c)) = w (cm_snapshot c)"
    using assms(2) snapshot_ok_counters [OF bs(1) assms(3)] empty by (simp add: measure_law_def)
  ultimately have kept: "snapshot_ok N x" "w x = w (cm_snapshot c)"
    if "x = addMetricsSnapshot emptyMetricsSnapshot (cm_snapshot c)" for x using that by simp_all
  show "books w N r c' (out @ out')"
  proof (cases "isEmptySnapshot (cm_snapshot c) \<or> \<not> sent")
    case True
    then have "out' = []" "snapshot_ok N (cm_snapshot c')" "w (cm_snapshot c') = w (cm_snapshot c)"
      using assms(4) bs(1) kept by (auto simp: cm_flush_def split: if_splits)
    with bs show ?thesis by (auto simp: books_def)
  next
    case False
    then have c': "out' = [batch_message (cm_snapshot c)]" "cm_snapshot c' = emptyMetricsSnapshot"
      using assms(4) by (auto simp: cm_flush_def)
    show ?thesis unfolding books_def c'
      using bs empty by (intro conjI exI [of _ "bs @ [cm_snapshot c]"]) auto
  qed
  show "w (cm_snapshot c') = 0" if sent
    using assms(2,4) that empty by (auto simp: cm_flush_def measure_law_def split: if_splits)
qed

lemma books_op:
  assumes "books w N r c out" "measure_law w" "int (N + work a) \<le> MAX_SAFE_INTEGER" "run_cm_op a c = (c', out')"
  shows "books w (N + work a) (r + w (unit_of a)) c' (out @ out')"
proof (cases "is_flush a")
  case True
  then obtain sent where a: "a = OpFlush sent" by (cases a) auto
  have "books w (N + 1) r c out" using assms(1) snapshot_ok_mono [of N _ "N + 1"] by (auto simp: books_def)
  from books_flush(1) [OF this assms(2)] assms(3,4) show ?thesis
    by (simp add: a measure_empty [OF assms(2)])
next
  case False
  obtain bs where bs: "snapshot_ok N (cm_snapshot c)" "out = map batch_message bs" "\<forall>b \<in> set bs. snapshot_ok N b"
    "sum_list (map w bs) + w (cm_snapshot c) = r" using assms(1) by (auto simp: books_def)
  have c': "out' = []" "cm_snapshot c' = addMetricsSnapshot (cm_snapshot c) (unit_of a)"
    using run_op_unit [OF False, of c] assms(4) by simp_all
  have "snapshot_ok (N + work a) (cm_snapshot c')" unfolding c'(2) by (rule snapshot_ok_merge [OF bs(1) unit_ok])
  moreover have "w (cm_snapshot c') = w (cm_snapshot c) + w (unit_of a)"
    using assms(2) unit_ok(2) [of a] by (simp add: c'(2) measure_law_def)
  ultimately show ?thesis using bs c'(1) snapshot_ok_mono [of N _ "N + work a"]
    unfolding books_def by (intro conjI exI [of _ bs]) (auto simp: add.assoc [symmetric])
qed

lemma books_run:
  assumes "books w N r c out" "measure_law w" "int (N + sum_list (map work as)) \<le> MAX_SAFE_INTEGER" "run_cm as c = (c', out')"
  shows "books w (N + sum_list (map work as)) (r + sum_list (map (\<lambda>a. w (unit_of a)) as)) c' (out @ out')"
  using assms
proof (induction "as" arbitrary: N r c out out' c')
  case (Cons a as)
  obtain c1 out1 where 1: "run_cm_op a c = (c1, out1)" by fastforce
  obtain c2 out2 where 2: "run_cm as c1 = (c2, out2)" by fastforce
  have b: "books w (N + work a) (r + w (unit_of a)) c1 (out @ out1)"
    by (rule books_op [OF Cons.prems(1,2) _ 1]) (use Cons.prems(3) in simp)
  have "c2 = c'" "out' = out1 @ out2" using Cons.prems(4) 1 2 by (simp_all add: Let_def)
  with Cons.IH [OF b Cons.prems(2) _ 2] Cons.prems(3) show ?case by (simp add: ac_simps)
next
  case Nil
  then show ?case by simp
qed

section \<open>The aggregate is exact\<close>

definition weight :: "(snapshot \<Rightarrow> 'a :: cancel_comm_monoid_add) \<Rightarrow> jsv \<Rightarrow> 'a" where
  "weight w m = (if vfield m ''type'' = VStr ''metrics:batch'' then w (decode_snapshot (vfield m ''snapshot'')) else 0)"

definition good_message :: "jsv \<Rightarrow> bool" where
  "good_message m \<longleftrightarrow> (\<exists>b N. m = batch_message b \<and> snapshot_ok N b \<and> int N \<le> MAX_SAFE_INTEGER) \<or>
     (\<exists>requestId. m = id_message ''metrics:flush-response'' requestId)"

lemma message_fields [simp]:
  "vfield (batch_message b) ''type'' = VStr ''metrics:batch''" "vfield (batch_message b) ''snapshot'' = encode_snapshot b"
  "vfield (id_message kind requestId) ''type'' = VStr kind" "vfield (id_message kind requestId) ''requestId'' = VStr requestId"
  "is_object (batch_message b)" "is_object (id_message kind requestId)"
  by (simp_all add: batch_message_def id_message_def vfield_def is_object_def)

lemma receive_good:
  assumes "measure_law w" "good_message m"
  shows "w (receive m aggregate) = w aggregate + weight w m"
  using assms(2) unfolding good_message_def
proof (elim disjE exE conjE)
  fix b N
  assume b: "m = batch_message b" "snapshot_ok N b" "int N \<le> MAX_SAFE_INTEGER"
  then have "isWorkerMetricsMessage m" using valid_snapshot by (simp add: isWorkerMetricsMessage_def)
  with b assms(1) snapshot_ok_counters show ?thesis
    by (simp add: receive_def weight_def aggregator_add_def measure_law_def)
qed (simp add: receive_def weight_def)

lemma receive_all:
  "measure_law w \<Longrightarrow> \<forall>m \<in> set ms. good_message m \<Longrightarrow>
     w (fold receive ms aggregate) = w aggregate + sum_list (map (weight w) ms)"
  by (induction ms arbitrary: aggregate) (simp_all add: receive_good add.assoc)

lemma worker_books:
  assumes "measure_law w" "int (sum_list (map work ops)) \<le> MAX_SAFE_INTEGER" "requestId \<noteq> []"
  shows "\<forall>m \<in> set (worker_messages requestId ops). good_message m"
    and "sum_list (map (weight w) (worker_messages requestId ops)) = sum_list (map (\<lambda>a. w (unit_of a)) ops)"
proof -
  let ?N = "sum_list (map work ops)" and ?r = "sum_list (map (\<lambda>a. w (unit_of a)) ops)"
  obtain c out where run: "run_cm ops (ClusterMetrics True) = (c, out)" by fastforce
  have "books w 0 0 (ClusterMetrics True) []"
    using measure_empty [OF assms(1)] by (simp add: books_def ClusterMetrics_def)
  from books_run [OF this assms(1) _ run] assms(2) have b: "books w ?N ?r c out" by simp
  obtain c' out' where fl: "cm_flush True True c = (c', out')" by fastforce
  note bf = books_flush [OF b assms(1) assms(2) fl]
  then obtain bs where bs: "out @ out' = map batch_message bs" "\<forall>b \<in> set bs. snapshot_ok ?N b" "sum_list (map w bs) = ?r"
    by (auto simp: books_def)
  have "isPrimaryMetricsMessage (id_message ''metrics:flush-request'' requestId)"
    using assms(3) by (simp add: isPrimaryMetricsMessage_def nonempty_string_def)
  then have msgs: "worker_messages requestId ops = map batch_message bs @ [id_message ''metrics:flush-response'' requestId]"
    using bs(1) by (simp add: worker_messages_def run handleMessage_def fl str_at_def Let_def)
  have good: "good_message (batch_message b)" if "b \<in> set bs" for b
    unfolding good_message_def using that bs(2) assms(2) by blast
  moreover have "good_message (id_message ''metrics:flush-response'' requestId)" unfolding good_message_def by blast
  ultimately show "\<forall>m \<in> set (worker_messages requestId ops). good_message m" by (auto simp: msgs)
  have "map (weight w) (map batch_message bs) = map w bs" by (simp add: weight_def)
  with bs(3) show "sum_list (map (weight w) (worker_messages requestId ops)) = ?r"
    by (simp add: msgs weight_def [of w "id_message _ _"] del: map_map)
qed

lemma aggregate_measure:
  assumes "measure_law w" "requestId \<noteq> []" "\<forall>ops \<in> set workers. int (sum_list (map work ops)) \<le> MAX_SAFE_INTEGER"
    and "mset received = mset (concat (map (worker_messages requestId) workers))"
  shows "w (fold receive received emptyMetricsSnapshot) = sum_list (map (\<lambda>a. w (unit_of a)) (concat workers))"
proof -
  have "\<forall>m \<in> set received. good_message m"
    using worker_books(1) [OF assms(1) _ assms(2)] assms(3) mset_eq_setD [OF assms(4)] by auto
  then have "w (fold receive received emptyMetricsSnapshot) = sum_list (map (weight w) received)"
    using receive_all [OF assms(1)] measure_empty [OF assms(1)] by simp
  also have "\<dots> = sum_mset (image_mset (weight w) (mset received))" by (simp add: sum_mset_sum_list [symmetric])
  also have "\<dots> = sum_list (map (weight w) (concat (map (worker_messages requestId) workers)))"
    unfolding assms(4) by (simp only: mset_map [symmetric] sum_mset_sum_list)
  also have "\<dots> = sum_list (map (\<lambda>a. w (unit_of a)) (concat workers))"
    using assms(3) by (induction workers) (simp_all add: worker_books(2) [OF assms(1) _ assms(2)])
  finally show ?thesis .
qed

fun requests_of :: "cm_op list \<Rightarrow> request_event list" where
  "requests_of [] = []"
| "requests_of (OpRequest e # ops) = e # requests_of ops"
| "requests_of (a # ops) = requests_of ops"

definition increments :: "string \<Rightarrow> cm_op list \<Rightarrow> int" where
  "increments name ops = sum_list (map (\<lambda>a. case a of
     OpIncrement x (IntNum n) \<Rightarrow> if x = name \<and> COUNTER_NAME_PATTERN name \<and> isSafeInteger n \<and> 0 < n then n else 0 | _ \<Rightarrow> 0) ops)"

lemma units_tally:
  assumes "\<And>meth route n t. f (single_series meth route n t) = F t"
  shows "sum_list (map (\<lambda>a. tally f k (sn_httpRequests (unit_of a))) ops) = sum_list (map F (hits k (requests_of ops)))"
proof (induction ops)
  case (Cons a ops)
  have key: "key_of (single_series meth route n t) = seriesKey meth route n" for meth route n t
    by (simp add: key_of_def single_series_def)
  show ?case
  proof (cases a rule: unit_of.cases)
    case (1 meth route n t)
    with Cons show ?thesis by (simp add: hits_def emptyMetricsSnapshot_def assms key)
  qed (use Cons in \<open>auto simp: hits_def emptyMetricsSnapshot_def valid_request_def\<close>)
qed (simp add: hits_def)

lemma bounds_pos: "j < 11 \<Longrightarrow> 0 < REQUEST_DURATION_BUCKETS ! j"
  "Suc j < 11 \<Longrightarrow> REQUEST_DURATION_BUCKETS ! j \<le> REQUEST_DURATION_BUCKETS ! Suc j"
  by (auto simp: REQUEST_DURATION_BUCKETS_def less_Suc_eq numeral_eq_Suc)

lemma single_cumulative:
  "i < 11 \<Longrightarrow> cumulative i (single_series meth route n t) = (if 0 < t \<and> t \<le> REQUEST_DURATION_BUCKETS ! i then 1 else 0)"
proof (induction i)
  case 0
  then show ?case by (simp add: cumulative_def single_series_def bucket_at_def previous_bound_def)
next
  case (Suc i)
  have "cumulative (Suc i) (single_series meth route n t) =
      cumulative i (single_series meth route n t) +
        (if t \<le> REQUEST_DURATION_BUCKETS ! Suc i \<and> REQUEST_DURATION_BUCKETS ! i < t then 1 else 0)"
    using Suc.prems by (simp add: cumulative_def single_series_def bucket_at_def previous_bound_def)
  with Suc bounds_pos [of i] bounds_pos(2) [of i] show ?case by auto
qed

lemma units_counts:
  "sum_list (map (\<lambda>a. sn_created (unit_of a)) ops) = length (filter (\<lambda>a. a = OpCreated) ops)"
  "sum_list (map (\<lambda>a. sn_redirects (unit_of a)) ops) = length (filter (\<lambda>a. a = OpRedirect) ops)"
  "sum_list (map (\<lambda>a. sn_misses (unit_of a)) ops) = length (filter (\<lambda>a. a = OpMiss) ops)"
  "sum_list (map (\<lambda>a. counter_of name (unit_of a)) ops) = increments name ops"
proof -
  have "sn_created (unit_of a) = (if a = OpCreated then 1 else 0)" "sn_redirects (unit_of a) = (if a = OpRedirect then 1 else 0)"
    "sn_misses (unit_of a) = (if a = OpMiss then 1 else 0)" for a
    by (cases a rule: unit_of.cases; simp add: emptyMetricsSnapshot_def)+
  note units = this
  show "sum_list (map (\<lambda>a. sn_created (unit_of a)) ops) = length (filter (\<lambda>a. a = OpCreated) ops)"
    "sum_list (map (\<lambda>a. sn_redirects (unit_of a)) ops) = length (filter (\<lambda>a. a = OpRedirect) ops)"
    "sum_list (map (\<lambda>a. sn_misses (unit_of a)) ops) = length (filter (\<lambda>a. a = OpMiss) ops)"
    by (induction ops) (simp_all add: units)
  have "counter_of name (unit_of a) = (case a of
     OpIncrement x (IntNum n) \<Rightarrow> if x = name \<and> COUNTER_NAME_PATTERN name \<and> isSafeInteger n \<and> 0 < n then n else 0 | _ \<Rightarrow> 0)" for a
    by (cases a rule: unit_of.cases) (auto simp: emptyMetricsSnapshot_def counter_of_def)
  then show "sum_list (map (\<lambda>a. counter_of name (unit_of a)) ops) = increments name ops"
    by (simp add: increments_def)
qed



end
