(* ===== verification/Cluster.thy ===== *)
theory Cluster
  imports Cluster_Metrics Config
begin

text \<open>
  \<open>src/src/cluster.ts\<close>: the primary process, which starts the workers, restarts the ones that exit under
  the same index, and answers their requests for the metrics of all.  The cluster module of the
  platform is the environment: \<open>worker_handle\<close>s of the workers it knows, and the identifiers that \<open>fork\<close> gives.
\<close>

section \<open>The number of workers\<close>

definition MAX_WORKERS :: int where "MAX_WORKERS = 512"

fun digits_prefix :: "string \<Rightarrow> string" where
  "digits_prefix [] = []"
| "digits_prefix (c # cs) = (if digit_value c = None then [] else c # digits_prefix cs)"

text \<open>\<open>Number.parseInt(s, 10)\<close>: white space, a sign, then as many digits as there are.\<close>

definition parseInt10 :: "string \<Rightarrow> js_number" where
  "parseInt10 s =
     (let t = dropWhile js_space s;
          (neg, u) = (case t of c # cs \<Rightarrow> if c = CHR ''-'' then (True, cs) else if c = CHR ''+'' then (False, cs) else (False, t)
                      | [] \<Rightarrow> (False, []));
          ds = digits_prefix u
      in if ds = [] then NotInt
         else case digits_value 0 ds of Some n \<Rightarrow> IntNum (if neg then - int n else int n) | None \<Rightarrow> NotInt)"

datatype cluster_error = BadWorkerCount

definition parseWorkerCount :: "int \<Rightarrow> string option \<Rightarrow> cluster_error + int" where
  "parseWorkerCount availableParallelism v =
     (case v of
        None \<Rightarrow> Inr (min availableParallelism MAX_WORKERS)
      | Some s \<Rightarrow>
          (case parseInt10 s of
             IntNum n \<Rightarrow> if \<not> isSafeInteger n \<or> n < 1 then Inl BadWorkerCount else Inr (min n MAX_WORKERS)
           | NotInt \<Rightarrow> Inl BadWorkerCount))"

text \<open>The connection budget that the primary logs, and whether it warns.\<close>

definition connection_budget :: "int \<Rightarrow> string option \<Rightarrow> (int \<times> bool) option" where
  "connection_budget workerCount v =
     (case parseInt10 (case v of None \<Rightarrow> ''20'' | Some s \<Rightarrow> s) of
        IntNum poolMax \<Rightarrow>
          if isSafeInteger poolMax \<and> 0 < poolMax
          then Some (workerCount * poolMax, 500 < workerCount * poolMax) else None
      | NotInt \<Rightarrow> None)"

text \<open>\<open>parseInt\<close> stops at the first character that is no digit: the budget counts one connection for a pool of
  \<open>1e2\<close>, which the workers read as 100.\<close>

lemma lenient_numbers:
  "parseWorkerCount cores (Some ''4x'') = Inr 4"
  "parseWorkerCount cores (Some ''1e3'') = Inr 1"
  "connection_budget 128 (Some ''1e2'') = Some (128, False)"
  "connection_budget 128 (Some ''100'') = Some (12800, True)"
  by (simp_all add: parseWorkerCount_def connection_budget_def parseInt10_def js_space_def small_safe MAX_WORKERS_def digit_value_def Let_def)

section \<open>The primary process\<close>

record worker_handle =
  wk_id :: nat
  wk_connected :: bool
  wk_dead :: bool

record pending_snapshot =
  ps_requester :: nat
  ps_awaiting :: "nat list"

record primary =
  pm_metrics :: snapshot
  pm_shuttingDown :: bool
  pm_pending :: "(string, pending_snapshot) js_map"
  pm_indexes :: "(nat, int) js_map"
  pm_listening :: bool
  pm_forceTimer :: bool
  pm_exitCode :: "nat option"

text \<open>\<open>pm_listening\<close>: the shutdown has added its own listener for exits; \<open>pm_forceTimer\<close>: its timeout runs.\<close>

definition init_primary :: primary where
  "init_primary = \<lparr>pm_metrics = emptyMetricsSnapshot, pm_shuttingDown = False, pm_pending = [], pm_indexes = [],
     pm_listening = False, pm_forceTimer = False, pm_exitCode = None\<rparr>"

text \<open>What the primary sends to workers; \<open>reaches\<close> tells which can be reached.\<close>

type_synonym outbox = "(nat \<times> jsv) list"

definition completeSnapshot :: "(nat \<Rightarrow> bool) \<Rightarrow> string \<Rightarrow> primary \<Rightarrow> primary \<times> outbox" where
  "completeSnapshot reaches requestId p =
     (case js_get (pm_pending p) requestId of
        None \<Rightarrow> (p, [])
      | Some ps \<Rightarrow>
          (p\<lparr>pm_pending := js_delete (pm_pending p) requestId\<rparr>,
           if \<not> reaches (ps_requester ps) then []
           else [(ps_requester ps, snapshot_response requestId (copyMetricsSnapshot (pm_metrics p)))]))"

definition requestWorkerFlushes :: "worker_handle list \<Rightarrow> (nat \<Rightarrow> bool) \<Rightarrow> nat \<Rightarrow> string \<Rightarrow> primary \<Rightarrow> primary \<times> outbox" where
  "requestWorkerFlushes handles reaches requester requestId p =
     (let workers = filter (\<lambda>h. wk_connected h \<and> \<not> wk_dead h) handles
      in if length workers = 0
         then (p, if reaches requester
                  then [(requester, snapshot_response requestId (copyMetricsSnapshot (pm_metrics p)))] else [])
         else (p\<lparr>pm_pending := js_set (pm_pending p) requestId
                    \<lparr>ps_requester = requester, ps_awaiting = remdups (map wk_id workers)\<rparr>\<rparr>,
               map (\<lambda>h. (wk_id h, id_message ''metrics:flush-request'' requestId)) workers))"

text \<open>A worker no longer counts for one request; the request is completed when none does.\<close>

definition drop_awaiting :: "(nat \<Rightarrow> bool) \<Rightarrow> nat \<Rightarrow> string \<Rightarrow> primary \<Rightarrow> primary \<times> outbox" where
  "drop_awaiting reaches worker requestId p =
     (case js_get (pm_pending p) requestId of
        None \<Rightarrow> (p, [])
      | Some ps \<Rightarrow>
          (let ps' = ps\<lparr>ps_awaiting := removeAll worker (ps_awaiting ps)\<rparr>;
               p' = p\<lparr>pm_pending := js_set (pm_pending p) requestId ps'\<rparr>
           in if length (ps_awaiting ps') = 0 then completeSnapshot reaches requestId p' else (p', [])))"

definition acknowledgeWorkerFlush :: "(nat \<Rightarrow> bool) \<Rightarrow> nat \<Rightarrow> string \<Rightarrow> primary \<Rightarrow> primary \<times> outbox" where
  "acknowledgeWorkerFlush reaches worker requestId p = drop_awaiting reaches worker requestId p"

fun drop_from_all :: "(nat \<Rightarrow> bool) \<Rightarrow> nat \<Rightarrow> string list \<Rightarrow> primary \<Rightarrow> primary \<times> outbox" where
  "drop_from_all reaches worker [] p = (p, [])"
| "drop_from_all reaches worker (requestId # ids) p =
     (let (p1, out1) = drop_awaiting reaches worker requestId p;
          (p2, out2) = drop_from_all reaches worker ids p1
      in (p2, out1 @ out2))"

definition removeWorkerFromSnapshots :: "(nat \<Rightarrow> bool) \<Rightarrow> nat \<Rightarrow> primary \<Rightarrow> primary \<times> outbox" where
  "removeWorkerFromSnapshots reaches worker p = drop_from_all reaches worker (js_keys (pm_pending p)) p"

definition worker_message ::
  "worker_handle list \<Rightarrow> (nat \<Rightarrow> bool) \<Rightarrow> nat \<Rightarrow> jsv \<Rightarrow> primary \<Rightarrow> primary \<times> outbox" where
  "worker_message handles reaches worker v p =
     (if \<not> isWorkerMetricsMessage v then (p, [])
      else if vfield v ''type'' = VStr ''metrics:batch''
      then (p\<lparr>pm_metrics := receive v (pm_metrics p)\<rparr>, [])
      else if vfield v ''type'' = VStr ''metrics:flush-response''
      then acknowledgeWorkerFlush reaches worker (str_at (vfield v ''requestId'')) p
      else requestWorkerFlushes handles reaches worker (str_at (vfield v ''requestId'')) p)"

section \<open>Starting and restarting workers\<close>

text \<open>The environment of a forked worker.\<close>

definition fork_env :: "int \<Rightarrow> int \<Rightarrow> env" where
  "fork_env index workerCount = [''WRAPLINK_WORKER_INDEX'' \<mapsto> int_text index, ''WRAPLINK_WORKER_COUNT'' \<mapsto> int_text workerCount]"

text \<open>\<open>startWorker\<close>, where \<open>fork\<close> gives the new worker the identifier \<open>worker\<close>.\<close>

definition startWorker :: "nat \<Rightarrow> int \<Rightarrow> primary \<Rightarrow> primary" where
  "startWorker worker index p = p\<lparr>pm_indexes := js_set (pm_indexes p) worker index\<rparr>"

fun start_workers :: "nat \<Rightarrow> int list \<Rightarrow> primary \<Rightarrow> primary" where
  "start_workers worker [] p = p"
| "start_workers worker (index # is) p = start_workers (Suc worker) is (startWorker worker index p)"

definition start_primary :: "int \<Rightarrow> primary" where
  "start_primary workerCount = start_workers 1 [0 .. workerCount - 1] init_primary"

text \<open>The exit of a worker; a replacement, if there is one, gets the identifier \<open>fresh\<close>.\<close>

definition worker_exit :: "(nat \<Rightarrow> bool) \<Rightarrow> nat \<Rightarrow> nat \<Rightarrow> primary \<Rightarrow> primary \<times> outbox" where
  "worker_exit reaches worker fresh p =
     (let (p1, out) = removeWorkerFromSnapshots reaches worker p;
          index = (case js_get (pm_indexes p1) worker of Some i \<Rightarrow> i | None \<Rightarrow> 0);
          p2 = p1\<lparr>pm_indexes := js_delete (pm_indexes p1) worker\<rparr>
      in (if \<not> pm_shuttingDown p2 then startWorker fresh index p2 else p2, out))"

text \<open>The shutdown: the workers that get a signal.\<close>

definition shutdown :: "worker_handle list \<Rightarrow> primary \<Rightarrow> primary \<times> nat list" where
  "shutdown handles p =
     (if pm_shuttingDown p then (p, [])
      else if length handles = 0
      then (p\<lparr>pm_shuttingDown := True, pm_pending := [], pm_exitCode := Some 0\<rparr>, [])
      else (p\<lparr>pm_shuttingDown := True, pm_pending := [], pm_listening := True, pm_forceTimer := True\<rparr>, map wk_id handles))"

text \<open>Its timeout: the workers that are killed, of those that got the signal.\<close>

definition force_shutdown :: "worker_handle list \<Rightarrow> primary \<Rightarrow> primary \<times> nat list" where
  "force_shutdown handles p =
     (if pm_forceTimer p then (p\<lparr>pm_forceTimer := False\<rparr>, map wk_id (filter (\<lambda>h. \<not> wk_dead h) handles)) else (p, []))"

text \<open>Its listener for exits, which runs after \<open>worker_exit\<close>: the primary ends with the last worker.\<close>

definition exit_during_shutdown :: "worker_handle list \<Rightarrow> primary \<Rightarrow> primary" where
  "exit_during_shutdown handles p =
     (if pm_listening p \<and> \<not> list_ex (\<lambda>h. \<not> wk_dead h) handles
      then p\<lparr>pm_forceTimer := False, pm_exitCode := Some 0\<rparr> else p)"

section \<open>The cluster over time\<close>

text \<open>The primary, the workers that live, and the next identifier that \<open>fork\<close> gives.\<close>

type_synonym cluster_state = "primary \<times> nat list \<times> nat"

inductive cluster_step :: "cluster_state \<Rightarrow> cluster_state \<Rightarrow> bool" where
  exits: "w \<in> set live \<Longrightarrow> worker_exit reaches w fresh p = (p1, out) \<Longrightarrow> exit_during_shutdown handles p1 = p' \<Longrightarrow>
     cluster_step (p, live, fresh) (p', remove1 w live @ (if pm_shuttingDown p then [] else [fresh]), Suc fresh)"
| message: "worker_message handles reaches w v p = (p', out) \<Longrightarrow> cluster_step (p, live, fresh) (p', live, fresh)"
| timeout: "completeSnapshot reaches requestId p = (p', out) \<Longrightarrow> cluster_step (p, live, fresh) (p', live, fresh)"
| force: "force_shutdown handles p = (p', out) \<Longrightarrow> cluster_step (p, live, fresh) (p', live, fresh)"
| signal: "shutdown handles p = (p', out) \<Longrightarrow> cluster_step (p, live, fresh) (p', live, fresh)"

inductive cluster_reachable :: "int \<Rightarrow> cluster_state \<Rightarrow> bool" for workerCount where
  start: "cluster_reachable workerCount (start_primary workerCount, [1 ..< nat workerCount + 1], nat workerCount + 1)"
| step: "cluster_reachable workerCount s \<Longrightarrow> cluster_step s s' \<Longrightarrow> cluster_reachable workerCount s'"

lemma complete_frame:
  "pm_indexes (fst (completeSnapshot reaches requestId p)) = pm_indexes p"
  "pm_shuttingDown (fst (completeSnapshot reaches requestId p)) = pm_shuttingDown p"
  "pm_listening (fst (completeSnapshot reaches requestId p)) = pm_listening p"
  by (simp_all add: completeSnapshot_def split: option.split)

lemma drop_frame:
  "pm_indexes (fst (drop_awaiting reaches w requestId p)) = pm_indexes p"
  "pm_shuttingDown (fst (drop_awaiting reaches w requestId p)) = pm_shuttingDown p"
  "pm_listening (fst (drop_awaiting reaches w requestId p)) = pm_listening p"
  by (simp_all add: drop_awaiting_def Let_def complete_frame split: option.split)

lemma drop_all_frame:
  "pm_indexes (fst (drop_from_all reaches w ids p)) = pm_indexes p"
  "pm_shuttingDown (fst (drop_from_all reaches w ids p)) = pm_shuttingDown p"
  "pm_listening (fst (drop_from_all reaches w ids p)) = pm_listening p"
  by (induction ids arbitrary: p) (simp_all add: drop_frame split_beta Let_def)

lemma message_frame:
  "pm_indexes (fst (worker_message handles reaches w v p)) = pm_indexes p"
  "pm_shuttingDown (fst (worker_message handles reaches w v p)) = pm_shuttingDown p"
  by (simp_all add: worker_message_def acknowledgeWorkerFlush_def requestWorkerFlushes_def Let_def drop_frame)

lemma exit_frame:
  "pm_indexes (exit_during_shutdown handles p) = pm_indexes p"
  "pm_shuttingDown (exit_during_shutdown handles p) = pm_shuttingDown p"
  by (simp_all add: exit_during_shutdown_def)

text \<open>Until the shutdown, the live workers have the indices from 0 to below the number of workers.\<close>

definition indexes_ok :: "int \<Rightarrow> (nat, int) js_map \<Rightarrow> nat list \<Rightarrow> nat \<Rightarrow> bool" where
  "indexes_ok n m live fresh \<longleftrightarrow> distinct live \<and> (\<forall>w \<in> set live. w < fresh) \<and> js_wf m \<and>
     (\<forall>w \<in> set live. js_get m w \<noteq> None) \<and> inj_on (\<lambda>w. the (js_get m w)) (set live) \<and>
     (\<lambda>w. the (js_get m w)) ` set live = {0 ..< n}"

definition cluster_inv :: "int \<Rightarrow> cluster_state \<Rightarrow> bool" where
  "cluster_inv n s \<longleftrightarrow> (case s of (p, live, fresh) \<Rightarrow> pm_shuttingDown p \<or> indexes_ok n (pm_indexes p) live fresh)"

lemma indexes_ok_exit:
  assumes "indexes_ok n m live fresh" "w \<in> set live" "js_get m w = Some i"
  shows "indexes_ok n (js_set (js_delete m w) fresh i) (remove1 w live @ [fresh]) (Suc fresh)"
proof -
  let ?f = "\<lambda>w. the (js_get m w)" and ?m = "js_set (js_delete m w) fresh i"
  have ok: "distinct live" "\<forall>x \<in> set live. x < fresh" "js_wf m" "\<forall>x \<in> set live. js_get m x \<noteq> None"
    "inj_on ?f (set live)" "?f ` set live = {0 ..< n}" using assms(1) by (simp_all add: indexes_ok_def)
  have rest: "set (remove1 w live) = set live - {w}" using ok(1) by simp
  have get: "js_get ?m x = (if x = fresh then Some i else if x = w then None else js_get m x)" for x
    using ok(3) by (auto simp: js_get_delete)
  have fresh: "fresh \<notin> set live" using ok(2) by auto
  have i: "?f w = i" using assms(3) by simp
  have old: "i \<notin> ?f ` (set live - {w})"
    using ok(5) assms(2) i by (auto simp: inj_on_def)
  have eq: "(\<lambda>x. the (js_get ?m x)) ` (set live - {w}) = ?f ` (set live - {w})"
    using fresh by (intro image_cong refl) (auto simp: js_get_delete [OF ok(3)])
  have "(\<lambda>x. the (js_get ?m x)) ` insert fresh (set live - {w}) = insert i (?f ` (set live - {w}))"
    using eq by (simp add: get)
  also have "\<dots> = ?f ` set live" using assms(2) i by auto
  finally have img: "(\<lambda>x. the (js_get ?m x)) ` insert fresh (set live - {w}) = {0 ..< n}" using ok(6) by simp
  have "inj_on (\<lambda>x. the (js_get ?m x)) (set live - {w})"
    using ok(5) fresh by (auto simp: inj_on_def js_get_delete [OF ok(3)])
  then have "inj_on (\<lambda>x. the (js_get ?m x)) (insert fresh (set live - {w}))"
    using old eq fresh by (simp add: get)
  moreover have "js_wf ?m" using ok(3) by blast
  moreover have "\<forall>x \<in> insert fresh (set live - {w}). js_get ?m x \<noteq> None"
    using ok(4) fresh by (auto simp: js_get_delete [OF ok(3)])
  moreover have "set (remove1 w live @ [fresh]) = insert fresh (set live - {w})" using rest by auto
  moreover have "distinct (remove1 w live @ [fresh])" using ok(1) fresh rest by simp
  moreover have "\<forall>x \<in> insert fresh (set live - {w}). x < Suc fresh" using ok(2) by auto
  ultimately show ?thesis using img unfolding indexes_ok_def by metis
qed

lemma start_workers_get:
  "js_wf (pm_indexes p) \<Longrightarrow> js_wf (pm_indexes (start_workers w is p)) \<and>
     pm_shuttingDown (start_workers w is p) = pm_shuttingDown p \<and>
     (\<forall>x. js_get (pm_indexes (start_workers w is p)) x =
        (if w \<le> x \<and> x < w + length is then Some (is ! (x - w)) else js_get (pm_indexes p) x))"
proof (induction "is" arbitrary: w p)
  case (Cons i "is")
  have wf: "js_wf (pm_indexes (startWorker w i p))" using Cons.prems by (simp add: startWorker_def js_wf_set)
  show ?case using Cons.IH [OF wf, of "Suc w"]
    by (auto simp: startWorker_def nth_Cons' Suc_diff_le dest: le_antisym)
qed auto

lemma start_ok:
  assumes "1 \<le> n"
  shows "cluster_inv n (start_primary n, [1 ..< nat n + 1], nat n + 1)"
proof -
  let ?m = "pm_indexes (start_primary n)"
  have g: "js_wf ?m" "js_get ?m x = (if 1 \<le> x \<and> x < 1 + nat n then Some (int x - 1) else None)" for x
    using start_workers_get [of init_primary 1 "[0 .. n - 1]"] assms
    by (auto simp: start_primary_def init_primary_def nth_upto of_nat_diff)
  have "(\<lambda>w. the (js_get ?m w)) ` set [1 ..< nat n + 1] = (\<lambda>w. int w - 1) ` {1 ..< nat n + 1}"
    unfolding set_upt by (rule image_cong) (auto simp: g(2))
  also have "\<dots> = {0 ..< n}"
  proof
    show "{0 ..< n} \<subseteq> (\<lambda>w. int w - 1) ` {1 ..< nat n + 1}"
    proof
      fix x assume "x \<in> {0 ..< n}"
      then have "x = int (nat x + 1) - 1" "nat x + 1 \<in> {1 ..< nat n + 1}" by auto
      then show "x \<in> (\<lambda>w. int w - 1) ` {1 ..< nat n + 1}" by (rule image_eqI)
    qed
  qed auto
  finally show ?thesis using g by (auto simp: cluster_inv_def indexes_ok_def inj_on_def)
qed

lemma cluster_step_inv:
  assumes "cluster_step s s'" "cluster_inv n s"
  shows "cluster_inv n s'"
  using assms(1)
proof (cases rule: cluster_step.cases)
  case (exits w live reaches fresh p p1 out handles p')
  show ?thesis
  proof (cases "pm_shuttingDown p")
    case True
    then have "pm_shuttingDown p'" using exits(4,5)
      by (auto simp: exit_frame worker_exit_def removeWorkerFromSnapshots_def split_beta Let_def drop_all_frame)
    then show ?thesis by (simp add: cluster_inv_def exits(2))
  next
    case False
    then have ok: "indexes_ok n (pm_indexes p) live fresh" using assms(2) exits(1) by (simp add: cluster_inv_def)
    then obtain i where i: "js_get (pm_indexes p) w = Some i" using exits(3) by (auto simp: indexes_ok_def)
    have "pm_indexes p' = js_set (js_delete (pm_indexes p) w) fresh i" using exits(4,5) False i
      by (auto simp: exit_frame worker_exit_def removeWorkerFromSnapshots_def startWorker_def split_beta Let_def drop_all_frame)
    with indexes_ok_exit [OF ok exits(3) i] False show ?thesis by (simp add: cluster_inv_def exits(2))
  qed
next
  case (message handles reaches w v p p' out live fresh)
  then show ?thesis using assms(2) message_frame [of handles reaches w v p] by (simp add: cluster_inv_def)
next
  case (timeout reaches requestId p p' out live fresh)
  then show ?thesis using assms(2) complete_frame [of reaches requestId p] by (simp add: cluster_inv_def)
next
  case (force handles p p' out live fresh)
  then show ?thesis using assms(2) by (auto simp: cluster_inv_def force_shutdown_def split: if_splits)
next
  case (signal handles p p' out live fresh)
  then show ?thesis using assms(2) by (auto simp: cluster_inv_def shutdown_def split: if_splits)
qed

lemma cluster_reachable_inv: "cluster_reachable n s \<Longrightarrow> 1 \<le> n \<Longrightarrow> cluster_inv n s"
proof (induction rule: cluster_reachable.induct)
  case start
  then show ?case by (rule start_ok)
next
  case (step s s')
  then show ?case using cluster_step_inv by blast
qed

lemma forked_identity:
  assumes "0 \<le> index" "index < n" "n \<le> MAX_WORKERS"
  shows "workerIdentity numbers (fork_env index n) = (index, n)"
  using assms by (simp add: workerIdentity_def fork_env_def js_Number_def small_safe MAX_WORKERS_def)

text \<open>After the shutdown nothing is started again, and the exit of the last worker ends the primary.\<close>

lemma last_exit_ends_primary:
  assumes "shutdown handles p = (p0, signalled)" "\<not> pm_shuttingDown p" "handles \<noteq> []"
    and "worker_exit reaches w fresh p0 = (p1, out)" "\<forall>h \<in> set handles'. wk_dead h"
  shows "signalled = map wk_id handles" "pm_exitCode (exit_during_shutdown handles' p1) = Some 0"
    "force_shutdown handles'' (exit_during_shutdown handles' p1) = (exit_during_shutdown handles' p1, [])"
    "pm_indexes p1 = js_delete (pm_indexes p) w"
  using assms
  by (auto simp: shutdown_def worker_exit_def removeWorkerFromSnapshots_def split_beta Let_def drop_all_frame
      exit_during_shutdown_def force_shutdown_def list_ex_iff)

text \<open>C18: Every shard has an owner: however workers exit and are restarted and whatever messages arrive, as
  long as the primary is not shutting down each shard belongs to exactly one live worker, by the
  identity that this worker reads from its environment.\<close>

theorem every_shard_owned:
  assumes "parseWorkerCount cores v = Inr n" "1 \<le> cores" "cluster_reachable n (p, live, fresh)"
    and "\<not> pm_shuttingDown p" "valid_shard shard"
  shows "\<exists>!w. w \<in> set live \<and> (\<exists>index i count shards. js_get (pm_indexes p) w = Some index \<and>
     workerIdentity numbers (fork_env index n) = (i, count) \<and> shardsForWorker i count = Inr shards \<and> shard \<in> set shards)"
proof -
  have n: "1 \<le> n" "n \<le> MAX_WORKERS"
    using assms(1,2) by (auto simp: parseWorkerCount_def MAX_WORKERS_def split: option.splits js_number.splits if_splits)
  let ?f = "\<lambda>w. the (js_get (pm_indexes p) w)"
  have ok: "indexes_ok n (pm_indexes p) live fresh"
    using cluster_reachable_inv [OF assms(3) n(1)] assms(4) by (simp add: cluster_inv_def)
  then have f: "inj_on ?f (set live)" "?f ` set live = {0 ..< n}" "\<forall>w \<in> set live. js_get (pm_indexes p) w = Some (?f w)"
    by (auto simp: indexes_ok_def)
  have owns: "(\<exists>index i count shards. js_get (pm_indexes p) w = Some index \<and>
     workerIdentity numbers (fork_env index n) = (i, count) \<and> shardsForWorker i count = Inr shards \<and> shard \<in> set shards)
     \<longleftrightarrow> ?f w = shard mod n" if w: "w \<in> set live" for w
  proof -
    have r: "?f w \<in> {0 ..< n}" using f(2) w by blast
    then have id: "workerIdentity numbers (fork_env (?f w) n) = (?f w, n)" using forked_identity n(2) by simp
    obtain shards where sh: "shardsForWorker (?f w) n = Inr shards" using identity_shards [OF id] by blast
    have "shard \<in> set shards \<longleftrightarrow> ?f w = shard mod n" using mem_shardsForWorker [OF sh, of shard] assms(5) by auto
    with f(3) w id sh show ?thesis by auto
  qed
  have "shard mod n \<in> ?f ` set live" using n(1) unfolding f(2) by (simp add: pos_mod_bound)
  then obtain w where w: "w \<in> set live" "?f w = shard mod n" by auto
  show ?thesis
  proof (rule ex1I [of _ w])
    show "w \<in> set live \<and> (\<exists>index i count shards. js_get (pm_indexes p) w = Some index \<and>
     workerIdentity numbers (fork_env index n) = (i, count) \<and> shardsForWorker i count = Inr shards \<and> shard \<in> set shards)"
      using w owns [OF w(1)] by blast
  next
    fix x
    assume "x \<in> set live \<and> (\<exists>index i count shards. js_get (pm_indexes p) x = Some index \<and>
     workerIdentity numbers (fork_env index n) = (i, count) \<and> shardsForWorker i count = Inr shards \<and> shard \<in> set shards)"
    then have "x \<in> set live" "?f x = ?f w" using owns w(2) by (blast, metis)
    then show "x = w" using f(1) w(1) by (simp add: inj_onD)
  qed
qed

theorem every_shard_owned_witness:
  "\<exists>p live. cluster_reachable 2 (p, live, 4) \<and> 1 \<notin> set live \<and>
     (\<exists>!w. w \<in> set live \<and> (\<exists>index i count shards. js_get (pm_indexes p) w = Some index \<and>
        workerIdentity (\<lambda>_. NotInt) (fork_env index 2) = (i, count) \<and> shardsForWorker i count = Inr shards \<and> 210 \<in> set shards))"
proof -
  have c: "parseWorkerCount 2 None = Inr 2" by (simp add: parseWorkerCount_def MAX_WORKERS_def)
  obtain p1 out where x: "worker_exit (\<lambda>_. True) 1 3 (start_primary 2) = (p1, out)" by fastforce
  define p where "p = exit_during_shutdown [] p1"
  have st: "cluster_reachable 2 (start_primary 2, [1, Suc 1], 3)"
    using cluster_reachable.start [of 2] by (simp add: upt_rec)
  have down: "\<not> pm_shuttingDown (start_primary 2)" "\<not> pm_shuttingDown p"
    using x start_workers_get [of init_primary 1 "[0 .. 2 - 1]"]
    by (auto simp: p_def exit_frame start_primary_def init_primary_def worker_exit_def removeWorkerFromSnapshots_def startWorker_def
        split_beta Let_def drop_all_frame)
  have reach: "cluster_reachable 2 (p, [2, 3], 4)"
    using cluster_reachable.step [OF st cluster_step.exits [OF _ x p_def [symmetric]]] down(1) by (simp add: numeral_2_eq_2)
  have "valid_shard 210" by (simp add: valid_shard_def LINK_KEY_SHARDS_def)
  from every_shard_owned [OF c _ reach down(2) this, of "\<lambda>_. NotInt"] reach show ?thesis
    by (intro exI [of _ p] exI [of _ "[2, 3]"] conjI) simp_all
qed

end
