(* ===== verification/Warm_Cache.thy ===== *)
theory Warm_Cache
  imports Cached_Store Config "HOL-Library.List_Lexorder"
begin

text \<open>
  \<open>src/src/jobs/warm-cache.ts\<close>: the job that loads the links from PostgreSQL into Redis, page by page in
  the order of the codes.  Other processes may change the table between two pages, so each page has
  an environment of its own; the order of the codes is the collation of the database, a parameter.
\<close>

section \<open>The job\<close>

definition cacheLink :: "'r redis \<Rightarrow> int \<Rightarrow> net \<Rightarrow> int \<Rightarrow> link_row \<Rightarrow> 'r \<Rightarrow> 'r \<times> bool" where
  "cacheLink R ttlSeconds n now row r =
     (case linkKey (row_code row) of
        Inl _ \<Rightarrow> (r, False)
      | Inr key \<Rightarrow>
          (let ttlMs = (if ttlSeconds = 0 then 0 else ttlSeconds * 1000);
               write = (\<lambda>ttlMs r.
                 (let r1 = redis_hset R key (cache_fields (row_code row) (target_url row)
                             (toISOString (created_at row)) (expiry_text (expires_at row)) (int_text (clicks row))) r
                  in (if ttlMs = 0 then redis_persist R key r1 else redis_pexpire R key ttlMs r1, ())))
           in case expires_at row of
                None \<Rightarrow> (let (r', done) = remote n (write ttlMs) r in (r', done \<noteq> None))
              | Some e \<Rightarrow>
                  (let remaining = e - now
                   in if remaining \<le> 0 then (r, True)
                      else let (r', done) = remote n (write (if ttlMs = 0 then remaining else min ttlMs remaining)) r
                           in (r', done \<noteq> None))))"

text \<open>What a page meets: the table and the clock of its query, how its connection behaves, and the connection
  and the clock of the write of each of its rows.\<close>

record 'p page_env =
  pe_table :: 'p
  pe_now :: int
  pe_query :: net
  pe_call :: "nat \<Rightarrow> net \<times> int"

text \<open>\<open>Promise.all(rows.map(cacheLink))\<close>: every row is tried; the batch fails if one of them does.\<close>

fun warm_batch :: "'r redis \<Rightarrow> int \<Rightarrow> (nat \<Rightarrow> net \<times> int) \<Rightarrow> nat \<Rightarrow> link_row list \<Rightarrow> 'r \<Rightarrow> 'r \<times> bool" where
  "warm_batch R ttlSeconds call k [] r = (r, True)"
| "warm_batch R ttlSeconds call k (row # rows) r =
     (let (r1, ok1) = cacheLink R ttlSeconds (fst (call k)) (snd (call k)) row r;
          (r2, ok2) = warm_batch R ttlSeconds call (Suc k) rows r1
      in (r2, ok1 \<and> ok2))"

fun insert_row :: "(string \<Rightarrow> string \<Rightarrow> bool) \<Rightarrow> link_row \<Rightarrow> link_row list \<Rightarrow> link_row list" where
  "insert_row before row [] = [row]"
| "insert_row before row (x # xs) = (if before (row_code x) (row_code row) then x # insert_row before row xs else row # x # xs)"

definition order_rows :: "(string \<Rightarrow> string \<Rightarrow> bool) \<Rightarrow> link_row list \<Rightarrow> link_row list" where
  "order_rows before rows = foldr (insert_row before) rows []"

definition live_row :: "int \<Rightarrow> link_row \<Rightarrow> bool" where
  "live_row now row \<longleftrightarrow> (case expires_at row of None \<Rightarrow> True | Some e \<Rightarrow> now < e)"

text \<open>The query of a page.\<close>

definition warm_page :: "'p pg_engine \<Rightarrow> (string \<Rightarrow> string \<Rightarrow> bool) \<Rightarrow> 'p page_env \<Rightarrow> string \<Rightarrow> int \<Rightarrow> link_row list" where
  "warm_page E before env lastCode n =
     take (nat n) (order_rows before
       (filter (\<lambda>row. before lastCode (row_code row) \<and> live_row (pe_now env) row) (pg_scan E (pe_table env))))"

text \<open>The loop over the pages, the number of loaded links where it completes.\<close>

function warm_loop ::
  "'r redis \<Rightarrow> 'p pg_engine \<Rightarrow> (string \<Rightarrow> string \<Rightarrow> bool) \<Rightarrow> int \<Rightarrow> int \<Rightarrow> int \<Rightarrow> (nat \<Rightarrow> 'p page_env) \<Rightarrow>
   nat \<Rightarrow> string \<Rightarrow> int \<Rightarrow> 'r \<Rightarrow> 'r \<times> int option" where
  "warm_loop R E before ttlSeconds batchSize loadLimit envs i lastCode loaded r =
     (if \<not> loaded < loadLimit then (r, Some loaded)
      else if pe_query (envs i) \<noteq> NetOk then (r, None)
      else let rows = warm_page E before (envs i) lastCode (min batchSize (loadLimit - loaded))
           in if rows = [] then (r, Some loaded)
              else let (r', ok) = warm_batch R ttlSeconds (pe_call (envs i)) 0 rows r
                   in if \<not> ok then (r', None)
                      else warm_loop R E before ttlSeconds batchSize loadLimit envs (Suc i) (row_code (last rows))
                             (loaded + int (length rows)) r')"
  by pat_completeness auto

termination
  by (relation "measure (\<lambda>(R, E, before, ttlSeconds, batchSize, loadLimit, envs, i, lastCode, loaded, r). nat (loadLimit - loaded))")
    (auto simp: neq_Nil_conv)

declare warm_loop.simps [simp del]

text \<open>The whole job: \<open>Inl\<close> a rejected argument, else the number of loaded links or \<open>None\<close> when it failed.\<close>

definition warm_cache ::
  "(string \<Rightarrow> js_number) \<Rightarrow> 'r redis \<Rightarrow> 'p pg_engine \<Rightarrow> (string \<Rightarrow> string \<Rightarrow> bool) \<Rightarrow> env \<Rightarrow> string list \<Rightarrow> bool \<Rightarrow>
   (nat \<Rightarrow> 'p page_env) \<Rightarrow> 'r \<Rightarrow> 'r \<times> (config_error + int option)" where
  "warm_cache numbers R E before vars argv connects envs r =
     (let env = loadJobEnv numbers vars; args = parseArgs argv []
      in case positiveIntegerArg numbers args ''batch'' 2000 False of
           Inl e \<Rightarrow> (r, Inl e)
         | Inr batchSize \<Rightarrow>
             (case positiveIntegerArg numbers args ''ttl'' (job_redisCacheTtlSeconds env) True of
                Inl e \<Rightarrow> (r, Inl e)
              | Inr ttlSeconds \<Rightarrow>
                  (case positiveIntegerArg numbers args ''limit'' MAX_SAFE_INTEGER False of
                     Inl e \<Rightarrow> (r, Inl e)
                   | Inr loadLimit \<Rightarrow>
                       if \<not> connects then (r, Inr None)
                       else map_prod id Inr (warm_loop R E before ttlSeconds batchSize loadLimit envs 0 [] 0 r))))"

section \<open>The order of the rows\<close>

text \<open>What the job relies on: the collation is a strict order of all codes with the empty text first.\<close>

locale collation =
  fixes before :: "string \<Rightarrow> string \<Rightarrow> bool"
  assumes irrefl: "\<not> before a a"
    and trans: "before a b \<Longrightarrow> before b c \<Longrightarrow> before a c"
    and connex: "a \<noteq> b \<Longrightarrow> before a b \<or> before b a"
    and least: "a \<noteq> [] \<Longrightarrow> before [] a"
begin

abbreviation in_order :: "link_row list \<Rightarrow> bool" where
  "in_order rows \<equiv> sorted_wrt (\<lambda>x y. before (row_code x) (row_code y)) rows"

lemma set_insert_row: "set (insert_row before row rows) = insert row (set rows)"
  by (induction rows) auto

lemma insert_row_order:
  "in_order rows \<Longrightarrow> row_code row \<notin> row_code ` set rows \<Longrightarrow> in_order (insert_row before row rows)"
proof (induction rows)
  case (Cons x xs)
  show ?case
  proof (cases "before (row_code x) (row_code row)")
    case True
    with Cons show ?thesis by (simp add: set_insert_row)
  next
    case False
    with Cons.prems(2) connex have "before (row_code row) (row_code x)" by auto
    with False Cons.prems(1) show ?thesis using trans by auto
  qed
qed simp

lemma set_order_rows: "set (order_rows before rows) = set rows"
  unfolding order_rows_def by (induction rows) (simp_all add: set_insert_row)

lemma order_rows_order: "distinct (map row_code rows) \<Longrightarrow> in_order (order_rows before rows)"
proof (induction rows)
  case (Cons x xs)
  have "set (order_rows before xs) = set xs" by (rule set_order_rows)
  with Cons insert_row_order [of "order_rows before xs" x] show ?case by (simp add: order_rows_def)
qed (simp add: order_rows_def)

text \<open>A row that a page leaves out comes after all of its rows, and the page is full.\<close>

lemma page_complete:
  assumes "distinct (map row_code (pg_scan E (pe_table env)))" "row \<in> set (pg_scan E (pe_table env))"
    and "before lastCode (row_code row)" "live_row (pe_now env) row"
    and "row \<notin> set (warm_page E before env lastCode n)" "x \<in> set (warm_page E before env lastCode n)"
  shows "before (row_code x) (row_code row)"
proof -
  let ?rows = "filter (\<lambda>row. before lastCode (row_code row) \<and> live_row (pe_now env) row) (pg_scan E (pe_table env))"
  let ?s = "order_rows before ?rows"
  have "in_order (take (nat n) ?s @ drop (nat n) ?s)"
    using order_rows_order [of ?rows] distinct_map_filter [OF assms(1)] by simp
  then have sep: "\<forall>x \<in> set (take (nat n) ?s). \<forall>y \<in> set (drop (nat n) ?s). before (row_code x) (row_code y)"
    unfolding sorted_wrt_append by blast
  have "row \<in> set ?s" using assms(2-4) by (simp add: set_order_rows)
  then have "row \<in> set (take (nat n) ?s) \<union> set (drop (nat n) ?s)" by (metis append_take_drop_id set_append)
  with assms(5,6) sep show ?thesis unfolding warm_page_def by blast
qed

lemma page_empty:
  assumes "row \<in> set (pg_scan E (pe_table env))" "before lastCode (row_code row)" "live_row (pe_now env) row" "1 \<le> n"
  shows "warm_page E before env lastCode n \<noteq> []"
proof -
  have "row \<in> set (order_rows before
     (filter (\<lambda>row. before lastCode (row_code row) \<and> live_row (pe_now env) row) (pg_scan E (pe_table env))))"
    using assms(1-3) by (simp add: set_order_rows)
  then show ?thesis using assms(4) unfolding warm_page_def by (cases "nat n") auto
qed

lemma page_last:
  assumes "warm_page E before env lastCode n \<noteq> []"
  shows "before lastCode (row_code (last (warm_page E before env lastCode n)))"
proof -
  have "last (warm_page E before env lastCode n) \<in> set (warm_page E before env lastCode n)" using assms by simp
  then show ?thesis unfolding warm_page_def by (auto dest!: in_set_takeD simp: set_order_rows)
qed

end

text \<open>The order of the bytes, the collation \<open>C\<close>.\<close>

interpretation byte_order: collation "(<)"
  by unfold_locales (auto simp: neq_Nil_conv)

section \<open>What the job leaves in the cache\<close>

definition warm_ttl :: "int \<Rightarrow> int \<Rightarrow> link_row \<Rightarrow> int option" where
  "warm_ttl ttlSeconds now row =
     (case expires_at row of
        None \<Rightarrow> if ttlSeconds = 0 then None else Some (ttlSeconds * 1000)
      | Some e \<Rightarrow> Some (if ttlSeconds = 0 then e - now else min (ttlSeconds * 1000) (e - now)))"

text \<open>A code is warm: its entry reads back as its row in the table of some page and has the time to live of a
  clock of that page.\<close>

definition warm ::
  "(string \<Rightarrow> int option) \<Rightarrow> (string \<Rightarrow> js_number) \<Rightarrow> 'p pg_engine \<Rightarrow> int \<Rightarrow> (nat \<Rightarrow> 'p page_env) \<Rightarrow> keyspace \<Rightarrow> string \<Rightarrow> bool" where
  "warm dates numbers E ttlSeconds envs v c \<longleftrightarrow>
     (\<exists>i k row. row \<in> set (pg_scan E (pe_table (envs i))) \<and> row_code row = c \<and>
        decode_cached dates numbers (link_fields v c) = Some (mapLink row) \<and>
        link_ttl v c = warm_ttl ttlSeconds (snd (pe_call (envs i) k)) row)"

text \<open>A code that has a link, which does not expire, in the table of every page.\<close>

definition always_live :: "'p pg_engine \<Rightarrow> (nat \<Rightarrow> 'p page_env) \<Rightarrow> string \<Rightarrow> bool" where
  "always_live E envs c \<longleftrightarrow> (\<forall>i. \<exists>row \<in> set (pg_scan E (pe_table (envs i))). row_code row = c \<and>
     live_row (pe_now (envs i)) row \<and> (\<forall>k. live_row (snd (pe_call (envs i) k)) row))"

definition others_kept :: "keyspace \<Rightarrow> keyspace \<Rightarrow> bool" where
  "others_kept v v' \<longleftrightarrow> (\<forall>key. (\<forall>c. key \<noteq> link_key c) \<longrightarrow> v' key = v key)"

definition healthy :: "(nat \<Rightarrow> 'p page_env) \<Rightarrow> bool" where
  "healthy envs \<longleftrightarrow> (\<forall>i. pe_query (envs i) = NetOk \<and> (\<forall>k. fst (pe_call (envs i) k) = NetOk))"

context redis_server
begin

lemma cacheLink_effect:
  assumes "typed (view r)" "0 \<le> ttlSeconds"
  shows "snd (cacheLink R ttlSeconds NetOk now row r) \<and>
     view (fst (cacheLink R ttlSeconds NetOk now row r)) =
       (if live_row now row
        then (view r)(link_key (row_code row) \<mapsto>
               (RHash (set_fields (link_hash (mapLink row)) (link_fields (view r) (row_code row))),
                warm_ttl ttlSeconds now row))
        else view r)"
proof -
  let ?k = "link_key (row_code row)" and ?h = "link_hash (mapLink row)"
  have ne: "?h \<noteq> []" "set_fields ?h h \<noteq> []" for h
    using link_hash_fields(1) [of "mapLink row" h] by (auto simp: link_hash_def cache_fields_def)
  have hash: "cache_fields (row_code row) (target_url row) (toISOString (created_at row))
      (expiry_text (expires_at row)) (int_text (clicks row)) = ?h"
    by (simp add: link_hash_def mapLink_def)
  have v: "view (redis_hset R ?k ?h r) =
      (view r)(?k \<mapsto> (RHash (set_fields ?h (link_fields (view r) (row_code row))), ttl_at (view r ?k)))"
    using assms(1) ne by (simp add: hset_law put_hash_def link_fields_def)
  have w: "view (redis_pexpire R ?k t (redis_hset R ?k ?h r)) =
      (view r)(?k \<mapsto> (RHash (set_fields ?h (link_fields (view r) (row_code row))), Some t))" if "0 < t" for t
    using that by (simp add: pexpire_law v put_ttl_def)
  have p: "view (redis_persist R ?k (redis_hset R ?k ?h r)) =
      (view r)(?k \<mapsto> (RHash (set_fields ?h (link_fields (view r) (row_code row))), None))"
    by (simp add: persist_law v drop_ttl_def)
  show ?thesis unfolding cacheLink_def linkKey_eq hash using assms(2) w p
    by (cases "expires_at row") (auto simp: live_row_def warm_ttl_def Let_def min_def)
qed

lemma cacheLink_warm:
  assumes "typed (view r)" "0 \<le> ttlSeconds" "row \<in> set (pg_scan E (pe_table (envs i)))"
    and "link_ok (mapLink row)" "now = snd (pe_call (envs i) k)"
  defines "r' \<equiv> fst (cacheLink R ttlSeconds NetOk now row r)"
  shows "typed (view r') \<and> others_kept (view r) (view r') \<and>
     (live_row now row \<longrightarrow> warm dates numbers E ttlSeconds envs (view r') (row_code row)) \<and>
     (\<forall>c. warm dates numbers E ttlSeconds envs (view r) c \<longrightarrow> warm dates numbers E ttlSeconds envs (view r') c)"
proof (cases "live_row now row")
  case False
  then have "view r' = view r" using cacheLink_effect [OF assms(1,2), of now row] by (simp add: r'_def)
  with False assms(1) show ?thesis by (simp add: others_kept_def)
next
  case True
  let ?c = "row_code row" and ?h = "set_fields (link_hash (mapLink row)) (link_fields (view r) (row_code row))"
  have v: "view r' = (view r)(link_key ?c \<mapsto> (RHash ?h, warm_ttl ttlSeconds now row))"
    using cacheLink_effect [OF assms(1,2), of now row] True by (simp add: r'_def)
  have "decode_cached dates numbers ?h = Some (mapLink row)" by (rule decode_link_hash [OF assms(4)])
  then have here: "warm dates numbers E ttlSeconds envs (view r') ?c"
    unfolding warm_def using assms(3,5)
    by (intro exI [of _ i] exI [of _ k] exI [of _ row]) (simp add: v link_fields_def link_ttl_def)
  have other: "link_fields (view r') c = link_fields (view r) c" "link_ttl (view r') c = link_ttl (view r) c"
    if "c \<noteq> ?c" for c using that by (simp_all add: v link_fields_def link_ttl_def key_simps)
  have "warm dates numbers E ttlSeconds envs (view r') c" if "warm dates numbers E ttlSeconds envs (view r) c" for c
  proof (cases "c = ?c")
    case False
    with other that show ?thesis unfolding warm_def by simp
  qed (simp add: here)
  moreover have "typed (view r')" unfolding v by (rule typed_upd [OF assms(1)]) (auto simp: key_kinds_distinct)
  moreover have "others_kept (view r) (view r')" by (simp add: others_kept_def v)
  ultimately show ?thesis using here by blast
qed

lemma warm_batch_spec:
  assumes "0 \<le> ttlSeconds" "\<forall>k. fst (pe_call (envs i) k) = NetOk" "rows_readable E (pe_table (envs i))"
  shows "typed (view r) \<Longrightarrow> set rows \<subseteq> set (pg_scan E (pe_table (envs i))) \<Longrightarrow>
     warm_batch R ttlSeconds (pe_call (envs i)) k rows r = (r', ok) \<Longrightarrow>
     ok \<and> typed (view r') \<and> others_kept (view r) (view r') \<and>
     (\<forall>row \<in> set rows. (\<forall>k. live_row (snd (pe_call (envs i) k)) row) \<longrightarrow>
        warm dates numbers E ttlSeconds envs (view r') (row_code row)) \<and>
     (\<forall>c. warm dates numbers E ttlSeconds envs (view r) c \<longrightarrow> warm dates numbers E ttlSeconds envs (view r') c)"
proof (induction rows arbitrary: k r r' ok)
  case (Cons row rows)
  obtain r1 ok1 where c: "cacheLink R ttlSeconds NetOk (snd (pe_call (envs i) k)) row r = (r1, ok1)" by fastforce
  obtain r2 ok2 where b: "warm_batch R ttlSeconds (pe_call (envs i)) (Suc k) rows r1 = (r2, ok2)" by fastforce
  have mem: "row \<in> set (pg_scan E (pe_table (envs i)))" "link_ok (mapLink row)"
    using Cons.prems(2) assms(3) by (auto simp: rows_readable_def)
  have first: "ok1" using cacheLink_effect [OF Cons.prems(1) assms(1), of "snd (pe_call (envs i) k)" row] c by simp
  note one = cacheLink_warm [where envs = envs and i = i and k = k and now = "snd (pe_call (envs i) k)" and dates = dates and numbers = numbers,
      OF Cons.prems(1) assms(1) mem refl, unfolded c fst_conv]
  have sub: "set rows \<subseteq> set (pg_scan E (pe_table (envs i)))" using Cons.prems(2) by simp
  note rest = Cons.IH [OF _ sub b]
  have "(r', ok) = (r2, ok1 \<and> ok2)" using Cons.prems(3) c b assms(2) by simp
  moreover have "others_kept (view r) (view r2)" using one rest by (simp add: others_kept_def)
  ultimately show ?case using one rest first by auto
qed (simp add: others_kept_def)

end

text \<open>The invariant of the loop: every code up to the last loaded one that has a live link throughout is warm.\<close>

definition warm_upto ::
  "(string \<Rightarrow> string \<Rightarrow> bool) \<Rightarrow> 'p pg_engine \<Rightarrow> (nat \<Rightarrow> 'p page_env) \<Rightarrow> string \<Rightarrow> (string \<Rightarrow> bool) \<Rightarrow> bool" where
  "warm_upto before E envs lastCode W \<longleftrightarrow> (\<forall>c. always_live E envs c \<longrightarrow> \<not> before lastCode c \<longrightarrow> W c)"

lemma warm_upto_page:
  assumes "collation before" "postgres E" "warm_upto before E envs lastCode W"
    and rows: "rows = warm_page E before (envs i) lastCode n" "rows \<noteq> []"
    and new: "\<And>row. row \<in> set rows \<Longrightarrow> (\<forall>k. live_row (snd (pe_call (envs i) k)) row) \<Longrightarrow> W' (row_code row)"
    and old: "\<And>c. W c \<Longrightarrow> W' c"
  shows "warm_upto before E envs (row_code (last rows)) W'"
  unfolding warm_upto_def
proof (intro allI impI)
  fix c
  assume c: "always_live E envs c" "\<not> before (row_code (last rows)) c"
  show "W' c"
  proof (cases "before lastCode c")
    case False
    with assms(3) c(1) old show ?thesis unfolding warm_upto_def by blast
  next
    case True
    obtain row where row: "row \<in> set (pg_scan E (pe_table (envs i)))" "row_code row = c"
      "live_row (pe_now (envs i)) row" "\<forall>k. live_row (snd (pe_call (envs i) k)) row"
      using c(1) unfolding always_live_def by blast
    have "row \<in> set rows"
    proof (rule ccontr)
      assume out: "row \<notin> set rows"
      have "last rows \<in> set rows" using rows(2) by simp
      from collation.page_complete [OF assms(1) postgres.primary_key [OF assms(2)] row(1), of lastCode n "last rows"]
        True row(2,3) out this c(2) show False unfolding rows(1) by blast
    qed
    with new row(2,4) show ?thesis by blast
  qed
qed

lemma warm_loop_spec:
  assumes srv: "redis_server R view" and col: "collation before" and pg: "postgres E"
    and env: "healthy envs" "\<forall>i. rows_readable E (pe_table (envs i))" and ttl: "0 \<le> ttlSeconds" "1 \<le> batchSize"
  shows "typed (view r) \<Longrightarrow> loaded \<le> loadLimit \<Longrightarrow>
     warm_upto before E envs lastCode (warm dates numbers E ttlSeconds envs (view r)) \<Longrightarrow>
     warm_loop R E before ttlSeconds batchSize loadLimit envs i lastCode loaded r = (r', res) \<Longrightarrow>
     \<exists>n. res = Some n \<and> loaded \<le> n \<and> n \<le> loadLimit \<and> typed (view r') \<and> others_kept (view r) (view r') \<and>
       (n < loadLimit \<longrightarrow> (\<forall>c. always_live E envs c \<longrightarrow> warm dates numbers E ttlSeconds envs (view r') c))"
proof (induction "nat (loadLimit - loaded)" arbitrary: i lastCode loaded r rule: less_induct)
  case less
  let ?W = "\<lambda>r. warm dates numbers E ttlSeconds envs (view r)"
  note loop = less.prems(4) [unfolded warm_loop.simps [of R E before ttlSeconds batchSize loadLimit envs i lastCode loaded r]]
  show ?case
  proof (cases "loaded < loadLimit")
    case False
    with loop less.prems(1,2) show ?thesis by (auto simp: others_kept_def)
  next
    case True
    define n where "n = min batchSize (loadLimit - loaded)"
    have n: "1 \<le> n" "n \<le> loadLimit - loaded" using True ttl(2) by (auto simp: n_def)
    define rows where "rows = warm_page E before (envs i) lastCode n"
    have loop': "(if rows = [] then (r, Some loaded)
              else let (r', ok) = warm_batch R ttlSeconds (pe_call (envs i)) 0 rows r
                   in if \<not> ok then (r', None)
                      else warm_loop R E before ttlSeconds batchSize loadLimit envs (Suc i) (row_code (last rows))
                             (loaded + int (length rows)) r') = (r', res)"
      using loop True env(1) unfolding rows_def n_def healthy_def by (simp add: Let_def)
    show ?thesis
    proof (cases "rows = []")
      case Nil: True
      have "?W r c" if "always_live E envs c" for c
      proof -
        have "\<not> before lastCode c"
        proof
          assume b: "before lastCode c"
          obtain row where "row \<in> set (pg_scan E (pe_table (envs i)))" "row_code row = c" "live_row (pe_now (envs i)) row"
            using \<open>always_live E envs c\<close> unfolding always_live_def by blast
          with collation.page_empty [OF col, of row E "envs i" lastCode n] b n(1) Nil show False
            unfolding rows_def by blast
        qed
        with less.prems(3) that show ?thesis unfolding warm_upto_def by blast
      qed
      with loop' Nil True less.prems(1) show ?thesis by (auto simp: others_kept_def)
    next
      case page: False
      obtain r1 ok where b: "warm_batch R ttlSeconds (pe_call (envs i)) 0 rows r = (r1, ok)" by fastforce
      have sub: "set rows \<subseteq> set (pg_scan E (pe_table (envs i)))"
        unfolding rows_def warm_page_def by (auto dest!: in_set_takeD simp: collation.set_order_rows [OF col])
      have nets: "\<forall>k. fst (pe_call (envs i) k) = NetOk" using env(1) by (simp add: healthy_def)
      note batch = redis_server.warm_batch_spec [where envs = envs and i = i and dates = dates and numbers = numbers,
          OF srv ttl(1) nets _ less.prems(1) sub b]
      have b1: "ok" "typed (view r1)" "others_kept (view r) (view r1)"
        "\<And>row. row \<in> set rows \<Longrightarrow> (\<forall>k. live_row (snd (pe_call (envs i) k)) row) \<Longrightarrow> ?W r1 (row_code row)"
        "\<And>c. ?W r c \<Longrightarrow> ?W r1 c"
        using batch env(2) by blast+
      have upto: "warm_upto before E envs (row_code (last rows)) (?W r1)"
        by (rule warm_upto_page [where W' = "?W r1", OF col pg less.prems(3) rows_def page b1(4,5)])
      have len: "int (length rows) \<le> n" "0 < int (length rows)"
        using n(1) page unfolding rows_def warm_page_def by auto
      have "warm_loop R E before ttlSeconds batchSize loadLimit envs (Suc i) (row_code (last rows))
              (loaded + int (length rows)) r1 = (r', res)"
        using loop' page b b1(1) by simp
      from less.hyps [OF _ b1(2) _ upto this] len n(2) True
      obtain m where m: "res = Some m" "loaded + int (length rows) \<le> m" "m \<le> loadLimit" "typed (view r')"
        "others_kept (view r1) (view r')"
        "m < loadLimit \<longrightarrow> (\<forall>c. always_live E envs c \<longrightarrow> ?W r' c)" by auto
      have "others_kept (view r) (view r')" using b1(3) m(5) by (simp add: others_kept_def)
      with m len(2) show ?thesis by auto
    qed
  qed
qed



end
