(* ===== verification/Server.thy ===== *)
theory Server
  imports Config Sync_Fleet Sync_Schedule
begin

text \<open>
  \<open>src/src/server.ts\<close>: a worker process.  How it builds its components from the environment, the lines it
  adds to the metrics, how it starts, and how it stops: first the sync worker, then the click buffer,
  whose sink is the PostgreSQL store, then the metrics and the connections.
\<close>

section \<open>Building the components\<close>

datatype server_error =
    ConfigFailed config_error | BufferFailed buffer_error | StoreFailed wb_error | ScramblerFailed alloc_error
  | ShardsFailed key_error | WorkerFailed worker_error | LimiterFailedToBuild limit_error | KeysFailed auth_error

record server_parts =
  sp_config :: app_config
  sp_clicks :: click_buffer
  sp_share :: "int option"
  sp_roundKeys :: "u32 list option"
  sp_sync :: "sync_options option"
  sp_limiter :: rate_limiter
  sp_hashes :: "byte list list"

abbreviation failing :: "('e \<Rightarrow> server_error) \<Rightarrow> 'e + 'a \<Rightarrow> server_error + 'a" where
  "failing f x \<equiv> map_sum f id x"

definition build_server ::
  "(string \<Rightarrow> js_number) \<Rightarrow> (string \<Rightarrow> string \<Rightarrow> byte list) \<Rightarrow> (string \<Rightarrow> byte list) \<Rightarrow> env \<Rightarrow> server_error + server_parts" where
  "build_server numbers hmac hashApiKey env =
     and_then (failing ConfigFailed (loadConfig numbers env)) (\<lambda>config.
     and_then (failing BufferFailed (ClickBuffer (IntNum (cfg_clickFlushIntervalMs config))
        (IntNum (cfg_clickBufferMax config)) (IntNum 10))) (\<lambda>b0.
     and_then (failing BufferFailed (start_timer b0)) (\<lambda>clickBuffer.
     and_then (if cfg_linkWriteMode config = WriteBehindMode
        then and_then (failing StoreFailed (WriteBehindLinkStore (IntNum (cfg_writeBehindMaxPending config)))) (\<lambda>share.
             and_then (failing ScramblerFailed (CodeScrambler hmac (case cfg_codeScrambleSecret config of Some s \<Rightarrow> s | None \<Rightarrow> [])))
               (\<lambda>keys. Inr (Some share, Some keys)))
        else Inr (None, None)) (\<lambda>(share, roundKeys).
     and_then (if cfg_linkSyncEnabled config
        then (let (index, count) = workerIdentity numbers env
              in and_then (failing ShardsFailed (shardsForWorker index count)) (\<lambda>shards.
                 and_then (failing WorkerFailed (LinkSyncWorker shards (IntNum (cfg_linkSyncIntervalMs config))
                   (IntNum (cfg_linkSyncBatchSize config)) (IntNum (cfg_redisCacheTtlSeconds config)) None None))
                   (\<lambda>opts. Inr (Some opts))))
        else Inr None) (\<lambda>sync.
     and_then (failing LimiterFailedToBuild (RedisRateLimiter (cfg_createRateLimitMax config)
        (cfg_createRateLimitWindowSeconds config) ''wraplink:rate:create'')) (\<lambda>limiter.
     and_then (failing KeysFailed (HashedApiKeyAuthenticator hashApiKey (cfg_createApiKeys config))) (\<lambda>hashes.
       Inr \<lparr>sp_config = config, sp_clicks = clickBuffer, sp_share = share, sp_roundKeys = roundKeys, sp_sync = sync,
            sp_limiter = limiter, sp_hashes = hashes\<rparr>)))))))"

section \<open>The lines added to the metrics\<close>

text \<open>\<open>estimate\<close> and \<open>backlog\<close> are \<open>None\<close> where their query was rejected.\<close>

definition extraMetrics :: "nat \<Rightarrow> click_buffer \<Rightarrow> int option \<Rightarrow> bool \<Rightarrow> nat option \<Rightarrow> string" where
  "extraMetrics pid b estimate isReady backlog =
     join_with [CHR 0x0A]
       ([''# TYPE shortener_click_buffer_pending gauge'',
         ''shortener_click_buffer_pending{pid='' @ [CHR 0x22] @ js_String pid @ [CHR 0x22] @ ''} '' @ js_String (pendingClicks b),
         ''# TYPE shortener_click_buffer_dropped gauge'',
         ''shortener_click_buffer_dropped{pid='' @ [CHR 0x22] @ js_String pid @ [CHR 0x22] @ ''} '' @ js_String (droppedClicks b)]
        @ (case estimate of
             None \<Rightarrow> []
           | Some n \<Rightarrow> [''# TYPE shortener_links_estimated gauge'', ''shortener_links_estimated '' @ int_text n])
        @ (if isReady
           then (case backlog of
                   None \<Rightarrow> []
                 | Some n \<Rightarrow> [''# TYPE shortener_link_sync_backlog gauge'', ''shortener_link_sync_backlog '' @ js_String n])
           else []))
     @ [CHR 0x0A]"

section \<open>Closing the click buffer into PostgreSQL\<close>

definition sink_batch :: "click_map \<Rightarrow> (string, int) js_map" where
  "sink_batch batch = map (\<lambda>(code, n). (code, int n)) batch"

text \<open>The buffer's sink is \<open>recordClickBatch\<close> of the store.\<close>

definition sink_answer :: "'p pg_engine \<Rightarrow> net \<Rightarrow> click_map \<Rightarrow> 'p \<Rightarrow> 'p \<times> sink_outcome" where
  "sink_answer E n batch p =
     (let (p', r) = pg_recordClickBatch E n (sink_batch batch) p
      in (p', case r of Inl _ \<Rightarrow> SinkRejected | Inr unmatched \<Rightarrow> SinkResolved unmatched))"

text \<open>The loop of \<open>close\<close> on this sink, one connection per flush; \<open>None\<close> when they run out first.\<close>

fun close_clicks_loop :: "'p pg_engine \<Rightarrow> net list \<Rightarrow> click_buffer \<Rightarrow> 'p \<Rightarrow> (close_result \<times> click_buffer \<times> 'p) option" where
  "close_clicks_loop E nets b p =
     (if pending b = [] then Some (CloseDone, b, p)
      else case nets of
             [] \<Rightarrow> None
           | n # nets' \<Rightarrow>
               (let b1 = flush_begin b;
                    (p', answer) = sink_answer E n (case inflight b1 of Some batch \<Rightarrow> batch | None \<Rightarrow> []) p;
                    b2 = flush_settle answer b1
                in if answer = SinkRejected then Some (CloseRejected, b2, p') else close_clicks_loop E nets' b2 p'))"

declare close_clicks_loop.simps [simp del]

definition close_clicks :: "'p pg_engine \<Rightarrow> net list \<Rightarrow> click_buffer \<Rightarrow> 'p \<Rightarrow> (close_result \<times> click_buffer \<times> 'p) option" where
  "close_clicks E nets b p =
     (if closed b then Some (CloseDone, b, p)
      else let b' = b\<lparr>closed := True, timer := False\<rparr>
           in case inflight b' of
                None \<Rightarrow> close_clicks_loop E nets b' p
              | Some batch \<Rightarrow>
                  if batch = [] then close_clicks_loop E nets (flush_settle SinkRejected b') p
                  else (case nets of
                          [] \<Rightarrow> None
                        | n # nets' \<Rightarrow>
                            (let (p', answer) = sink_answer E n batch p;
                                 b2 = flush_settle answer b'
                             in if answer = SinkRejected then Some (CloseRejected, b2, p')
                                else close_clicks_loop E nets' b2 p')))"

section \<open>Starting and stopping\<close>

record ('r, 'p) server =
  srv_redis :: 'r
  srv_db :: 'p
  srv_clicks :: click_buffer
  srv_worker :: "worker option"
  srv_metricsClosed :: bool
  srv_poolOpen :: bool
  srv_redisOpen :: bool
  srv_shuttingDown :: bool
  srv_exitCode :: "int option"
  srv_connected :: bool

text \<open>\<open>syncWorker.close()\<close>: \<open>running\<close> is what the pass in progress still does, \<open>plan\<close> the last pass.\<close>

definition close_worker ::
  "'r redis \<Rightarrow> sync_options \<Rightarrow> (string \<Rightarrow> int option) \<Rightarrow> ('r \<times> 'p \<Rightarrow> 'r \<times> 'p) \<Rightarrow> 'p tick_plan \<Rightarrow> worker \<Rightarrow> 'r \<times> 'p \<Rightarrow>
   worker \<times> ('r \<times> 'p)" where
  "close_worker R opts other running plan w rp =
     (let rp' = (if wk_running w \<and> \<not> wk_closed w then running rp else rp);
          (w', begins) = worker_close w
      in if begins then (tick_settled w', fst (processShards (RedisSyncQueue R) opts other plan rp')) else (w', rp'))"

text \<open>\<open>closeResources\<close>: the state and whether the promise resolves.\<close>

definition closeResources ::
  "'r redis \<Rightarrow> 'p pg_engine \<Rightarrow> sync_options \<Rightarrow> (string \<Rightarrow> int option) \<Rightarrow> bool \<Rightarrow> ('r \<times> 'p \<Rightarrow> 'r \<times> 'p) \<Rightarrow> 'p tick_plan \<Rightarrow>
   net list \<Rightarrow> bool \<Rightarrow> bool \<Rightarrow> ('r, 'p) server \<Rightarrow> (('r, 'p) server \<times> bool) option" where
  "closeResources R E opts other isReady running plan nets poolEnds redisCloses s =
     (let s1 = (case srv_worker s of
                  None \<Rightarrow> s
                | Some w \<Rightarrow>
                    if \<not> isReady then s
                    else let (w', rp) = close_worker R opts other running plan w (srv_redis s, srv_db s)
                         in s\<lparr>srv_worker := Some w', srv_redis := fst rp, srv_db := snd rp\<rparr>)
      in case close_clicks E nets (srv_clicks s1) (srv_db s1) of
           None \<Rightarrow> None
         | Some (res, b, p) \<Rightarrow>
             (let s2 = s1\<lparr>srv_clicks := b, srv_db := p\<rparr>
              in if res = CloseRejected then Some (s2, False)
                 else Some (s2\<lparr>srv_metricsClosed := True, srv_poolOpen := \<not> poolEnds,
                                   srv_redisOpen := srv_redisOpen s2 \<and> \<not> redisCloses\<rparr>,
                            poolEnds \<and> (srv_redisOpen s2 \<longrightarrow> redisCloses))))"

text \<open>The handler of a signal, given how \<open>app.close()\<close> and \<open>closeResources\<close> behave.\<close>

definition shutdown_server ::
  "bool \<Rightarrow> (('r, 'p) server \<Rightarrow> (('r, 'p) server \<times> bool) option) \<Rightarrow> ('r, 'p) server \<Rightarrow> ('r, 'p) server option" where
  "shutdown_server appCloses closing s =
     (if srv_shuttingDown s then Some s
      else let s1 = s\<lparr>srv_shuttingDown := True\<rparr>
           in if \<not> appCloses then Some (s1\<lparr>srv_exitCode := Some 1, srv_connected := False\<rparr>)
              else case closing s1 of
                     None \<Rightarrow> None
                   | Some (s2, ok) \<Rightarrow> Some (s2\<lparr>srv_exitCode := Some (if ok then 0 else 1), srv_connected := False\<rparr>))"

text \<open>The start; the second component says that the server listens.  \<open>opened\<close> is whether the Redis client is open
  afterwards, also when connecting to it failed.\<close>

definition start_server ::
  "bool \<Rightarrow> bool \<Rightarrow> bool \<Rightarrow> (('r, 'p) server \<Rightarrow> (('r, 'p) server \<times> bool) option) \<Rightarrow> ('r, 'p) server \<Rightarrow>
   (('r, 'p) server \<times> bool) option" where
  "start_server dbAnswers opened listens closing s =
     (let give_up = (\<lambda>s. map_option (\<lambda>(s', ok). (s'\<lparr>srv_exitCode := Some 1, srv_connected := False\<rparr>, False)) (closing s))
      in if \<not> dbAnswers then give_up s
         else let s1 = s\<lparr>srv_redisOpen := opened\<rparr>
              in case srv_worker s1 of
                   None \<Rightarrow> if listens then Some (s1, True) else give_up s1
                 | Some w \<Rightarrow>
                     (case worker_start w of
                        Inl _ \<Rightarrow> give_up s1
                      | Inr w' \<Rightarrow>
                          (let s2 = s1\<lparr>srv_worker := Some w'\<rparr>
                           in if listens then Some (s2, True) else give_up s2)))"

section \<open>What closing the click buffer stores\<close>

text \<open>The loop on this sink is the loop of the class with the answers of this sink.\<close>

lemma close_clicks_loop_refines:
  "close_clicks_loop E nets b p = Some (res, t, p') \<Longrightarrow> \<exists>answers. close_loop answers b = Some (res, t)"
proof (induction nets arbitrary: b p)
  case Nil
  then have "close_loop [] b = Some (res, t)"
    by (simp add: close_clicks_loop.simps [of E "[]"] close_loop.simps split: if_splits)
  then show ?case by blast
next
  case (Cons n nets)
  show ?case
  proof (cases "pending b = []")
    case True
    with Cons.prems have "close_loop [] b = Some (res, t)"
      by (simp add: close_clicks_loop.simps [of E "n # nets"] close_loop.simps)
    then show ?thesis by blast
  next
    case False
    obtain p1 answer where a: "sink_answer E n (case inflight (flush_begin b) of Some batch \<Rightarrow> batch | None \<Rightarrow> []) p = (p1, answer)"
      by fastforce
    note step = Cons.prems [unfolded close_clicks_loop.simps [of E "n # nets"]]
    show ?thesis
    proof (cases answer)
      case SinkRejected
      with step a False have "close_loop (answer # []) b = Some (res, t)" by (simp add: Let_def close_loop.simps)
      then show ?thesis by blast
    next
      case (SinkResolved us)
      with step a False have "close_clicks_loop E nets (flush_settle (SinkResolved us) (flush_begin b)) p1 = Some (res, t, p')"
        by (simp add: Let_def)
      from Cons.IH [OF this] obtain answers where
        "close_loop answers (flush_settle (SinkResolved us) (flush_begin b)) = Some (res, t)" by blast
      with False have "close_loop (SinkResolved us # answers) b = Some (res, t)" by (simp add: close_loop.simps [of _ b])
      then show ?thesis by blast
    qed
  qed
qed

definition add_clicks :: "click_map \<Rightarrow> link_row \<Rightarrow> link_row" where
  "add_clicks m row = row\<lparr>clicks := clicks row + int (count_of m (row_code row))\<rparr>"

lemma add_clicks_sel [simp]:
  "row_code (add_clicks m row) = row_code row" "target_url (add_clicks m row) = target_url row"
  "created_at (add_clicks m row) = created_at row" "expires_at (add_clicks m row) = expires_at row"
  "clicks (add_clicks m row) = clicks row + int (count_of m (row_code row))"
  by (simp_all add: add_clicks_def)

lemma add_clicks_none: "count_of m (row_code row) = 0 \<Longrightarrow> add_clicks m row = row"
  by (simp add: add_clicks_def)

text \<open>The number of clicks of one code stays in the range of integers of the language.\<close>

definition safe_counts :: "click_map \<Rightarrow> bool" where
  "safe_counts m \<longleftrightarrow> (\<forall>c. int (count_of m c) \<le> MAX_SAFE_INTEGER)"

lemma sink_batch_simps [simp]:
  "js_keys (sink_batch b) = js_keys b" "js_get (sink_batch b) c = map_option int (js_get b c)"
  "sink_batch b = [] \<longleftrightarrow> b = []"
  by (induction b) (auto simp: sink_batch_def)

lemma sink_batch_safe:
  assumes "js_wf b" "Click_Buffer.positive b" "safe_counts b"
  shows "\<forall>(code, k) \<in> set (sink_batch b). isSafeInteger k \<and> 1 \<le> k"
proof (intro ballI)
  fix x
  assume "x \<in> set (sink_batch b)"
  then obtain c n where x: "x = (c, int n)" "(c, n) \<in> set b" by (auto simp: sink_batch_def)
  then have "js_get b c = Some n" using js_get_iff [OF assms(1)] by blast
  then have "1 \<le> n" "int n \<le> MAX_SAFE_INTEGER"
    using assms(2) assms(3) [unfolded safe_counts_def, rule_format, of c] by (auto simp: Click_Buffer.positive_def count_of_def)
  then show "case x of (code, k) \<Rightarrow> isSafeInteger k \<and> 1 \<le> k"
    by (simp add: x(1) isSafeInteger_def MAX_SAFE_INTEGER_def)
qed

context postgres
begin

lemma sink_answer_ok:
  assumes "js_wf b" "Click_Buffer.positive b" "safe_counts b" "b \<noteq> []"
  obtains p' where "sink_answer E NetOk b p = (p', SinkResolved (filter (\<lambda>c. c \<notin> codes_in E p) (js_keys b)))"
    and "set (pg_scan E p') = add_clicks b ` set (pg_scan E p)"
proof -
  have "sink_batch b \<noteq> []" using assms(4) by simp
  note effect = click_batch_effect [OF this sink_batch_safe [OF assms(1-3)], of p]
  have "(\<lambda>row. case js_get (sink_batch b) (row_code row) of None \<Rightarrow> row | Some k \<Rightarrow> row\<lparr>clicks := clicks row + k\<rparr>) =
      add_clicks b"
    by (rule ext) (simp add: add_clicks_def count_of_def split: option.split)
  with effect have scan: "set (pg_scan E (fst (pg_recordClickBatch E NetOk (sink_batch b) p))) = add_clicks b ` set (pg_scan E p)"
    by presburger
  have "sink_answer E NetOk b p = (fst (pg_recordClickBatch E NetOk (sink_batch b) p),
      SinkResolved (filter (\<lambda>c. c \<notin> codes_in E p) (js_keys b)))"
    using effect by (simp add: sink_answer_def case_prod_beta)
  with that scan show thesis by blast
qed

end

text \<open>What is left after a round: at most the clicks of the codes without a row.\<close>

lemma flush_leaves:
  assumes "buffer_inv b" "inflight b = None" "pending b \<noteq> []" "distinct us"
  defines "b2 \<equiv> flush_settle (SinkResolved us) (flush_begin b)"
  shows "count_of (pending b2) c \<le> count_of (pending b) c" "c \<notin> set us \<Longrightarrow> count_of (pending b2) c = 0"
proof -
  have begun: "inflight (flush_begin b) = Some (pending b)" using assms(2,3) by (simp add: flush_begin_def)
  have none: "inflight b2 = None" by (simp add: b2_def begun flush_settle_def Let_def assms(3))
  have "in_buffer b2 c = count_of (pending b2) c" using none by (simp add: in_buffer_def inflight_count_def)
  moreover have "in_buffer (flush_begin b) c = count_of (pending b) c"
    unfolding in_buffer_begin using assms(2) by (simp add: in_buffer_def inflight_count_def)
  moreover note in_buffer_resolved [OF flush_begin_inv [OF assms(1)] begun assms(4), of c, folded b2_def]
  ultimately show "count_of (pending b2) c \<le> count_of (pending b) c" "c \<notin> set us \<Longrightarrow> count_of (pending b2) c = 0"
    by simp_all
qed

lemma close_clicks_loop_spec:
  assumes "postgres E"
  shows "buffer_inv b \<Longrightarrow> inflight b = None \<Longrightarrow> tried k b \<Longrightarrow> set nets \<subseteq> {NetOk} \<Longrightarrow>
     maxUnmatchedAttempts b \<le> k + length nets \<Longrightarrow> safe_counts (pending b) \<Longrightarrow>
     \<exists>t p'. close_clicks_loop E nets b p = Some (CloseDone, t, p') \<and> pending t = [] \<and>
       set (pg_scan E p') = add_clicks (pending b) ` set (pg_scan E p)"
proof (induction nets arbitrary: b k p)
  case Nil
  then have "pending b = []" using tried_limit by simp
  then show ?case by (simp add: close_clicks_loop.simps add_clicks_none)
next
  case (Cons n nets)
  show ?case
  proof (cases "pending b = []")
    case True
    then show ?thesis by (simp add: close_clicks_loop.simps add_clicks_none)
  next
    case False
    let ?us = "filter (\<lambda>c. c \<notin> codes_in E p) (js_keys (pending b))"
    let ?b = "flush_settle (SinkResolved ?us) (flush_begin b)"
    have wf: "js_wf (pending b)" "Click_Buffer.positive (pending b)" using Cons.prems(1) by (simp_all add: buffer_inv_def)
    have us: "distinct ?us" using wf(1) by simp
    obtain p1 where p1: "sink_answer E NetOk (pending b) p = (p1, SinkResolved ?us)"
      "set (pg_scan E p1) = add_clicks (pending b) ` set (pg_scan E p)"
      using postgres.sink_answer_ok [OF assms wf Cons.prems(6) False] by blast
    note left = flush_leaves [OF Cons.prems(1,2) False us]
    have "buffer_inv ?b" by (intro flush_settle_inv flush_begin_inv Cons.prems(1))
    moreover have "tried (Suc k) ?b" by (rule flush_round_tried [OF Cons.prems(1,2) False Cons.prems(3) us])
    moreover have "safe_counts (pending ?b)"
      using Cons.prems(6) left(1) unfolding safe_counts_def by (meson of_nat_mono order_trans)
    moreover have "maxUnmatchedAttempts ?b = maxUnmatchedAttempts b" "inflight ?b = None"
      using Cons.prems(2) by simp_all
    ultimately obtain t p' where t: "close_clicks_loop E nets ?b p1 = Some (CloseDone, t, p')" "pending t = []"
      "set (pg_scan E p') = add_clicks (pending ?b) ` set (pg_scan E p1)"
      using Cons.IH [of ?b "Suc k" p1] Cons.prems(4,5) by auto
    have "add_clicks (pending ?b) (add_clicks (pending b) row) = add_clicks (pending b) row"
      if "row \<in> set (pg_scan E p)" for row
      using left(2) [of "row_code row"] that by (intro add_clicks_none) auto
    then have "set (pg_scan E p') = add_clicks (pending b) ` set (pg_scan E p)"
      unfolding t(3) p1(2) image_image by (rule image_cong [OF refl])
    moreover have "inflight (flush_begin b) = Some (pending b)" using Cons.prems(2) False by (simp add: flush_begin_def)
    ultimately show ?thesis using t(1,2) p1(1) False Cons.prems(4)
      by (simp add: close_clicks_loop.simps [of E "NetOk # nets"])
  qed
qed

lemma close_clicks_spec:
  assumes "postgres E" "buffer_inv b" "inflight b = None" "\<not> closed b" "safe_counts (pending b)"
    and "set nets \<subseteq> {NetOk}" "maxUnmatchedAttempts b \<le> length nets"
  shows "\<exists>t p'. close_clicks E nets b p = Some (CloseDone, t, p') \<and> pending t = [] \<and>
     set (pg_scan E p') = add_clicks (pending b) ` set (pg_scan E p)"
proof -
  let ?b = "b\<lparr>closed := True, timer := False\<rparr>"
  have "buffer_inv ?b" using assms(2) by (simp add: buffer_inv_def)
  moreover have "tried 0 ?b" by (simp add: tried_def)
  ultimately show ?thesis using close_clicks_loop_spec [OF assms(1), of ?b 0 nets p] assms(3-7)
    by (simp add: close_clicks_def)
qed

section \<open>What a server is built of\<close>

lemma failing_Inr: "failing f x = Inr a \<longleftrightarrow> x = Inr a"
  by (cases x) simp_all

lemma worker_shards:
  assumes "workerIdentity numbers env = (i, n)" "shardsForWorker i n = Inr shards"
  shows "distinct shards" "\<forall>k \<in> set shards. valid_shard k"
  using assms distinct_shards_from [of n i] mem_shardsForWorker [OF assms(2)]
  by (auto simp: shardsForWorker_def split: if_splits)

lemma built_parts:
  assumes "build_server numbers hmac hashApiKey env = Inr parts"
  shows "loadConfig numbers env = Inr (sp_config parts)"
    and "\<exists>b0. ClickBuffer (IntNum (cfg_clickFlushIntervalMs (sp_config parts))) (IntNum (cfg_clickBufferMax (sp_config parts)))
           (IntNum 10) = Inr b0 \<and> start_timer b0 = Inr (sp_clicks parts)"
    and "sp_sync parts = Some opts \<Longrightarrow> \<exists>index count shards. workerIdentity numbers env = (index, count) \<and>
           shardsForWorker index count = Inr shards \<and>
           LinkSyncWorker shards (IntNum (cfg_linkSyncIntervalMs (sp_config parts)))
             (IntNum (cfg_linkSyncBatchSize (sp_config parts))) (IntNum (cfg_redisCacheTtlSeconds (sp_config parts)))
             None None = Inr opts"
  using assms
  by (auto simp: build_server_def and_then_Inr Let_def failing_Inr split: if_splits prod.splits)

lemma built_sync:
  assumes "build_server numbers hmac hashApiKey env = Inr parts" "sp_sync parts = Some opts"
  shows "1 \<le> opt_batchSize opts" "opt_lockTtlMs opts = 30000" "opt_maxBatchesPerShard opts = 10"
    and "distinct (opt_shards opts)" "\<forall>k \<in> set (opt_shards opts). valid_shard k"
proof -
  obtain index count shards where
    parts: "workerIdentity numbers env = (index, count)" "shardsForWorker index count = Inr shards"
      "LinkSyncWorker shards (IntNum (cfg_linkSyncIntervalMs (sp_config parts)))
         (IntNum (cfg_linkSyncBatchSize (sp_config parts))) (IntNum (cfg_redisCacheTtlSeconds (sp_config parts)))
         None None = Inr opts"
    using built_parts(3) [OF assms] by blast
  then show "1 \<le> opt_batchSize opts" "opt_lockTtlMs opts = 30000" "opt_maxBatchesPerShard opts = 10"
    by (auto simp: LinkSyncWorker_def split: if_splits)
  from parts(3) have "opt_shards opts = shards" by (auto simp: LinkSyncWorker_def split: if_splits)
  with worker_shards [OF parts(1,2)]
  show "distinct (opt_shards opts)" "\<forall>k \<in> set (opt_shards opts). valid_shard k" by simp_all
qed

lemma built_buffer:
  assumes "build_server numbers hmac hashApiKey env = Inr parts"
  shows "buffer_inv (sp_clicks parts)" "inflight (sp_clicks parts) = None" "\<not> closed (sp_clicks parts)"
    and "maxUnmatchedAttempts (sp_clicks parts) = 10" "timer (sp_clicks parts)"
proof -
  obtain b0 where b: "ClickBuffer (IntNum (cfg_clickFlushIntervalMs (sp_config parts)))
      (IntNum (cfg_clickBufferMax (sp_config parts))) (IntNum 10) = Inr b0" "start_timer b0 = Inr (sp_clicks parts)"
    using built_parts(2) [OF assms] by blast
  have started: "sp_clicks parts = b0\<lparr>timer := True\<rparr>" using b(2) by (auto simp: start_timer_def split: if_splits)
  have "inflight b0 = None" "\<not> closed b0" "maxUnmatchedAttempts b0 = 10"
    using b(1) by (auto simp: ClickBuffer_def split: if_splits)
  with ClickBuffer_inv [OF b(1)]
  show "buffer_inv (sp_clicks parts)" "inflight (sp_clicks parts) = None" "\<not> closed (sp_clicks parts)"
    "maxUnmatchedAttempts (sp_clicks parts) = 10" "timer (sp_clicks parts)"
    by (simp_all add: started buffer_inv_def)
qed

lemma build_succeeds:
  assumes "loadConfig numbers env = Inr c" "\<forall>k t. length (hmac k t) = 32"
  shows "(\<exists>parts. build_server numbers hmac hashApiKey env = Inr parts \<and> sp_config parts = c \<and>
       (sp_sync parts = None \<longleftrightarrow> \<not> cfg_linkSyncEnabled c) \<and>
       (sp_share parts = None \<longleftrightarrow> cfg_linkWriteMode c \<noteq> WriteBehindMode) \<and>
       (sp_roundKeys parts = None \<longleftrightarrow> cfg_linkWriteMode c \<noteq> WriteBehindMode)) \<or>
     (build_server numbers hmac hashApiKey env = Inl (KeysFailed ShortApiKey) \<and>
       (\<exists>k \<in> set (cfg_createApiKeys c). length k < 32))"
proof -
  obtain index workers where id: "workerIdentity numbers env = (index, workers)" by fastforce
  note ok = config_starts [OF assms id, of hashApiKey]
  obtain b0 where b: "ClickBuffer (IntNum (cfg_clickFlushIntervalMs c)) (IntNum (cfg_clickBufferMax c)) (IntNum 10) = Inr b0"
    using ok by blast
  then have "\<not> closed b0" by (auto simp: ClickBuffer_def split: if_splits)
  then have b1: "start_timer b0 = Inr (b0\<lparr>timer := True\<rparr>)" by (simp add: start_timer_def)
  obtain L shards opts where L: "RedisRateLimiter (cfg_createRateLimitMax c) (cfg_createRateLimitWindowSeconds c) ''wraplink:rate:create'' = Inr L"
      "shardsForWorker index workers = Inr shards"
      "LinkSyncWorker shards (IntNum (cfg_linkSyncIntervalMs c)) (IntNum (cfg_linkSyncBatchSize c))
          (IntNum (cfg_redisCacheTtlSeconds c)) None None = Inr opts" using ok by blast
  have wb: "\<exists>share secret keys. WriteBehindLinkStore (IntNum (cfg_writeBehindMaxPending c)) = Inr share \<and>
      cfg_codeScrambleSecret c = Some secret \<and> CodeScrambler hmac secret = Inr keys" if "cfg_linkWriteMode c = WriteBehindMode"
    using ok that by blast
  note keys = ok [THEN conjunct2, THEN conjunct2, THEN conjunct2, THEN conjunct2]
  show ?thesis
  proof (cases "HashedApiKeyAuthenticator hashApiKey (cfg_createApiKeys c)")
    case (Inl e)
    with keys have "e = ShortApiKey" "\<exists>k \<in> set (cfg_createApiKeys c). length k < 32" by blast+
    moreover have "build_server numbers hmac hashApiKey env = Inl (KeysFailed e)"
      using wb assms(1) b b1 L id Inl by (cases "cfg_linkWriteMode c") (auto simp: build_server_def)
    ultimately show ?thesis by simp
  next
    case (Inr hashes)
    show ?thesis
    proof (cases "cfg_linkWriteMode c")
      case SyncMode
      then show ?thesis using assms(1) b b1 L id Inr by (auto simp: build_server_def)
    next
      case WriteBehindMode
      then obtain share secret rk where "WriteBehindLinkStore (IntNum (cfg_writeBehindMaxPending c)) = Inr share"
        "cfg_codeScrambleSecret c = Some secret" "CodeScrambler hmac secret = Inr rk" using wb by blast
      then show ?thesis using WriteBehindMode assms(1) b b1 L id Inr by (auto simp: build_server_def)
    qed
  qed
qed

text \<open>C29: What starts is well formed: \<open>server.ts\<close> gets past building its components unless the
  configuration is rejected or an API key is shorter than 32 characters; the click buffer is open, empty of
  flushes, ticking and keeps its invariant; the sync worker exists exactly if it is enabled, owns
  the shards of this worker, each once, and has a positive batch size and lock time; the write-behind store
  and the scrambler exist exactly in write-behind mode.\<close>

theorem server_builds:
  assumes "\<forall>k t. length (hmac k t) = 32"
  shows "case build_server numbers hmac hashApiKey env of
     Inl e \<Rightarrow> (\<exists>e'. e = ConfigFailed e' \<and> loadConfig numbers env = Inl e') \<or>
       (e = KeysFailed ShortApiKey \<and>
        (\<exists>c. loadConfig numbers env = Inr c \<and> (\<exists>k \<in> set (cfg_createApiKeys c). length k < 32)))
   | Inr parts \<Rightarrow> loadConfig numbers env = Inr (sp_config parts) \<and>
       buffer_inv (sp_clicks parts) \<and> inflight (sp_clicks parts) = None \<and> timer (sp_clicks parts) \<and> \<not> closed (sp_clicks parts) \<and>
       (sp_sync parts = None \<longleftrightarrow> \<not> cfg_linkSyncEnabled (sp_config parts)) \<and>
       (\<forall>opts. sp_sync parts = Some opts \<longrightarrow>
          (\<exists>index count. workerIdentity numbers env = (index, count) \<and> shardsForWorker index count = Inr (opt_shards opts)) \<and>
          distinct (opt_shards opts) \<and> (\<forall>k \<in> set (opt_shards opts). valid_shard k) \<and>
          1 \<le> opt_batchSize opts \<and> 0 < opt_lockTtlMs opts \<and> 1 \<le> opt_maxBatchesPerShard opts) \<and>
       (sp_share parts = None \<longleftrightarrow> cfg_linkWriteMode (sp_config parts) \<noteq> WriteBehindMode) \<and>
       (sp_roundKeys parts = None \<longleftrightarrow> cfg_linkWriteMode (sp_config parts) \<noteq> WriteBehindMode)"
proof (cases "loadConfig numbers env")
  case (Inl e)
  then show ?thesis by (simp add: build_server_def)
next
  case (Inr c)
  show ?thesis
  proof (cases "build_server numbers hmac hashApiKey env")
    case (Inl e)
    with build_succeeds [OF Inr assms, of hashApiKey] Inr show ?thesis by auto
  next
    case parts: (Inr parts)
    have same: "sp_config parts = c" using built_parts(1) [OF parts] Inr by simp
    have owns: "\<exists>index count. workerIdentity numbers env = (index, count) \<and> shardsForWorker index count = Inr (opt_shards opts)"
      if "sp_sync parts = Some opts" for opts
      using built_parts(3) [OF parts that] by (auto simp: LinkSyncWorker_def split: if_splits)
    show ?thesis using build_succeeds [OF Inr assms, of hashApiKey] parts same Inr built_buffer [OF parts] built_sync [OF parts] owns
      by simp
  qed
qed

definition api_key_text :: string where "api_key_text = replicate 32 (CHR ''k'')"

text \<open>A server with the sync worker enabled, alone in its deployment.\<close>

definition server_env :: env where
  "server_env = [''CREATE_API_KEYS'' \<mapsto> api_key_text, ''LINK_SYNC_ENABLED'' \<mapsto> ''1'']"

lemma server_env_config:
  obtains c where "loadConfig (\<lambda>_. NotInt) server_env = Inr c" "cfg_createApiKeys c = [api_key_text]"
    "cfg_linkSyncEnabled c" "cfg_linkSyncBatchSize c = 1000" "cfg_linkWriteMode c = SyncMode"
proof -
  have trim: "js_trim (replicate n (CHR ''k'')) = replicate n (CHR ''k'')" for n by (simp add: js_trim_def js_space_def)
  have split: "js_split (CHR '','') (replicate n (CHR ''k'')) = [replicate n (CHR ''k'')]" for n by (induction n) simp_all
  have k: "js_trim api_key_text = api_key_text" "js_split (CHR '','') api_key_text = [api_key_text]"
    unfolding api_key_text_def by (rule trim, rule split)
  have t: "js_trim ''1'' = ''1''" "js_trim ''sync'' = ''sync''" "toLowerCase ''1'' = ''1''"
    by (simp_all add: js_trim_def js_space_def toLowerCase_def lower_char_def)
  have "length api_key_text = 32" by (simp add: api_key_text_def)
  then have "api_key_text \<noteq> []" by auto
  with k t that show thesis
    by (simp add: loadConfig_def linkWriteMode_def env_or_def server_env_def scramble_secret_def env_integer_def
        env_boolean_def requiredList_def env_list_def)
qed

lemma server_env_built:
  obtains parts opts where "build_server (\<lambda>_. NotInt) (\<lambda>_ _. replicate 32 0) (\<lambda>_. []) server_env = Inr parts"
    "sp_sync parts = Some opts" "opt_batchSize opts = 1000"
proof -
  obtain c where c: "loadConfig (\<lambda>_. NotInt) server_env = Inr c" "cfg_createApiKeys c = [api_key_text]"
    "cfg_linkSyncEnabled c" "cfg_linkSyncBatchSize c = 1000" by (rule server_env_config)
  have "length api_key_text = 32" by (simp add: api_key_text_def)
  with build_succeeds [OF c(1), of "\<lambda>_ _. replicate 32 0" "\<lambda>_. []"] c(2,3)
  obtain parts opts where p: "build_server (\<lambda>_. NotInt) (\<lambda>_ _. replicate 32 0) (\<lambda>_. []) server_env = Inr parts"
    "sp_config parts = c" "sp_sync parts = Some opts" by auto
  moreover have "opt_batchSize opts = 1000"
    using built_parts(3) [OF p(1,3)] p(2) c(4) by (auto simp: LinkSyncWorker_def split: if_splits)
  ultimately show thesis using that by blast
qed

theorem server_builds_witness:
  "case build_server (\<lambda>_. NotInt) (\<lambda>_ _. replicate 32 0) (\<lambda>_. []) server_env of
     Inl e \<Rightarrow> False
   | Inr parts \<Rightarrow> (\<exists>opts. sp_sync parts = Some opts \<and> distinct (opt_shards opts) \<and> 1 \<le> opt_batchSize opts)"
proof -
  obtain parts opts where p: "build_server (\<lambda>_. NotInt) (\<lambda>_ _. replicate 32 0) (\<lambda>_. []) server_env = Inr parts"
    "sp_sync parts = Some opts" by (rule server_env_built)
  from server_builds [where hmac = "\<lambda>_ _. replicate 32 0" and numbers = "\<lambda>_. NotInt" and hashApiKey = "\<lambda>_. []" and
      env = server_env] p show ?thesis by auto
qed

section \<open>A graceful stop\<close>



text \<open>A queued link and a click on it: both are in PostgreSQL after the stop.\<close>

definition stop_server :: "click_buffer \<Rightarrow> (ref_redis, ref_db) server" where
  "stop_server b = \<lparr>srv_redis = demo_queue, srv_db = ref_db_empty, srv_clicks = b,
     srv_worker = Some \<lparr>wk_timer = True, wk_running = False, wk_closed = False\<rparr>, srv_metricsClosed = False,
     srv_poolOpen = True, srv_redisOpen = True, srv_shuttingDown = False, srv_exitCode = None, srv_connected = True\<rparr>"

lemma one_click:
  obtains cs where "click_reachable cs" "inflight (buf cs) = None" "\<not> closed (buf cs)"
    "pending (buf cs) = [(''aB3dE6gH9'', 1)]" "maxUnmatchedAttempts (buf cs) = 10"
proof -
  obtain b0 where b0: "ClickBuffer (IntNum 1000) (IntNum 10000) (IntNum 10) = Inr b0" "\<not> closed b0" "pending b0 = []"
    "pendingTotal b0 = 0" "inflight b0 = None" "maxPendingClicks b0 = 10000" "maxUnmatchedAttempts b0 = 10"
    by (simp add: ClickBuffer_def small_safe)
  let ?s = "\<lparr>buf = b0, recorded = (\<lambda>_. 0), persisted = (\<lambda>_. 0), lost = (\<lambda>_. 0)\<rparr>"
  let ?b = "b0\<lparr>pending := [(''aB3dE6gH9'', 1)], pendingTotal := 1\<rparr>"
  have "record_click ''aB3dE6gH9'' b0 = Inr ?b" using b0 by (simp add: record_click_def bump_def count_of_def)
  from click_step.click [of _ ?s, simplified, OF this] click_reachable.fresh [OF b0(1)]
  have "click_reachable (?s\<lparr>buf := ?b, recorded := (\<lambda>_. 0)(''aB3dE6gH9'' := 1)\<rparr>)"
    by (auto intro: click_reachable.step)
  then show thesis using that b0 by force
qed


end
