(* ===== verification/Migrate.thy ===== *)
theory Migrate
  imports Prelude "HOL-Library.List_Lexorder"
begin

text \<open>
  \<open>src/src/database/migrate.ts\<close>: applying the SQL files of the migrations directory, each in a transaction with the
  row that records it.  What a file does to the schema is a parameter; the advisory lock lets
  one process run at a time, so runs follow each other, and each of their statements may fail or lose its reply.
\<close>

section \<open>One run\<close>

text \<open>The schema and the table \<open>schema_migrations\<close>, \<open>None\<close> before it exists.\<close>

record 'd migration_db =
  md_schema :: 'd
  md_applied :: "string list option"

definition applied_files :: "'d migration_db \<Rightarrow> string list" where
  "applied_files db = (case md_applied db of None \<Rightarrow> [] | Some fs \<Rightarrow> fs)"

definition ends_with :: "string \<Rightarrow> string \<Rightarrow> bool" where
  "ends_with suffix s \<longleftrightarrow> length suffix \<le> length s \<and> drop (length s - length suffix) s = suffix"

definition migrationFiles :: "string list \<Rightarrow> string list" where
  "migrationFiles directory = sort (filter (ends_with ''.sql'') directory)"

text \<open>How the steps for one file go: reading it, and the statements \<open>BEGIN\<close>, the file, \<open>INSERT\<close> and \<open>COMMIT\<close>.\<close>

record file_fate =
  ff_read :: bool
  ff_begin :: net
  ff_sql :: net
  ff_insert :: net
  ff_commit :: net

text \<open>One file in its transaction.  A failure before \<open>COMMIT\<close> rolls back; the commit may take effect although
  its reply is lost.\<close>

definition apply_migration ::
  "(string \<Rightarrow> 'd \<Rightarrow> 'd option) \<Rightarrow> file_fate \<Rightarrow> string \<Rightarrow> 'd migration_db \<Rightarrow> 'd migration_db \<times> bool" where
  "apply_migration sql ff filename db =
     (if \<not> ff_read ff \<or> ff_begin ff \<noteq> NetOk then (db, False)
      else if ff_sql ff \<noteq> NetOk then (db, False)
      else case sql filename (md_schema db) of
             None \<Rightarrow> (db, False)
           | Some schema \<Rightarrow>
               if ff_insert ff \<noteq> NetOk \<or> filename \<in> set (applied_files db) then (db, False)
               else (let committed = db\<lparr>md_schema := schema, md_applied := Some (applied_files db @ [filename])\<rparr>
                     in case ff_commit ff of
                          NetOk \<Rightarrow> (committed, True)
                        | LostReply \<Rightarrow> (committed, False)
                        | LostRequest \<Rightarrow> (db, False)))"

text \<open>The loop: \<open>applied\<close> is the set that was read before it.\<close>

fun apply_files ::
  "(string \<Rightarrow> 'd \<Rightarrow> 'd option) \<Rightarrow> (string \<Rightarrow> file_fate) \<Rightarrow> string list \<Rightarrow> string list \<Rightarrow> 'd migration_db \<Rightarrow>
   'd migration_db \<times> bool" where
  "apply_files sql fate applied [] db = (db, True)"
| "apply_files sql fate applied (filename # files) db =
     (if filename \<in> set applied then apply_files sql fate applied files db
      else let (db', ok) = apply_migration sql (fate filename) filename db
           in if ok then apply_files sql fate applied files db' else (db', False))"

record run_fate =
  rf_connect :: net
  rf_lock :: net
  rf_table :: net
  rf_readdir :: bool
  rf_select :: net
  rf_file :: "string \<Rightarrow> file_fate"
  rf_unlock :: net

text \<open>A run; it reports success only if the lock was released, too.\<close>

definition migrate ::
  "(string \<Rightarrow> 'd \<Rightarrow> 'd option) \<Rightarrow> string list \<Rightarrow> run_fate \<Rightarrow> 'd migration_db \<Rightarrow> 'd migration_db \<times> bool" where
  "migrate sql directory rf db =
     (if rf_connect rf \<noteq> NetOk \<or> rf_lock rf \<noteq> NetOk then (db, False)
      else let (db1, created) = remote (rf_table rf) (\<lambda>db. (db\<lparr>md_applied := Some (applied_files db)\<rparr>, ())) db
           in if created = None \<or> \<not> rf_readdir rf \<or> rf_select rf \<noteq> NetOk then (db1, False)
              else let (db2, ok) = apply_files sql (rf_file rf) (applied_files db1) (migrationFiles directory) db1
                   in (db2, ok \<and> rf_unlock rf = NetOk))"

inductive migration_reachable :: "(string \<Rightarrow> 'd \<Rightarrow> 'd option) \<Rightarrow> string list \<Rightarrow> 'd \<Rightarrow> 'd migration_db \<Rightarrow> bool"
  for sql directory empty_schema where
  created: "migration_reachable sql directory empty_schema \<lparr>md_schema = empty_schema, md_applied = None\<rparr>"
| run: "migration_reachable sql directory empty_schema db \<Longrightarrow> migrate sql directory rf db = (db', ok) \<Longrightarrow>
     migration_reachable sql directory empty_schema db'"

section \<open>Each file once, in order\<close>

text \<open>The reference: the files one after the other on the empty schema.\<close>

fun run_files :: "(string \<Rightarrow> 'd \<Rightarrow> 'd option) \<Rightarrow> string list \<Rightarrow> 'd \<Rightarrow> 'd option" where
  "run_files sql [] d = Some d"
| "run_files sql (f # fs) d = Option.bind (sql f d) (run_files sql fs)"

lemma run_files_append: "run_files sql (fs @ gs) d = Option.bind (run_files sql fs d) (run_files sql gs)"
  by (induction fs arbitrary: d) (simp_all add: bind_split)

definition in_step :: "(string \<Rightarrow> 'd \<Rightarrow> 'd option) \<Rightarrow> string list \<Rightarrow> 'd \<Rightarrow> 'd migration_db \<Rightarrow> bool" where
  "in_step sql files d0 db \<longleftrightarrow>
     (\<exists>k. applied_files db = take k files) \<and> run_files sql (applied_files db) d0 = Some (md_schema db)"

lemma applied_files_simps [simp]:
  "applied_files (db\<lparr>md_applied := Some fs\<rparr>) = fs" "applied_files (db\<lparr>md_schema := d, md_applied := Some fs\<rparr>) = fs"
  "applied_files \<lparr>md_schema = d, md_applied = None\<rparr> = []"
  by (simp_all add: applied_files_def)

lemma apply_migration_in_step:
  assumes "in_step sql files d0 db" "applied_files db = done" "files = done @ f # rest"
    and "apply_migration sql ff f db = (db', ok)"
  shows "in_step sql files d0 db' \<and> (ok \<longrightarrow> applied_files db' = done @ [f]) \<and> (applied_files db' = done \<or> applied_files db' = done @ [f])"
proof (cases "db' = db")
  case True
  have "\<not> ok"
    using assms(4) True by (auto simp: apply_migration_def Let_def split: if_splits option.splits net.splits)
      (metis applied_files_simps(2) append_self_conv not_Cons_self2)
  with True assms(1,2) show ?thesis by simp
next
  case False
  then obtain schema where s: "sql f (md_schema db) = Some schema"
    "db' = db\<lparr>md_schema := schema, md_applied := Some (done @ [f])\<rparr>"
    using assms(2,4) by (auto simp: apply_migration_def Let_def split: if_splits option.splits net.splits)
  have "run_files sql (done @ [f]) d0 = Some schema"
    using assms(1,2) s(1) by (simp add: in_step_def run_files_append)
  moreover have "done @ [f] = take (length done + 1) files" using assms(3) by simp
  ultimately show ?thesis using s(2) unfolding in_step_def by auto
qed

lemma apply_files_skip: "set xs \<subseteq> set applied \<Longrightarrow> apply_files sql fate applied (xs @ ys) db = apply_files sql fate applied ys db"
  by (induction xs) simp_all

lemma apply_files_rest:
  "in_step sql files d0 db \<Longrightarrow> applied_files db = done \<Longrightarrow> files = done @ rest \<Longrightarrow> set applied \<inter> set rest = {} \<Longrightarrow>
   apply_files sql fate applied rest db = (db', ok) \<Longrightarrow>
   in_step sql files d0 db' \<and> (ok \<longrightarrow> applied_files db' = files) \<and> (rest = [] \<longrightarrow> db' = db)"
proof (induction rest arbitrary: db "done")
  case (Cons f rest)
  obtain db1 ok1 where 1: "apply_migration sql (fate f) f db = (db1, ok1)" by fastforce
  note step = apply_migration_in_step [OF Cons.prems(1-3) 1]
  show ?case
  proof (cases ok1)
    case True
    with step have "in_step sql files d0 db1" "applied_files db1 = done @ [f]" by simp_all
    from Cons.IH [OF this] Cons.prems(3-5) 1 True show ?thesis by auto
  next
    case False
    with step 1 Cons.prems(4,5) show ?thesis by auto
  qed
qed simp

lemma migrate_in_step:
  assumes "distinct directory" "in_step sql (migrationFiles directory) d0 db" "migrate sql directory rf db = (db', ok)"
  shows "in_step sql (migrationFiles directory) d0 db' \<and>
     (ok \<longrightarrow> applied_files db' = migrationFiles directory) \<and>
     (applied_files db = migrationFiles directory \<longrightarrow> md_schema db' = md_schema db \<and> applied_files db' = applied_files db)"
proof -
  let ?files = "migrationFiles directory" and ?A = "applied_files db"
  have made: "in_step sql ?files d0 (db\<lparr>md_applied := Some ?A\<rparr>)" using assms(2) by (simp add: in_step_def)
  obtain k where k: "?A = take k ?files" using assms(2) by (auto simp: in_step_def)
  define rest where "rest = drop k ?files"
  have split: "?files = ?A @ rest" by (simp add: k rest_def)
  have dist: "distinct (?A @ rest)" using assms(1) unfolding split [symmetric] by (simp add: migrationFiles_def)
  obtain db2 ok2 where 2: "apply_files sql (rf_file rf) ?A ?files (db\<lparr>md_applied := Some ?A\<rparr>) = (db2, ok2)" by fastforce
  then have "apply_files sql (rf_file rf) ?A rest (db\<lparr>md_applied := Some ?A\<rparr>) = (db2, ok2)"
    using apply_files_skip [of ?A ?A sql "rf_file rf" rest] split by simp
  from apply_files_rest [OF made applied_files_simps(1) split _ this] dist
  have all: "in_step sql ?files d0 db2" "ok2 \<Longrightarrow> applied_files db2 = ?files"
    "rest = [] \<Longrightarrow> db2 = db\<lparr>md_applied := Some ?A\<rparr>" by auto
  have none: "rest = []" if "?A = ?files" using that split by (metis append_self_conv)
  have "(db' = db \<and> \<not> ok) \<or> (db' = db\<lparr>md_applied := Some ?A\<rparr> \<and> \<not> ok) \<or> (db' = db2 \<and> (ok \<longrightarrow> ok2))"
    using assms(3) 2 by (cases "rf_table rf") (auto simp: migrate_def split: if_splits)
  then show ?thesis using assms(2) made all none by (elim disjE) auto
qed

lemma reachable_in_step:
  "migration_reachable sql directory d0 db \<Longrightarrow> distinct directory \<Longrightarrow> in_step sql (migrationFiles directory) d0 db"
proof (induction rule: migration_reachable.induct)
  case created
  show ?case by (simp add: in_step_def)
next
  case (run db rf db' ok)
  from migrate_in_step [OF run.prems run.IH [OF run.prems] run.hyps(2)] show ?case by simp
qed

text \<open>C25: Migrations are applied once and in order: after any number of runs, whatever failed in them, the files recorded
  as applied are the first ones in the order of their names, the schema is what exactly these files make of
  the empty one, one after the other; a run that reports success has applied all, and a run after that changes nothing.\<close>

theorem migrations_applied_once:
  assumes "migration_reachable sql directory empty_schema db" "distinct directory" "migrate sql directory rf db = (db', ok)"
  shows "(\<exists>k. applied_files db' = take k (migrationFiles directory)) \<and>
     run_files sql (applied_files db') empty_schema = Some (md_schema db') \<and>
     (ok \<longrightarrow> applied_files db' = migrationFiles directory \<and>
        (\<forall>rf'. let (db'', ok') = migrate sql directory rf' db'
               in md_schema db'' = md_schema db' \<and> applied_files db'' = applied_files db'))"
proof -
  note now = migrate_in_step [OF assms(2) reachable_in_step [OF assms(1,2)] assms(3)]
  have "let (db'', ok') = migrate sql directory rf' db' in md_schema db'' = md_schema db' \<and> applied_files db'' = applied_files db'"
    if "ok" for rf'
    using migrate_in_step [OF assms(2) conjunct1 [OF now] surjective_pairing] now that by (simp add: case_prod_beta)
  with now show ?thesis by (simp add: in_step_def)
qed

definition good_file :: file_fate where
  "good_file = \<lparr>ff_read = True, ff_begin = NetOk, ff_sql = NetOk, ff_insert = NetOk, ff_commit = NetOk\<rparr>"

definition run_with :: "(string \<Rightarrow> file_fate) \<Rightarrow> run_fate" where
  "run_with fate = \<lparr>rf_connect = NetOk, rf_lock = NetOk, rf_table = NetOk, rf_readdir = True, rf_select = NetOk,
     rf_file = fate, rf_unlock = NetOk\<rparr>"

text \<open>The first run loses the reply of the second commit, the next one succeeds; the schema is the list of its changes.\<close>

theorem migrations_applied_once_witness:
  "let sql = (\<lambda>f d. Some (d @ [f])); directory = [''b.sql'', ''README.md'', ''a.sql''];
       db0 = \<lparr>md_schema = [], md_applied = None\<rparr>;
       (db1, ok1) = migrate sql directory (run_with (\<lambda>f. if f = ''b.sql'' then good_file\<lparr>ff_commit := LostReply\<rparr> else good_file)) db0;
       (db2, ok2) = migrate sql directory (run_with (\<lambda>_. good_file)) db1
   in \<not> ok1 \<and> ok2 \<and> run_files sql (applied_files db2) [] = Some (md_schema db2) \<and> applied_files db2 = [''a.sql'', ''b.sql'']"
proof -
  let ?sql = "\<lambda>f d. Some (d @ [f])" and ?dir = "[''b.sql'', ''README.md'', ''a.sql'']"
  let ?rf1 = "run_with (\<lambda>f. if f = ''b.sql'' then good_file\<lparr>ff_commit := LostReply\<rparr> else good_file)"
  let ?rf2 = "run_with (\<lambda>_. good_file)" and ?db0 = "\<lparr>md_schema = [], md_applied = None\<rparr>"
  have files: "migrationFiles ?dir = [''a.sql'', ''b.sql'']" unfolding migrationFiles_def by code_simp
  define db1 where "db1 = fst (migrate ?sql ?dir ?rf1 ?db0)"
  have 1: "migrate ?sql ?dir ?rf1 ?db0 = (db1, False)"
    unfolding db1_def by (simp add: migrate_def files run_with_def good_file_def apply_migration_def applied_files_def)
  define db2 where "db2 = fst (migrate ?sql ?dir ?rf2 db1)"
  have 2: "migrate ?sql ?dir ?rf2 db1 = (db2, True)"
    unfolding db2_def db1_def by (simp add: migrate_def files run_with_def good_file_def apply_migration_def applied_files_def)
  have d: "distinct ?dir" by simp
  have "migration_reachable ?sql ?dir [] db1" by (rule migration_reachable.run [OF migration_reachable.created 1])
  note once = migrations_applied_once [OF this d 2]
  have "applied_files db2 = [''a.sql'', ''b.sql'']" using once files by simp
  with conjunct1 [OF conjunct2 [OF once]] have "run_files ?sql (applied_files db2) [] = Some (md_schema db2) \<and> applied_files db2 = [''a.sql'', ''b.sql'']" by blast
  then show ?thesis unfolding Let_def 1 2 case_prod_conv by blast
qed

end
