(* ===== verification/Sync_Job.thy ===== *)
theory Sync_Job
  imports Config Sync_Fleet
begin

text \<open>
  \<open>src/src/jobs/sync-links.ts\<close>: the maintenance job that drains every queue into PostgreSQL, or lists the
  dead letters, and what it reports.  The job fails as a whole when a call outside the worker fails.
\<close>

datatype job_report =
    DeadLetters "(string \<times> nat \<times> string list) list" nat
  | Drained nat sync_result nat

datatype job_error = BadArgument config_error | BadOptions worker_error | CallFailed

text \<open>The dead letters: for each shard that has some, the key, their number and the first five.\<close>

fun dead_letter_report :: "'r redis \<Rightarrow> int list \<Rightarrow> 'r \<Rightarrow> (string \<times> nat \<times> string list) list \<times> nat" where
  "dead_letter_report R [] r = ([], 0)"
| "dead_letter_report R (shard # shards) r =
     (let (rest, n) = dead_letter_report R shards r
      in case syncDeadLetterKey shard of
           Inl _ \<Rightarrow> (rest, n)
         | Inr key \<Rightarrow>
             (let len = redis_llen R key r
              in if len = 0 then (rest, n) else ((key, len, redis_lrange R key 0 4 r) # rest, len + n)))"

text \<open>The job; \<open>ticks\<close> are the plans of the passes of \<open>drain\<close>, for the options the job builds.\<close>

definition sync_links ::
  "(string \<Rightarrow> js_number) \<Rightarrow> 'r redis \<Rightarrow> (string \<Rightarrow> int option) \<Rightarrow> env \<Rightarrow> string list \<Rightarrow> bool \<Rightarrow> bool \<Rightarrow>
   (sync_options \<Rightarrow> 'p tick_plan list) \<Rightarrow> 'r \<times> 'p \<Rightarrow> ('r \<times> 'p) \<times> (job_error + job_report)" where
  "sync_links numbers R other vars argv redisConnects dbAnswers ticks w =
     (let env = loadJobEnv numbers vars; args = parseArgs argv []; Q = RedisSyncQueue R
      in if \<not> redisConnects \<or> \<not> dbAnswers then (w, Inl CallFailed)
         else case allShards of
           Inl _ \<Rightarrow> (w, Inl CallFailed)
         | Inr shards \<Rightarrow>
             if js_has args ''dead-letters''
             then (let (found, n) = dead_letter_report R shards (fst w) in (w, Inr (DeadLetters found n)))
             else case syncBacklog Q shards (fst w) of
               None \<Rightarrow> (w, Inl CallFailed)
             | Some before \<Rightarrow>
                 (case positiveIntegerArg numbers args ''batch'' 2000 False of
                    Inl e \<Rightarrow> (w, Inl (BadArgument e))
                  | Inr batchSize \<Rightarrow>
                      (case LinkSyncWorker shards (IntNum 1000) (IntNum batchSize) (IntNum (job_redisCacheTtlSeconds env))
                              None (Some 1000) of
                         Inl e \<Rightarrow> (w, Inl (BadOptions e))
                       | Inr opts \<Rightarrow>
                           (let (w', result) = drain Q opts other (ticks opts) emptyResult w
                            in case syncBacklog Q shards (fst w') of
                                 None \<Rightarrow> (w', Inl CallFailed)
                               | Some after \<Rightarrow> (w', Inr (Drained before result after))))))"

section \<open>The job empties the backlog\<close>

lemma all_shards:
  obtains shards where "allShards = Inr shards" "distinct shards" "\<forall>k. k \<in> set shards \<longleftrightarrow> valid_shard k"
proof -
  have "allShards = Inr (shards_from 0 1)" by (simp add: allShards_def shardsForWorker_def small_safe)
  moreover from this have "s \<in> set (shards_from 0 1) \<longleftrightarrow> valid_shard s" for s
    using mem_shardsForWorker [of 0 1 "shards_from 0 1" s] by (simp add: allShards_def)
  ultimately show thesis using that distinct_shards_from [of 1 0] by simp
qed

lemma job_options:
  assumes "positiveIntegerArg numbers args ''batch'' 2000 False = Inr b"
  shows "\<exists>opts. LinkSyncWorker shards (IntNum 1000) (IntNum b) (IntNum (job_redisCacheTtlSeconds (loadJobEnv numbers vars)))
            None (Some 1000) = Inr opts \<and> 1 \<le> opt_batchSize opts \<and> opt_lockTtlMs opts = 30000 \<and> opt_maxBatchesPerShard opts = 1000"
proof -
  have "isSafeInteger b \<and> 1 \<le> b"
    using assms by (auto simp: positiveIntegerArg_def small_safe split: option.splits js_number.splits if_splits)
  moreover have "isSafeInteger (job_redisCacheTtlSeconds (loadJobEnv numbers vars)) \<and>
      1 \<le> job_redisCacheTtlSeconds (loadJobEnv numbers vars)"
    by (auto simp: loadJobEnv_def Let_def small_safe split: js_number.split)
  ultimately show ?thesis by (simp add: LinkSyncWorker_def small_safe)
qed

text \<open>On healthy connections, with no lock held and more passes than records, the job reports the backlog before, and 0
  after, and the queues are empty.\<close>

definition healthy_ticks :: "'p pg_engine \<Rightarrow> (int \<times> (int \<Rightarrow> string)) list \<Rightarrow> sync_options \<Rightarrow> 'p tick_plan list" where
  "healthy_ticks E clocks opts = map (\<lambda>(now, tok). map (\<lambda>k. (k, tok k,
     replicate (4 * nat (opt_maxBatchesPerShard opts) + 1) (NetOk, now, healthy_sink E))) (opt_shards opts)) clocks"

lemma backlog_is:
  assumes "redis_fleet R view E opts" "typed (view r)" "\<forall>k \<in> set shards. valid_shard k"
  shows "syncBacklog (RedisSyncQueue R) shards r = Some (\<Sum>k \<leftarrow> shards. length (entries (view r) k))"
proof -
  have "sq_length (RedisSyncQueue R) k r = (r, Some (length (entries (view r) k)))" if "k \<in> set shards" for k
    using redis_fleet.queue_length [OF assms(1,2)] assms(3) that by blast
  then show ?thesis by (auto simp: syncBacklog_def intro!: arg_cong [of _ _ sum_list] map_cong)
qed

lemma sync_job_empties:
  assumes "redis_server R view" "postgres E" "typed (view r)" "\<forall>k. valid_shard k \<longrightarrow> owner (view r) k = None"
    and "\<not> js_has (parseArgs argv []) ''dead-letters''"
    and "positiveIntegerArg numbers (parseArgs argv []) ''batch'' 2000 False = Inr b"
    and "allShards = Inr shards" "(\<Sum>k \<leftarrow> shards. length (entries (view r) k)) < length clocks"
  shows "\<exists>r' p' res. sync_links numbers R other vars argv True True (healthy_ticks E clocks) (r, p) =
       ((r', p'), Inr (Drained (\<Sum>k \<leftarrow> shards. length (entries (view r) k)) res 0)) \<and>
     (\<forall>k. valid_shard k \<longrightarrow> entries (view r') k = [])"
proof -
  obtain opts where o: "LinkSyncWorker shards (IntNum 1000) (IntNum b)
      (IntNum (job_redisCacheTtlSeconds (loadJobEnv numbers vars))) None (Some 1000) = Inr opts"
    "1 \<le> opt_batchSize opts" "opt_lockTtlMs opts = 30000" "opt_maxBatchesPerShard opts = 1000"
    using job_options [OF assms(6)] by blast
  have own: "opt_shards opts = shards" using o(1) by (auto simp: LinkSyncWorker_def split: if_splits)
  have fleet: "redis_fleet R view E opts"
    using assms(1,2) o(2,3) by (simp add: redis_fleet_def redis_fleet_axioms_def)
  have sh: "distinct shards" "\<forall>k. k \<in> set shards \<longleftrightarrow> valid_shard k" using all_shards assms(7) by (metis Inr_inject)+
  have free: "\<forall>k \<in> set shards. valid_shard k \<and> owner (view r) k = None" using sh(2) assms(4) by blast
  have max: "1 \<le> opt_maxBatchesPerShard opts" using o(4) by simp
  obtain r' p' res where d: "drain (RedisSyncQueue R) opts other (healthy_ticks E clocks opts) emptyResult (r, p) = ((r', p'), res)"
    "typed (view r')" "\<forall>k \<in> set shards. entries (view r') k = []"
    using redis_fleet.drain_run [OF fleet max sh(1) assms(3) free assms(8), of other emptyResult p]
    unfolding healthy_ticks_def own by blast
  have "syncBacklog (RedisSyncQueue R) shards r' = Some 0"
    using backlog_is [OF fleet d(2), of shards] d(3) free by (simp add: sum_list_eq_0_iff)
  moreover have "syncBacklog (RedisSyncQueue R) shards r = Some (\<Sum>k \<leftarrow> shards. length (entries (view r) k))"
    using backlog_is [OF fleet assms(3), of shards] free by blast
  ultimately have "sync_links numbers R other vars argv True True (healthy_ticks E clocks) (r, p) =
       ((r', p'), Inr (Drained (\<Sum>k \<leftarrow> shards. length (entries (view r) k)) res 0))"
    by (simp add: sync_links_def Let_def assms(5-7) o(1) d(1))
  with d(3) sh(2) show ?thesis by blast
qed

end
