(* ===== verification/Clients.thy ===== *)
theory Clients
  imports Config
begin

text \<open>
  \<open>src/src/cache/redis-client.ts\<close> and \<open>src/src/database/pool.ts\<close>: the options the drivers are created with, and the
  strategy that the Redis client asks how long to wait before it reconnects.  The drivers are not modelled.
\<close>

text \<open>The delay in milliseconds before the next attempt, \<open>None\<close> for the error that ends the attempts.\<close>

definition reconnectStrategy :: "nat \<Rightarrow> nat option" where
  "reconnectStrategy retries = (if 5 \<le> retries then None else Some (min (retries * 50) 1000))"

datatype redis_nodes = ClusterNodes "string list" bool | SingleNode string

record redis_options =
  ro_nodes :: redis_nodes
  ro_connectTimeout :: nat
  ro_reconnect :: "nat \<Rightarrow> nat option"

text \<open>The replica setting is absent in the configuration of the jobs.\<close>

definition createRedisClient :: "string list \<Rightarrow> string \<Rightarrow> bool option \<Rightarrow> redis_options" where
  "createRedisClient redisClusterUrls redisUrl useReplicas =
     \<lparr>ro_nodes = (if 0 < length redisClusterUrls
                  then ClusterNodes redisClusterUrls (case useReplicas of None \<Rightarrow> False | Some b \<Rightarrow> b)
                  else SingleNode redisUrl),
      ro_connectTimeout = 5000, ro_reconnect = reconnectStrategy\<rparr>"

record pool_options =
  po_connectionString :: string
  po_max :: int
  po_connectionTimeoutMillis :: nat
  po_idleTimeoutMillis :: nat

definition createDatabasePool :: "string \<Rightarrow> int \<Rightarrow> pool_options" where
  "createDatabasePool databaseUrl databasePoolMax =
     \<lparr>po_connectionString = databaseUrl, po_max = databasePoolMax, po_connectionTimeoutMillis = 5000,
      po_idleTimeoutMillis = 30000\<rparr>"

text \<open>The attempts in a row: the delays before the client gives up.\<close>

function reconnect_delays :: "nat \<Rightarrow> nat list" where
  "reconnect_delays retries = (case reconnectStrategy retries of None \<Rightarrow> [] | Some d \<Rightarrow> d # reconnect_delays (Suc retries))"
  by pat_completeness auto

termination
  by (relation "measure (\<lambda>retries. 5 - retries)") (auto simp: reconnectStrategy_def split: if_splits)

declare reconnect_delays.simps [simp del]

text \<open>A client gives up after five attempts and half a second of waiting.\<close>

lemma reconnect_gives_up: "reconnect_delays 0 = [0, 50, 100, 150, 200]" "sum_list (reconnect_delays 0) = 500"
proof -
  show "reconnect_delays 0 = [0, 50, 100, 150, 200]"
    by (simp add: reconnect_delays.simps [of 0] reconnect_delays.simps [of "Suc n" for n] reconnectStrategy_def)
  then show "sum_list (reconnect_delays 0) = 500" by simp
qed

text \<open>Without cluster URLs a single node is used, whatever the replica setting.\<close>

lemma redis_nodes_iff: "(\<exists>url. ro_nodes (createRedisClient urls url0 b) = SingleNode url) \<longleftrightarrow> urls = []"
  by (simp add: createRedisClient_def)

end
