(* ===== verification/Spec2Isabelle.thy ===== *)
theory Spec2Isabelle
  imports Short_Code Code_Allocator Block_Allocator Keys Click_Buffer Memory_Store Postgres_Store Sync_Fleet Sync_Schedule
    Cached_Store Rate_Limiter Api_Keys Url_Policy Config Metrics
    App Cluster_Metrics Cluster Warm_Cache Server Migrate Sync_Job Clients
begin

text \<open>
  A verification of WrapLink, a URL shortener in TypeScript.

  \<^bold>\<open>The program.\<close>  A primary process (\<open>src/src/cluster.ts\<close>) forks workers (\<open>server.ts\<close>).  Each worker serves HTTP
  (\<open>app.ts\<close>): creating a link is guarded by a rate limiter, API keys and a policy for destinations
  (\<open>security/\<close>); a redirect finds the link through a Redis cache (\<open>store/cached-link-store.ts\<close>) in front of PostgreSQL
  (\<open>store/postgres-link-store.ts\<close>) and counts a click in memory (\<open>store/click-buffer.ts\<close>), to be written in
  batches.  In write-behind mode a new link is only put into a Redis queue (\<open>store/write-behind-link-store.ts\<close>)
  under a code that no other process can draw (\<open>domain/code-allocator.ts\<close>), and sync workers move the queues to PostgreSQL
  (\<open>store/link-sync-worker.ts\<close>).  Queues, locks and cache entries are spread over 1,024 shards (\<open>cache/keys.ts\<close>), which the
  workers divide among them.  Three jobs migrate the database, warm the cache and drain the queues
  (\<open>database/migrate.ts\<close>, \<open>jobs/\<close>).

  \<^bold>\<open>Conventions.\<close>  An operation of a class is a definition with the name of the method (with a prefix where several
  classes share it: \<open>pg_\<close>, \<open>mem_\<close>, \<open>cs_\<close>, \<open>wb_\<close>, \<open>mt_\<close>, \<open>cm_\<close>, \<open>rq_\<close>) that takes the state of the object and
  returns the new one.  A thrown error or rejected promise is \<open>Inl\<close> of a datatype of errors.  A \<open>Map\<close> or \<open>Set\<close> of the language
  is the association list \<open>js_map\<close> in insertion order, a \<open>number\<close> is an integer or \<open>NotInt\<close>, and 32-bit operations are
  on words.  A call of a remote service takes a \<open>net\<close>: it works, its request is lost, or its reply is lost after it took effect.
  A method that suspends while other code of the process runs is split at the \<open>await\<close>
  (\<open>flush_begin\<close> and \<open>flush_settle\<close>, the phases of \<open>sync_task\<close>, \<open>nextCode\<close> and \<open>settle\<close>).

  \<^bold>\<open>The environment as parameters.\<close>  Redis is a record of commands with the laws of the locale \<open>redis_server\<close> (theory \<open>Redis\<close>),
  PostgreSQL one of three kinds of statement with the laws of \<open>postgres\<close> (\<open>Postgres_Store\<close>); both are interpreted by a
  reference implementation, on which the witnesses run.  SHA-256, HMAC, the parsers of URLs and of texts that are not plain
  numbers or ISO dates, DNS, the collations, and the statistics of the database are arguments of the definitions that use them.

  \<^bold>\<open>The theories\<close>, from the bottom up.
  \<^item> \<open>Prelude\<close>, \<open>Js_Text\<close>, \<open>Json\<close>, \<open>Iso_Date\<close>: the parts of the language and its library that the sources use (maps,
    numbers, strings, \<open>JSON.parse\<close> and \<open>JSON.stringify\<close>, dates), with their round trips.
  \<^item> \<open>Short_Code\<close>, \<open>Cycle_Walking\<close>, \<open>Code_Allocator\<close>, \<open>Block_Allocator\<close>: random codes are unbiased and drawing one ends; the
    Feistel scrambler with cycle walking is a permutation of the code space and its 32-bit hot path
    equals the reference; in a fleet of processes with crashes no two codes are equal.
  \<^item> \<open>Keys\<close>, \<open>Redis\<close>, \<open>Link_Keyspace\<close>: the key layout, the partition of the shards, hash tags, and how the commands act on the
    part of the keyspace that belongs to links.
  \<^item> \<open>Link\<close>, \<open>Memory_Store\<close>, \<open>Postgres_Store\<close>: the \<open>LinkStore\<close> interface as a locale with the laws that its clients use, and
    its two durable implementations; batches of links can be replayed, batches of clicks add exactly their counts.
  \<^item> \<open>Click_Buffer\<close>: an accounting invariant over all interleavings of clicks, flushes and answers, and the end of \<open>close\<close>.
  \<^item> \<open>Write_Behind\<close>, \<open>Sync_Queue\<close>, \<open>Sync_Worker\<close>, \<open>Sync_Fleet\<close>, \<open>Sync_Schedule\<close>: the queue records, the Lua scripts,
    the worker as a machine with one phase per awaited call, any number of workers with lost calls, expired locks and other
    traffic (at least once, fencing, draining), and the lanes that run the shards concurrently.
  \<^item> \<open>Cached_Store\<close>, \<open>Rate_Limiter\<close>, \<open>Api_Keys\<close>, \<open>Url_Policy\<close>: the cache is transparent, the limit holds over every window, exactly
    the configured keys are accepted, and no reserved address gets through in the forms the policy recognises.
  \<^item> \<open>Metrics\<close>, \<open>Cluster_Metrics\<close>, \<open>Cluster\<close>: histograms are exact, merging conserves, the aggregate of the cluster counts
    each event once, and the primary keeps every shard owned by exactly one live worker.
  \<^item> \<open>App\<close>: the handlers; a code that was answered with 201 redirects, and no other answer creates a link.
  \<^item> \<open>Config\<close>, \<open>Server\<close>, \<open>Clients\<close>: settings, the construction of a worker from them, its start and its graceful stop, which
    composes the sync worker, the click buffer and PostgreSQL; the options of the drivers.
  \<^item> \<open>Migrate\<close>, \<open>Warm_Cache\<close>, \<open>Sync_Job\<close>: the jobs.  Migrations are applied once and in order under any failures, the keyset
    pagination of the warm-up visits every link that stays although the table changes meanwhile, and the
    sync job leaves nothing queued.

  \<^bold>\<open>Termination and bounds.\<close>  The cycle walk is \<open>partial_function (option)\<close> and proved to return for every key table; \<open>close\<close> of the
  click buffer takes the list of the sink's answers and is proved to need at most one per allowed attempt; \<open>syncShard\<close> is
  run for a given number of awaited calls, and four for each batch and six more are proved enough; \<open>drain\<close> takes the plans of its
  passes, one more than there are records being enough; the page loop of the warm-up decreases what is left of
  its limit.  Shares of the backlog, retry limits and attempt counts are those of the sources.

  \<^bold>\<open>Not modelled.\<close>
  \<^item> Characters beyond 8 bits: texts are lists of characters of Latin-1; the code treats others alike except for case and white space.
  \<^item> Binary floating point: request durations are rationals.  Time below a millisecond, and the upper end of \<open>BIGINT\<close>.
  \<^item> Timers, signals and messages of the platform are events that may happen in any order; how late they are is not modelled.  Between
    the death of a worker and its exit event its shards have no running owner.
  \<^item> Fastify (routing, body limits, the answer 500 to a rejected handler), the drivers of Redis and PostgreSQL, logging and printed progress.
  \<^item> The SQL of the migrations, but for the constraints of the table in \<open>row_ok\<close> and the sequence as the source of blocks;
    indexes do not show in results.
  \<^item> The redirect service in C++, benchmarks, dashboards and scripts, which are other programs.
\<close>

end
